(* ===== verification/Prelude.thy ===== *)
theory Prelude
  imports Complex_Main "HOL-Library.Word"
begin

text \<open>
  What every component of the development shares: the machine-integer and duration
  types, decimal printing (\<open>std::to_string\<close>), decimal digits, and generic lemmas on
  lists, sums and words.

  Durations (\<open>Nanos\<close>, \<open>Millis\<close>) and C++ \<open>int64_t\<close> values are \<open>int\<close>: signed overflow is
  undefined behaviour in C++, so an operation that could overflow carries its own range
  test and fails instead of wrapping. Unsigned 64-bit counters and sizes
  (\<open>uint64_t\<close>, \<open>size_t\<close>) are \<open>64 word\<close>, whose addition wraps as the code's does.
\<close>

unbundle bit_operations_syntax

type_synonym u64 = "64 word"
type_synonym u16 = "16 word"
type_synonym nanos = int
type_synonym millis = int

named_theorems run_simps \<open>unfolding rules that evaluate a modelled operation\<close>

subsection \<open>The value ranges of the machine integers\<close>

definition int64_ok :: "int \<Rightarrow> bool" where
  "int64_ok v \<longleftrightarrow> - (2 ^ 63) \<le> v \<and> v < 2 ^ 63"

lemma int64_okI [intro]: "- (2 ^ 63) \<le> v \<Longrightarrow> v < 2 ^ 63 \<Longrightarrow> int64_ok v"
  by (simp add: int64_ok_def)

lemma unat_u64_less [simp]: "unat (w :: u64) < 18446744073709551616"
  using unsigned_less [of w] by simp

lemma unat_u64_add:
  "unat (a :: u64) + unat b < 2 ^ 64 \<Longrightarrow> unat (a + b) = unat a + unat b"
  by (simp add: unat_word_ariths)

lemma unat_u64_of_nat: "n < 2 ^ 64 \<Longrightarrow> unat (of_nat n :: u64) = n"
  by (simp add: unat_of_nat)

subsection \<open>Decimal digits\<close>

text \<open>\<open>c < '0' || c > '9'\<close> and \<open>c - '0'\<close> of the hand-rolled number parsers.\<close>

definition is_digit :: "char \<Rightarrow> bool" where
  "is_digit c \<longleftrightarrow> 48 \<le> (of_char c :: nat) \<and> (of_char c :: nat) \<le> 57"

definition digit_val :: "char \<Rightarrow> nat" where
  "digit_val c = of_char c - 48"

definition digit_char :: "nat \<Rightarrow> char" where
  "digit_char d = char_of (48 + d)"

lemma digit_val_le [simp]: "is_digit c \<Longrightarrow> digit_val c \<le> 9"
  unfolding is_digit_def digit_val_def by linarith

lemma of_char_digit_char: "d < 10 \<Longrightarrow> (of_char (digit_char d) :: nat) = 48 + d"
  by (simp add: digit_char_def)

lemma is_digit_digit_char [simp]: "d < 10 \<Longrightarrow> is_digit (digit_char d)"
  by (simp add: is_digit_def of_char_digit_char)

lemma digit_val_digit_char [simp]: "d < 10 \<Longrightarrow> digit_val (digit_char d) = d"
  by (simp add: digit_val_def of_char_digit_char)

text \<open>The value of a digit string, most significant digit first.\<close>

definition dec_value :: "nat \<Rightarrow> string \<Rightarrow> nat" where
  "dec_value acc ds = foldl (\<lambda>n c. n * 10 + digit_val c) acc ds"

lemma dec_value_Nil [simp]: "dec_value acc [] = acc"
  by (simp add: dec_value_def)

lemma dec_value_Cons [simp]: "dec_value acc (c # ds) = dec_value (acc * 10 + digit_val c) ds"
  by (simp add: dec_value_def)

lemma dec_value_snoc [simp]: "dec_value acc (ds @ [c]) = dec_value acc ds * 10 + digit_val c"
  by (simp add: dec_value_def)

lemma dec_value_ge: "acc \<le> dec_value acc ds"
proof (induction ds arbitrary: acc)
  case (Cons c ds)
  from Cons [of "acc * 10 + digit_val c"] show ?case by simp
qed simp

lemma dec_value_ge_head: "acc * 10 ^ length ds \<le> dec_value acc ds"
proof (induction ds arbitrary: acc)
  case (Cons c ds)
  have "acc * 10 ^ length (c # ds) \<le> (acc * 10 + digit_val c) * 10 ^ length ds"
    by (simp add: add_mult_distrib mult.assoc)
  also have "\<dots> \<le> dec_value (acc * 10 + digit_val c) ds" by (rule Cons)
  finally show ?case by simp
qed simp

subsection \<open>Printing integers: \<open>std::to_string\<close> and \<open>operator<<\<close>\<close>

fun string_of_nat :: "nat \<Rightarrow> string" where
  "string_of_nat n =
     (if n < 10 then [digit_char n] else string_of_nat (n div 10) @ [digit_char (n mod 10)])"

declare string_of_nat.simps [simp del]

definition string_of_int :: "int \<Rightarrow> string" where
  "string_of_int i = (if i < 0 then ''-'' @ string_of_nat (nat (- i)) else string_of_nat (nat i))"

lemma string_of_nat_nonempty [simp]: "string_of_nat n \<noteq> []"
  by (subst string_of_nat.simps) simp

lemma string_of_nat_digits: "\<forall>c \<in> set (string_of_nat n). is_digit c"
proof (induction n rule: string_of_nat.induct)
  case (1 n)
  then show ?case
    by (cases "n < 10") (auto simp: string_of_nat.simps [of n])
qed

lemma dec_value_string_of_nat [simp]: "dec_value 0 (string_of_nat n) = n"
proof (induction n rule: string_of_nat.induct)
  case (1 n)
  then show ?case
    by (cases "n < 10") (simp_all add: string_of_nat.simps [of n])
qed

lemma string_of_nat_inject [simp]: "string_of_nat m = string_of_nat n \<longleftrightarrow> m = n"
  by (metis dec_value_string_of_nat)

subsection \<open>Integer division\<close>

lemma div_mult_bounds:
  assumes "(0::int) < d"
  shows "v div d * d \<le> v" and "v < (v div d + 1) * d"
  using div_mult_mod_eq [of v d] pos_mod_sign [OF assms, of v] pos_mod_bound [OF assms, of v]
  unfolding distrib_right by linarith+

subsection \<open>Lists\<close>

lemma sum_list_update_add:
  fixes xs :: "'a :: comm_monoid_add list"
  assumes "i < length xs"
  shows "sum_list (xs[i := xs ! i + d]) = sum_list xs + d"
  using assms
proof (induction xs arbitrary: i)
  case (Cons x xs)
  then show ?case by (cases i) (simp_all add: ac_simps)
qed simp

lemma sum_list_map2_add:
  fixes xs ys :: "'a :: comm_monoid_add list"
  assumes "length xs = length ys"
  shows "sum_list (map2 (+) xs ys) = sum_list xs + sum_list ys"
  using assms by (induction xs ys rule: list_induct2) (simp_all add: ac_simps)

lemma sum_list_nat_zero_iff: "sum_list (xs :: nat list) = 0 \<longleftrightarrow> (\<forall>x \<in> set xs. x = 0)"
  by (induction xs) auto

end
