(* ===== verification/Errors.thy ===== *)
theory Errors
  imports Prelude
begin

text \<open>
  The exception classes of \<open>src/core/errors.hpp\<close> as constructors of one datatype, and the
  result type every fallible operation of the model returns: \<open>Inl\<close> the exception,
  \<open>Inr\<close> the value. \<open>StdException\<close> stands for an exception of the standard library that is not
  derived from the repository's classes. Three constructors are not exceptions: \<open>Assertion\<close> is a failed
  \<open>assert\<close> (the process aborts; the code of a measurement build leaves the check out, so
  a theorem that an operation returns \<open>Inr\<close> says the check would never have fired), and
  \<open>Undefined\<close> marks a step whose effect C++ does not define (signed overflow, a
  floating-point value converted to an integer type that cannot hold it), and \<open>Blocked\<close> is a
  system call that never returns: the script of the environment has ended.
\<close>

datatype error =
    Error string
  | UsageError string
  | InvalidEndpoint string
  | IoError string
  | TimedOut string
  | StdException string
  | Assertion string
  | Undefined string
  | Blocked

type_synonym 'a result = "error + 'a"

text \<open>Which handlers catch an exception: \<open>catch (const UsageError&)\<close> also catches an
  \<open>InvalidEndpoint\<close>, \<open>catch (const IoError&)\<close> also a \<open>TimedOut\<close>, and
  \<open>catch (const Error&)\<close> every exception of the repository.\<close>

fun is_UsageError :: "error \<Rightarrow> bool" where
  "is_UsageError (UsageError _) = True"
| "is_UsageError (InvalidEndpoint _) = True"
| "is_UsageError _ = False"

fun is_IoError :: "error \<Rightarrow> bool" where
  "is_IoError (IoError _) = True"
| "is_IoError (TimedOut _) = True"
| "is_IoError _ = False"

fun is_TimedOut :: "error \<Rightarrow> bool" where
  "is_TimedOut (TimedOut _) = True"
| "is_TimedOut _ = False"

fun is_Error :: "error \<Rightarrow> bool" where
  "is_Error (Assertion _) = False"
| "is_Error (StdException _) = False"
| "is_Error (Undefined _) = False"
| "is_Error Blocked = False"
| "is_Error _ = True"

text \<open>\<open>e.what()\<close>.\<close>

fun what :: "error \<Rightarrow> string" where
  "what (Error s) = s"
| "what (UsageError s) = s"
| "what (InvalidEndpoint s) = s"
| "what (IoError s) = s"
| "what (TimedOut s) = s"
| "what (StdException s) = s"
| "what (Assertion s) = s"
| "what (Undefined s) = s"
| "what Blocked = ''blocked''"

text \<open>Sequencing of operations that can fail: the first failure ends the sequence.\<close>

fun and_then :: "'a result \<Rightarrow> ('a \<Rightarrow> 'b result) \<Rightarrow> 'b result" where
  "and_then (Inl e) f = Inl e"
| "and_then (Inr x) f = f x"

definition throw_unless :: "bool \<Rightarrow> error \<Rightarrow> unit result" where
  "throw_unless b e = (if b then Inr () else Inl e)"

lemma and_then_Inr_iff: "and_then m f = Inr y \<longleftrightarrow> (\<exists>x. m = Inr x \<and> f x = Inr y)"
  by (cases m) auto

lemma and_then_Inl_iff:
  "and_then m f = Inl e \<longleftrightarrow> m = Inl e \<or> (\<exists>x. m = Inr x \<and> f x = Inl e)"
  by (cases m) auto

lemma and_then_cong [fundef_cong]:
  "m = m' \<Longrightarrow> (\<And>x. m' = Inr x \<Longrightarrow> f x = f' x) \<Longrightarrow> and_then m f = and_then m' f'"
  by (cases m') auto

lemma throw_unless_simps [simp]:
  "throw_unless True e = Inr ()"
  "throw_unless False e = Inl e"
  "throw_unless b e = Inr u \<longleftrightarrow> b"
  by (simp_all add: throw_unless_def)

lemma is_TimedOut_is_IoError: "is_TimedOut e \<Longrightarrow> is_IoError e"
  by (cases e) auto

lemma is_IoError_is_Error: "is_IoError e \<Longrightarrow> is_Error e"
  by (cases e) auto

lemma is_UsageError_is_Error: "is_UsageError e \<Longrightarrow> is_Error e"
  by (cases e) auto

lemma is_IoError_not_UsageError: "is_IoError e \<Longrightarrow> \<not> is_UsageError e"
  by (cases e) auto

text \<open>A loop that threads a state through a list and stops at the first failure.\<close>

fun fold_result :: "('s \<Rightarrow> 'a \<Rightarrow> 's result) \<Rightarrow> 's \<Rightarrow> 'a list \<Rightarrow> 's result" where
  "fold_result f s [] = Inr s"
| "fold_result f s (x # xs) = and_then (f s x) (\<lambda>s'. fold_result f s' xs)"

lemma fold_result_append:
  "fold_result f s (xs @ ys) = and_then (fold_result f s xs) (\<lambda>s'. fold_result f s' ys)"
proof (induction xs arbitrary: s)
  case (Cons x xs)
  then show ?case by (cases "f s x") simp_all
qed simp

end
