(* ===== verification/Clock.thy ===== *)
theory Clock
  imports Errors
begin

text \<open>
  \<open>src/core/clock.hpp\<close> and \<open>clock.cpp\<close>: the one clock the program reads. The steady clock is the
  environment's: a function from the number of the reading to its value, an \<open>int64_t\<close> count
  of nanoseconds. An operation that reads the clock takes the number of readings made so far
  and returns it updated. Time-point arithmetic is \<open>int64_t\<close> arithmetic and fails where that
  would overflow.
\<close>

type_synonym instant = int
type_synonym clock = "nat \<Rightarrow> instant"

definition now :: "clock \<Rightarrow> nat \<Rightarrow> instant \<times> nat" where
  "now clock i = (clock i, Suc i)"

definition between :: "instant \<Rightarrow> instant \<Rightarrow> nanos result" where
  "between start stop =
     (if int64_ok (stop - start) then Inr (stop - start)
      else Inl (Undefined ''duration overflow''))"

definition add_nanos :: "instant \<Rightarrow> nanos \<Rightarrow> instant result" where
  "add_nanos t d =
     (if int64_ok (t + d) then Inr (t + d) else Inl (Undefined ''time point overflow''))"

text \<open>The conversion of a duration in milliseconds.\<close>

definition nanos_of_millis :: "millis \<Rightarrow> nanos result" where
  "nanos_of_millis ms =
     (if int64_ok (ms * 1000000) then Inr (ms * 1000000)
      else Inl (Undefined ''duration overflow''))"

definition since :: "clock \<Rightarrow> nat \<Rightarrow> instant \<Rightarrow> (nanos \<times> nat) result" where
  "since clock i start =
     (case now clock i of (t, i') \<Rightarrow> and_then (between start t) (\<lambda>d. Inr (d, i')))"

text \<open>The inner loop of \<open>measured_resolution\<close>: read until the clock differs from \<open>a\<close>, at most
  10^8 + 1 times.\<close>

definition kMaxSpins :: nat where
  "kMaxSpins = 100000000"

function spin :: "clock \<Rightarrow> instant \<Rightarrow> nat \<Rightarrow> instant \<Rightarrow> nat \<Rightarrow> (instant \<times> nat) result" where
  "spin clock a spins b i =
     (if b \<noteq> a then Inr (b, i)
      else if kMaxSpins < spins
      then Inl (Error ''steady_clock did not advance over 1e8 reads'')
      else (case now clock i of (b', i') \<Rightarrow> spin clock a (Suc spins) b' i'))"
  by pat_completeness auto
termination
  by (relation "measure (\<lambda>(clock, a, spins, b, i). Suc kMaxSpins - spins)") auto

declare spin.simps [simp del]

fun resolution_attempts :: "clock \<Rightarrow> nat \<Rightarrow> nanos \<Rightarrow> nat \<Rightarrow> (nanos \<times> nat) result" where
  "resolution_attempts clock 0 best i = Inr (best, i)"
| "resolution_attempts clock (Suc n) best i =
     (case now clock i of (a, i1) \<Rightarrow>
        and_then (spin clock a 0 a i1) (\<lambda>(b, i2).
        and_then (between a b) (\<lambda>d. resolution_attempts clock n (min best d) i2)))"

definition nanos_max :: nanos where
  "nanos_max = 2 ^ 63 - 1"

definition measured_resolution :: "clock \<Rightarrow> nat \<Rightarrow> (nanos \<times> nat) result" where
  "measured_resolution clock i =
     (case now clock i of (_, i1) \<Rightarrow> resolution_attempts clock 5 nanos_max i1)"

subsection \<open>A monotone clock\<close>

definition clock_ok :: "clock \<Rightarrow> bool" where
  "clock_ok clock \<longleftrightarrow> mono clock \<and> (\<forall>i. 0 \<le> clock i \<and> clock i < 2 ^ 63)"

lemma clock_ok_mono: "clock_ok clock \<Longrightarrow> i \<le> j \<Longrightarrow> clock i \<le> clock j"
  by (simp add: clock_ok_def monoD)

lemma clock_ok_range: "clock_ok clock \<Longrightarrow> 0 \<le> clock i \<and> clock i < 2 ^ 63"
  by (simp add: clock_ok_def)

lemma between_ok:
  "0 \<le> a \<Longrightarrow> a < 2 ^ 63 \<Longrightarrow> 0 \<le> b \<Longrightarrow> b < 2 ^ 63 \<Longrightarrow> between a b = Inr (b - a)"
  by (simp add: between_def int64_ok_def)

lemma between_clock: "clock_ok clock \<Longrightarrow> between (clock i) (clock j) = Inr (clock j - clock i)"
  using clock_ok_range [of clock i] clock_ok_range [of clock j] by (intro between_ok) auto

text \<open>The spin ends at the first reading that differs, if one comes in time.\<close>

lemma spin_advances:
  assumes "clock (i + k) \<noteq> a" and "spins + k \<le> kMaxSpins"
  shows "\<exists>j \<ge> i. j \<le> i + k \<and> clock j \<noteq> a \<and> spin clock a spins a i = Inr (clock j, Suc j)"
  using assms
proof (induction k arbitrary: i spins)
  case 0
  then show ?case
    by (intro exI [of _ i]) (simp add: spin.simps [of clock a spins] spin.simps [of clock a "Suc spins"] now_def)
next
  case (Suc k)
  show ?case
  proof (cases "clock i = a")
    case True
    from Suc.prems have "clock (Suc i + k) \<noteq> a" "Suc spins + k \<le> kMaxSpins" by simp_all
    from Suc.IH [OF this] obtain j where "j \<ge> Suc i" "j \<le> Suc i + k" "clock j \<noteq> a"
        "spin clock a (Suc spins) a (Suc i) = Inr (clock j, Suc j)" by blast
    with True Suc.prems(2) show ?thesis
      by (intro exI [of _ j]) (simp add: spin.simps [of clock a spins] now_def)
  next
    case False
    with Suc.prems(2) show ?thesis
      by (intro exI [of _ i])
        (simp add: spin.simps [of clock a spins] spin.simps [of clock a "Suc spins"] now_def)
  qed
qed

lemma spin_stuck:
  assumes "\<forall>j. clock j = a" and "spins \<le> Suc kMaxSpins"
  shows "spin clock a spins a i = Inl (Error ''steady_clock did not advance over 1e8 reads'')"
  using assms(2)
proof (induction "Suc kMaxSpins - spins" arbitrary: spins i)
  case 0
  then show ?case by (simp add: spin.simps [of clock a spins])
next
  case (Suc n)
  then have "spin clock a (Suc spins) a (Suc i)
      = Inl (Error ''steady_clock did not advance over 1e8 reads'')" by simp
  with Suc assms(1) show ?case by (simp add: spin.simps [of clock a spins] now_def)
qed

text \<open>Within the first \<open>n\<close> readings no value is seen more than 10^8 + 1 times in a row.\<close>

definition advances :: "clock \<Rightarrow> nat \<Rightarrow> bool" where
  "advances clock n \<longleftrightarrow> (\<forall>i < n. \<exists>k \<le> kMaxSpins. clock (Suc i + k) \<noteq> clock i)"

lemma resolution_attempts_ok:
  assumes "clock_ok clock" and "advances clock N" and "i + n * (kMaxSpins + 2) \<le> N"
  shows "\<exists>ds i'. length ds = n \<and> (\<forall>d \<in> set ds. 0 < d \<and> (\<exists>j j'. j < j' \<and> d = clock j' - clock j)) \<and>
    resolution_attempts clock n best i = Inr (foldl min best ds, i')"
  using assms(3)
proof (induction n arbitrary: best i)
  case (Suc n)
  have "i < N" using Suc.prems by simp
  with assms(2) obtain k where k: "k \<le> kMaxSpins" "clock (Suc i + k) \<noteq> clock i"
    unfolding advances_def by blast
  from spin_advances [of clock "Suc i" k "clock i" 0] k obtain j where j: "j \<ge> Suc i"
      "j \<le> Suc i + k" "clock j \<noteq> clock i"
      "spin clock (clock i) 0 (clock i) (Suc i) = Inr (clock j, Suc j)" by auto
  let ?d = "clock j - clock i"
  have d: "0 < ?d" using j(1,3) clock_ok_mono [OF assms(1), of i j] by simp
  have "Suc j + n * (kMaxSpins + 2) \<le> N" using Suc.prems j(2) k(1) by simp
  from Suc.IH [OF this, of "min best ?d"] obtain ds i' where ds: "length ds = n"
      "\<forall>d \<in> set ds. 0 < d \<and> (\<exists>j j'. j < j' \<and> d = clock j' - clock j)"
      "resolution_attempts clock n (min best ?d) (Suc j) = Inr (foldl min (min best ?d) ds, i')" by blast
  have "\<exists>p q. p < q \<and> ?d = clock q - clock p" using j(1) by (intro exI [of _ i] exI [of _ j]) simp
  then show ?case
    using ds j d by (intro exI [of _ "?d # ds"] exI [of _ i']) (auto simp: now_def between_clock [OF assms(1)])
qed simp

lemma foldl_min_Min: "foldl min m xs = Min (insert m (set xs))" for m :: "'a :: linorder"
proof (induction xs arbitrary: m)
  case (Cons x xs)
  then show ?case by (cases "xs = []") (simp_all add: min.assoc)
qed simp

lemma foldl_min_in:
  "ds \<noteq> [] \<Longrightarrow> \<forall>d \<in> set ds. d \<le> best \<Longrightarrow> foldl min best ds = Min (set ds)"
  for best :: "'a :: linorder"
  by (simp add: foldl_min_Min min_absorb2 Min_le_iff ex_in_conv)

subsection \<open>Properties\<close>

text \<open>C38: On a monotone clock that advances at least every 10^8 reads, \<open>measured_resolution\<close>
  returns, and what it returns is the smallest of five observed tick differences: positive, and
  the exact difference of two readings of the clock.\<close>

theorem measured_resolution_positive:
  assumes "clock_ok clock" and "advances clock (i + 5 * kMaxSpins + 11)"
  shows "\<exists>ds i'. measured_resolution clock i = Inr (Min (set ds), i') \<and> length ds = 5 \<and>
    (\<forall>d \<in> set ds. 0 < d \<and> (\<exists>j j'. j < j' \<and> d = clock j' - clock j))"
proof -
  from resolution_attempts_ok [OF assms, of "Suc i" 5 nanos_max] obtain ds i' where ds:
    "length ds = 5" "\<forall>d \<in> set ds. 0 < d \<and> (\<exists>j j'. j < j' \<and> d = clock j' - clock j)"
    "resolution_attempts clock 5 nanos_max (Suc i) = Inr (foldl min nanos_max ds, i')" by auto
  have "d \<le> nanos_max" if "d \<in> set ds" for d
  proof -
    from that ds(2) obtain j j' where "d = clock j' - clock j" by blast
    then show ?thesis
      using clock_ok_range [OF assms(1), of j] clock_ok_range [OF assms(1), of j']
      by (simp add: nanos_max_def)
  qed
  moreover have "ds \<noteq> []" using ds(1) by auto
  ultimately have "foldl min nanos_max ds = Min (set ds)" by (simp add: foldl_min_in)
  with ds show ?thesis
    by (intro exI [of _ ds] exI [of _ i']) (simp add: measured_resolution_def now_def)
qed

theorem measured_resolution_positive_witness:
  "\<exists>ds i'. measured_resolution (\<lambda>i. 41 * int (min i 10000000000)) 0 = Inr (Min (set ds), i') \<and>
    length ds = 5"
proof -
  let ?c = "\<lambda>i. 41 * int (min i 10000000000)"
  have "clock_ok ?c" "advances ?c (0 + 5 * kMaxSpins + 11)"
    by (auto simp: clock_ok_def mono_def advances_def kMaxSpins_def intro!: exI [of _ 0])
  from measured_resolution_positive [OF this] show ?thesis by blast
qed

text \<open>On a clock that never moves, \<open>measured_resolution\<close> ends with the error it announces
  instead of spinning for ever.\<close>

lemma measured_resolution_stuck:
  "measured_resolution (\<lambda>_. t) i = Inl (Error ''steady_clock did not advance over 1e8 reads'')"
  using spin_stuck [of "\<lambda>_. t" t 0 "Suc (Suc i)"]
  by (simp add: measured_resolution_def now_def numeral_eq_Suc)

end
