(* ===== verification/Effects.thy ===== *)
theory Effects
  imports Errors Clock
begin

text \<open>
  Operations that act on the environment and may fail: functions from a world to a result and
  the world after it. An exception leaves the world as it was when it was thrown. The world
  has the steady clock and the number of readings made, the script of what the kernel will
  answer to the system calls of the thread in the order in which it makes them, and the log
  of what the thread did: the descriptors it opened, configured, bound and closed, the bytes the
  kernel accepted, its polls and its sleeps, what it printed on the standard output (\<open>Printed\<close>) and the standard error
  (\<open>Complained\<close>), and the stall thread it started. Two things that messages show are the environment's: the texts of \<open>strerror\<close>
  and how an address prints. A thread whose script has ended waits in its system call
  for ever (\<open>Blocked\<close>). Theorems quantify over all scripts, so over everything a kernel and a
  peer can do.
\<close>

datatype errno = EINTR | EAGAIN | EINPROGRESS | Errno nat

datatype sysret = Done nat string | Fail errno

datatype 'addr action =
    Opened nat
  | Closed nat
  | No_Sigpipe nat
  | Nonblocking nat bool
  | Connecting 'addr
  | Polled int
  | Sent string
  | Slept millis
  | Delayed nanos
  | Reusing nat
  | Bound nat 'addr
  | Listening nat int
  | Stalling millis millis
  | Printed string
  | Complained string

record 'addr world =
  w_clock :: clock
  w_reads :: nat
  w_kernel :: "sysret list"
  w_log :: "'addr action list"
  w_strerror :: "errno \<Rightarrow> string"
  w_name :: "'addr \<Rightarrow> string"

type_synonym ('addr, 'a) op = "'addr world \<Rightarrow> 'a result \<times> 'addr world"

definition return_op :: "'a \<Rightarrow> ('addr, 'a) op" where
  "return_op x w = (Inr x, w)"

definition throw :: "error \<Rightarrow> ('addr, 'a) op" where
  "throw e w = (Inl e, w)"

text \<open>The same, with a message that is put together from the environment.\<close>

definition throws :: "('addr world \<Rightarrow> error) \<Rightarrow> ('addr, 'a) op" where
  "throws f w = (Inl (f w), w)"

definition op_then :: "('addr, 'a) op \<Rightarrow> ('a \<Rightarrow> ('addr, 'b) op) \<Rightarrow> ('addr, 'b) op" where
  "op_then m f w = (case m w of (Inl e, w') \<Rightarrow> (Inl e, w') | (Inr x, w') \<Rightarrow> f x w')"

text \<open>\<open>try { m } catch\<close>: the handler sees the exceptions it catches, the rest passes.\<close>

definition catching :: "(error \<Rightarrow> bool) \<Rightarrow> ('addr, 'a) op \<Rightarrow> (error \<Rightarrow> ('addr, 'a) op) \<Rightarrow> ('addr, 'a) op"
where
  "catching caught m handler w =
     (case m w of
        (Inl e, w') \<Rightarrow> if caught e then handler e w' else (Inl e, w')
      | (Inr x, w') \<Rightarrow> (Inr x, w'))"

definition lift :: "'a result \<Rightarrow> ('addr, 'a) op" where
  "lift r w = (r, w)"

definition log_action :: "'addr action \<Rightarrow> ('addr, unit) op" where
  "log_action a w = (Inr (), w\<lparr>w_log := w_log w @ [a]\<rparr>)"

definition read_clock :: "('addr, instant) op" where
  "read_clock w = (case now (w_clock w) (w_reads w) of (t, i) \<Rightarrow> (Inr t, w\<lparr>w_reads := i\<rparr>))"

definition elapsed_since :: "instant \<Rightarrow> ('addr, nanos) op" where
  "elapsed_since start = op_then read_clock (\<lambda>t. lift (between start t))"

text \<open>The next answer of the kernel.\<close>

definition syscall :: "('addr, sysret) op" where
  "syscall w =
     (case w_kernel w of
        [] \<Rightarrow> (Inl Blocked, w)
      | r # rs \<Rightarrow> (Inr r, w\<lparr>w_kernel := rs\<rparr>))"

subsection \<open>What operations leave alone\<close>

text \<open>The clock is the same function throughout, readings are only added, the script is only
  consumed, and the log only grows.\<close>

definition follows :: "'addr world \<Rightarrow> 'addr world \<Rightarrow> bool" where
  "follows w w' \<longleftrightarrow> w_clock w' = w_clock w \<and> w_reads w \<le> w_reads w' \<and>
     (\<exists>used. w_kernel w = used @ w_kernel w') \<and> (\<exists>acts. w_log w' = w_log w @ acts)"

lemma follows_refl [simp]: "follows w w"
  by (simp add: follows_def)

lemma follows_trans: "follows w w' \<Longrightarrow> follows w' w'' \<Longrightarrow> follows w w''"
  by (auto simp: follows_def)

definition well_behaved :: "('addr, 'a) op \<Rightarrow> bool" where
  "well_behaved m \<longleftrightarrow> (\<forall>w r w'. m w = (r, w') \<longrightarrow> follows w w')"

named_theorems behaved \<open>operations that only consume and only append\<close>

lemma well_behavedD: "well_behaved m \<Longrightarrow> m w = (r, w') \<Longrightarrow> follows w w'"
  by (simp add: well_behaved_def)

lemma well_behaved_return [behaved]: "well_behaved (return_op x)"
  by (simp add: well_behaved_def return_op_def)

lemma well_behaved_throw [behaved]: "well_behaved (throw e)"
  by (simp add: well_behaved_def throw_def)

lemma well_behaved_throws [behaved]: "well_behaved (throws f)"
  by (simp add: well_behaved_def throws_def)

lemma well_behaved_lift [behaved]: "well_behaved (lift r)"
  by (simp add: well_behaved_def lift_def)

lemma well_behaved_log [behaved]: "well_behaved (log_action a)"
  by (simp add: well_behaved_def log_action_def follows_def)

lemma well_behaved_clock [behaved]: "well_behaved read_clock"
  by (simp add: well_behaved_def read_clock_def now_def follows_def)

lemma well_behaved_syscall [behaved]: "well_behaved syscall"
  by (auto simp: well_behaved_def syscall_def follows_def split: list.splits)

lemma well_behaved_then [behaved]:
  assumes "well_behaved m" and "\<And>x. well_behaved (f x)"
  shows "well_behaved (op_then m f)"
  unfolding well_behaved_def op_then_def
proof (intro allI impI)
  fix w r w'
  assume *: "(case m w of (Inl e, w') \<Rightarrow> (Inl e, w') | (Inr x, w') \<Rightarrow> f x w') = (r, w')"
  show "follows w w'"
  proof (cases "m w")
    case (Pair a v)
    then have "follows w v" by (rule well_behavedD [OF assms(1)])
    with * Pair show ?thesis
      by (cases a) (auto intro: follows_trans well_behavedD [OF assms(2)])
  qed
qed

lemma well_behaved_catching [behaved]:
  assumes "well_behaved m" and "\<And>e. well_behaved (h e)"
  shows "well_behaved (catching c m h)"
  unfolding well_behaved_def catching_def
proof (intro allI impI)
  fix w r w'
  assume *: "(case m w of (Inl e, w') \<Rightarrow> if c e then h e w' else (Inl e, w') | (Inr x, w') \<Rightarrow> (Inr x, w')) = (r, w')"
  show "follows w w'"
  proof (cases "m w")
    case (Pair a v)
    then have "follows w v" by (rule well_behavedD [OF assms(1)])
    with * Pair show ?thesis
      by (cases a) (auto intro: follows_trans well_behavedD [OF assms(2)] split: if_splits)
  qed
qed

lemma well_behaved_elapsed [behaved]: "well_behaved (elapsed_since t)"
  unfolding elapsed_since_def by (intro behaved)

text \<open>Case analysis of a sequence that ended.\<close>

lemma op_then_InrE:
  assumes "op_then m f w = (Inr y, w')"
  obtains x v where "m w = (Inr x, v)" and "f x v = (Inr y, w')"
  using assms by (auto simp: op_then_def split: prod.splits sum.splits)

lemma op_then_InlE:
  assumes "op_then m f w = (Inl e, w')"
  obtains "m w = (Inl e, w')" | x v where "m w = (Inr x, v)" and "f x v = (Inl e, w')"
  using assms by (auto simp: op_then_def split: prod.splits sum.splits)

lemmas op_simps = return_op_def throw_def throws_def lift_def log_action_def read_clock_def now_def

subsection \<open>Loops around system calls\<close>

text \<open>\<open>for (;;)\<close> with a loop state. Every turn that goes round again has made a system call, so the
  length of the script bounds the turns; \<open>iterate_unfold\<close> is the loop's own equation and shows
  that the bound is never what ends it.\<close>

datatype ('s, 'a) turn = Again 's | Exit 'a

primrec loop :: "nat \<Rightarrow> ('s \<Rightarrow> ('addr, ('s, 'a) turn) op) \<Rightarrow> 's \<Rightarrow> ('addr, 'a) op" where
  "loop 0 body s = throw Blocked"
| "loop (Suc n) body s =
     op_then (body s) (\<lambda>t. case t of Again s' \<Rightarrow> loop n body s' | Exit x \<Rightarrow> return_op x)"

definition iterate :: "('s \<Rightarrow> ('addr, ('s, 'a) turn) op) \<Rightarrow> 's \<Rightarrow> ('addr, 'a) op" where
  "iterate body s w = loop (Suc (length (w_kernel w))) body s w"

definition consumes :: "('s \<Rightarrow> ('addr, ('s, 'a) turn) op) \<Rightarrow> bool" where
  "consumes body \<longleftrightarrow> (\<forall>s w s' w'. body s w = (Inr (Again s'), w') \<longrightarrow>
     length (w_kernel w') < length (w_kernel w))"

lemma loop_enough:
  assumes "consumes body" and "length (w_kernel w) < m" and "length (w_kernel w) < n"
  shows "loop m body s w = loop n body s w"
  using assms(2,3)
proof (induction m arbitrary: n s w)
  case (Suc m)
  then obtain k where n: "n = Suc k" by (cases n) auto
  have "loop m body s' v = loop k body s' v" if "body s w = (Inr (Again s'), v)" for s' v
  proof -
    from that assms(1) have "length (w_kernel v) < length (w_kernel w)"
      unfolding consumes_def by blast
    with Suc.prems n show ?thesis by (intro Suc.IH) simp_all
  qed
  then show ?case
    by (auto simp: n op_then_def split: prod.split sum.split turn.split)
qed simp

lemma iterate_unfold:
  assumes "consumes body"
  shows "iterate body s w =
    op_then (body s) (\<lambda>t. case t of Again s' \<Rightarrow> iterate body s' | Exit x \<Rightarrow> return_op x) w"
proof -
  have "loop (length (w_kernel w)) body s' v = iterate body s' v" if "body s w = (Inr (Again s'), v)" for s' v
    using that assms unfolding iterate_def consumes_def by (intro loop_enough [OF assms]) auto
  then show ?thesis
    by (auto simp: iterate_def op_then_def split: prod.split sum.split turn.split)
qed

text \<open>The loop rule: an invariant that every further turn keeps, and what an exit or an exception
  makes of it.\<close>

lemma iterate_rule:
  assumes run: "iterate body s w = (r, w')" and cons: "consumes body" and start: "I s w"
    and again: "\<And>s w s' w'. I s w \<Longrightarrow> body s w = (Inr (Again s'), w') \<Longrightarrow> I s' w'"
    and exit: "\<And>s w x w'. I s w \<Longrightarrow> body s w = (Inr (Exit x), w') \<Longrightarrow> Q (Inr x) w'"
    and fail: "\<And>s w e w'. I s w \<Longrightarrow> body s w = (Inl e, w') \<Longrightarrow> Q (Inl e) w'"
  shows "Q r w'"
  using run start
proof (induction "length (w_kernel w)" arbitrary: s w rule: less_induct)
  case less
  obtain a v where b: "body s w = (a, v)" by fastforce
  show ?case
  proof (cases a)
    case (Inl e)
    with less.prems b fail show ?thesis by (auto simp: iterate_unfold [OF cons] op_then_def)
  next
    case (Inr t)
    show ?thesis
    proof (cases t)
      case (Again s')
      have "length (w_kernel v) < length (w_kernel w)"
        using cons b Inr Again unfolding consumes_def by blast
      moreover have "iterate body s' v = (r, w')"
        using less.prems(1) b Inr Again by (simp add: iterate_unfold [OF cons, of s] op_then_def)
      ultimately show ?thesis using less.hyps again less.prems(2) b Inr Again by blast
    next
      case (Exit x)
      with less.prems b Inr exit show ?thesis
        by (auto simp: iterate_unfold [OF cons] op_then_def return_op_def)
    qed
  qed
qed

lemma well_behaved_loop: "(\<And>s. well_behaved (body s)) \<Longrightarrow> well_behaved (loop n body s)"
proof (induction n arbitrary: s)
  case 0
  show ?case unfolding loop.simps by (rule behaved)
next
  case (Suc n)
  show ?case unfolding loop.simps
  proof (rule well_behaved_then)
    show "well_behaved (body s)" by (rule Suc.prems)
    show "well_behaved (case t of Again s' \<Rightarrow> loop n body s' | Exit x \<Rightarrow> return_op x)" for t
      using Suc by (cases t) (auto intro: behaved)
  qed
qed

lemma well_behaved_iterate [behaved]:
  assumes "\<And>s. well_behaved (body s)"
  shows "well_behaved (iterate body s)"
  unfolding well_behaved_def iterate_def
  using well_behavedD [OF well_behaved_loop [of body, OF assms]] by blast

text \<open>A turn consumes the script as soon as one of its operations does.\<close>

definition eats :: "('addr, 'a) op \<Rightarrow> bool" where
  "eats m \<longleftrightarrow> (\<forall>w x w'. m w = (Inr x, w') \<longrightarrow> length (w_kernel w') < length (w_kernel w))"

lemma eats_syscall: "eats syscall"
  by (auto simp: eats_def syscall_def split: list.splits)

lemma follows_shorter: "follows w w' \<Longrightarrow> length (w_kernel w') \<le> length (w_kernel w)"
  by (auto simp: follows_def)

lemma eats_first:
  assumes "eats m" and "\<And>x. well_behaved (f x)"
  shows "eats (op_then m f)"
  unfolding eats_def
proof (intro allI impI)
  fix w y w'
  assume "op_then m f w = (Inr y, w')"
  then obtain x v where "m w = (Inr x, v)" "f x v = (Inr y, w')" by (rule op_then_InrE)
  then have "length (w_kernel v) < length (w_kernel w)" "length (w_kernel w') \<le> length (w_kernel v)"
    using assms well_behavedD follows_shorter unfolding eats_def by blast+
  then show "length (w_kernel w') < length (w_kernel w)" by simp
qed

lemma eats_second:
  assumes "well_behaved m" and "\<And>x. eats (f x)"
  shows "eats (op_then m f)"
  unfolding eats_def
proof (intro allI impI)
  fix w y w'
  assume "op_then m f w = (Inr y, w')"
  then obtain x v where "m w = (Inr x, v)" "f x v = (Inr y, w')" by (rule op_then_InrE)
  then have "length (w_kernel v) \<le> length (w_kernel w)" "length (w_kernel w') < length (w_kernel v)"
    using assms well_behavedD follows_shorter unfolding eats_def by blast+
  then show "length (w_kernel w') < length (w_kernel w)" by simp
qed

lemma eats_throw: "eats (throw e)" "eats (throws f)"
  by (simp_all add: eats_def throw_def throws_def)

lemma consumes_eats: "(\<And>s. eats (body s)) \<Longrightarrow> consumes body"
  unfolding consumes_def eats_def by blast

subsection \<open>What operations log\<close>

definition logs :: "('addr action \<Rightarrow> bool) \<Rightarrow> ('addr, 'a) op \<Rightarrow> bool" where
  "logs P m \<longleftrightarrow> (\<forall>w r w'. m w = (r, w') \<longrightarrow>
     (\<exists>acts. w_log w' = w_log w @ acts \<and> (\<forall>a \<in> set acts. P a)))"

named_theorems logging \<open>which actions an operation logs\<close>

lemma logsD: "logs P m \<Longrightarrow> m w = (r, w') \<Longrightarrow>
    \<exists>acts. w_log w' = w_log w @ acts \<and> (\<forall>a \<in> set acts. P a)"
  by (simp add: logs_def)

lemma logs_basic [logging]:
  "logs P (return_op x)" "logs P (throw e)" "logs P (throws f)" "logs P (lift r)" "logs P read_clock" "logs P syscall"
  by (auto simp: logs_def op_simps syscall_def split: list.splits)

lemma logs_action [logging]: "P a \<Longrightarrow> logs P (log_action a)"
  by (simp add: logs_def log_action_def)

lemma logs_then [logging]:
  assumes "logs P m" and "\<And>x. logs P (f x)"
  shows "logs P (op_then m f)"
  unfolding logs_def
proof (intro allI impI)
  fix w r w' assume *: "op_then m f w = (r, w')"
  obtain a v where m: "m w = (a, v)" by fastforce
  from logsD [OF assms(1) m] obtain acts where "w_log v = w_log w @ acts" "\<forall>a \<in> set acts. P a" by blast
  moreover have "\<exists>acts. w_log w' = w_log v @ acts \<and> (\<forall>a \<in> set acts. P a)"
    using * m logsD [OF assms(2)] by (cases a) (auto simp: op_then_def)
  ultimately show "\<exists>acts. w_log w' = w_log w @ acts \<and> (\<forall>a \<in> set acts. P a)"
    by (metis UnE append.assoc set_append)
qed

lemma logs_catching [logging]:
  assumes "logs P m" and "\<And>e. logs P (h e)"
  shows "logs P (catching c m h)"
  unfolding logs_def
proof (intro allI impI)
  fix w r w' assume *: "catching c m h w = (r, w')"
  obtain a v where m: "m w = (a, v)" by fastforce
  from logsD [OF assms(1) m] obtain acts where "w_log v = w_log w @ acts" "\<forall>a \<in> set acts. P a" by blast
  moreover have "\<exists>acts. w_log w' = w_log v @ acts \<and> (\<forall>a \<in> set acts. P a)"
    using * m logsD [OF assms(2)] by (cases a) (auto simp: catching_def split: if_splits)
  ultimately show "\<exists>acts. w_log w' = w_log w @ acts \<and> (\<forall>a \<in> set acts. P a)"
    by (metis UnE append.assoc set_append)
qed

lemma logs_iterate [logging]:
  assumes "\<And>s. logs P (body s)"
  shows "logs P (iterate body s)"
proof -
  have "logs P (loop n body s)" for n
  proof (induction n arbitrary: s)
    case 0
    show ?case unfolding loop.simps by (rule logging)
  next
    case (Suc n)
    show ?case unfolding loop.simps
    proof (rule logs_then)
      show "logs P (body s)" by (rule assms)
      show "logs P (case t of Again s' \<Rightarrow> loop n body s' | Exit x \<Rightarrow> return_op x)" for t
        using Suc by (cases t) (auto intro: logging)
    qed
  qed
  then show ?thesis unfolding logs_def iterate_def by blast
qed

end
