(* ===== verification/Socket.thy ===== *)
theory Socket
  imports Effects "HOL-Library.Signed_Division"
begin

text \<open>
  Socket ownership and I/O, \<open>src/core/socket.hpp\<close> and \<open>socket.cpp\<close>: the moves, \<open>close\<close> and
  \<open>release\<close> of the owner of a descriptor, \<open>connect\<close> with its bounded wait, \<open>connect_any\<close>,
  \<open>set_timeouts\<close>, \<open>read_some\<close> and \<open>write_all\<close>. The destructor that runs when an exception leaves a
  scope is \<open>owning\<close>. A loop that repeats a system call runs over the kernel's script. Messages interpolate
  the texts of \<open>strerror\<close> and of addresses, which the world has.
\<close>

subsection \<open>Ownership\<close>

text \<open>A store of \<open>Socket\<close> objects maps each object to its \<open>fd_\<close>; \<open>-1\<close> is the state left by a move. Each
  operation returns the store and the descriptors it closed. \<open>i = j\<close> is self-assignment.\<close>

type_synonym sockets = "nat \<Rightarrow> int"

definition socket_valid :: "int \<Rightarrow> bool" where
  "socket_valid fd \<longleftrightarrow> 0 \<le> fd"

definition socket_close :: "sockets \<Rightarrow> nat \<Rightarrow> sockets \<times> int list" where
  "socket_close fds i = (if 0 \<le> fds i then (fds(i := - 1), [fds i]) else (fds, []))"

definition socket_release :: "sockets \<Rightarrow> nat \<Rightarrow> sockets \<times> int" where
  "socket_release fds i = (fds(i := - 1), fds i)"

definition move_construct :: "sockets \<Rightarrow> nat \<Rightarrow> nat \<Rightarrow> sockets" where
  "move_construct fds i j = fds(i := fds j, j := - 1)"

definition move_assign :: "sockets \<Rightarrow> nat \<Rightarrow> nat \<Rightarrow> sockets \<times> int list" where
  "move_assign fds i j =
     (if i = j then (fds, [])
      else case socket_close fds i of (fds', cl) \<Rightarrow> (fds'(i := fds' j, j := - 1), cl))"

subsection \<open>Connecting\<close>

text \<open>The exceptions, which unwind the stack and so run destructors.\<close>

fun unwinds :: "error \<Rightarrow> bool" where
  "unwinds (Assertion _) = False"
| "unwinds (Undefined _) = False"
| "unwinds Blocked = False"
| "unwinds _ = True"

definition owning :: "nat \<Rightarrow> ('addr, 'a) op \<Rightarrow> ('addr, 'a) op" where
  "owning fd body =
     catching unwinds body (\<lambda>e. op_then (log_action (Closed fd)) (\<lambda>_. throw e))"

text \<open>The messages: what was tried, for which address, and why it failed.\<close>

definition because :: "string \<Rightarrow> errno \<Rightarrow> 'addr world \<Rightarrow> string" where
  "because doing code w = doing @ '': '' @ w_strerror w code"

definition describe :: "string \<Rightarrow> 'addr \<Rightarrow> errno \<Rightarrow> 'addr world \<Rightarrow> string" where
  "describe doing address code w = doing @ '' '' @ w_name w address @ '': '' @ w_strerror w code"

lemma message_updates [simp]:
  "because doing code (w\<lparr>w_kernel := k\<rparr>) = because doing code w"
  "because doing code (w\<lparr>w_log := l\<rparr>) = because doing code w"
  "because doing code (w\<lparr>w_reads := n\<rparr>) = because doing code w"
  "describe doing address code (w\<lparr>w_kernel := k\<rparr>) = describe doing address code w"
  "describe doing address code (w\<lparr>w_log := l\<rparr>) = describe doing address code w"
  "describe doing address code (w\<lparr>w_reads := n\<rparr>) = describe doing address code w"
  by (simp_all add: because_def describe_def)

definition checked_call :: "(errno \<Rightarrow> 'addr world \<Rightarrow> string) \<Rightarrow> ('addr, nat) op" where
  "checked_call failure =
     op_then syscall (\<lambda>r. case r of
         Fail code \<Rightarrow> throws (\<lambda>w. IoError (failure code w))
       | Done n _ \<Rightarrow> return_op n)"

definition disable_sigpipe :: "nat \<Rightarrow> ('addr, unit) op" where
  "disable_sigpipe fd =
     op_then (checked_call (because ''setsockopt(SO_NOSIGPIPE)'')) (\<lambda>_. log_action (No_Sigpipe fd))"

definition set_nonblocking :: "nat \<Rightarrow> bool \<Rightarrow> ('addr, unit) op" where
  "set_nonblocking fd on =
     op_then (checked_call (because ''fcntl F_GETFL'')) (\<lambda>_.
     op_then (checked_call (because ''fcntl F_SETFL'')) (\<lambda>_. log_action (Nonblocking fd on)))"

definition adopt :: "nat \<Rightarrow> ('addr, nat) op" where
  "adopt fd = owning fd (op_then (disable_sigpipe fd) (\<lambda>_. return_op fd))"

text \<open>The narrowing of the remaining milliseconds to the \<open>int\<close> that \<open>poll\<close> takes.\<close>

definition to_int32 :: "int \<Rightarrow> int" where
  "to_int32 v = signed_take_bit 31 v"

definition timed_out_after :: "'addr \<Rightarrow> millis \<Rightarrow> 'addr world \<Rightarrow> error" where
  "timed_out_after address timeout w =
     TimedOut (''connect to '' @ w_name w address @ '' timed out after '' @ string_of_int timeout @ ''ms'')"

definition poll_turn :: "'addr \<Rightarrow> millis \<Rightarrow> instant \<Rightarrow> unit \<Rightarrow> ('addr, (unit, unit) turn) op" where
  "poll_turn address timeout deadline u =
     op_then read_clock (\<lambda>t.
     op_then (lift (between t deadline)) (\<lambda>left.
       if left \<le> 0 then throws (timed_out_after address timeout)
       else
         op_then (log_action (Polled (to_int32 (left div 1000000)))) (\<lambda>_.
         op_then syscall (\<lambda>r. case r of
             Done ready _ \<Rightarrow>
               if 0 < ready then return_op (Exit ()) else throws (timed_out_after address timeout)
           | Fail e \<Rightarrow>
               if e \<noteq> EINTR then throws (\<lambda>w. IoError (describe ''poll while connecting to'' address e w))
               else return_op (Again ())))))"

definition await_writable :: "'addr \<Rightarrow> millis \<Rightarrow> ('addr, unit) op" where
  "await_writable address timeout =
     op_then read_clock (\<lambda>t.
     op_then (lift (and_then (nanos_of_millis timeout) (add_nanos t))) (\<lambda>deadline.
       iterate (poll_turn address timeout deadline) ()))"

definition finish_connect :: "nat \<Rightarrow> ('addr, nat) op" where
  "finish_connect fd = op_then (set_nonblocking fd False) (\<lambda>_. return_op fd)"

definition connect_owned :: "nat \<Rightarrow> 'addr \<Rightarrow> millis \<Rightarrow> ('addr, nat) op" where
  "connect_owned fd address timeout =
     op_then (set_nonblocking fd True) (\<lambda>_.
     op_then (log_action (Connecting address)) (\<lambda>_.
     op_then syscall (\<lambda>r. case r of
         Done _ _ \<Rightarrow> finish_connect fd
       | Fail e \<Rightarrow>
           if e \<noteq> EINPROGRESS then throws (\<lambda>w. IoError (describe ''connect to'' address e w))
           else
             op_then (await_writable address timeout) (\<lambda>_.
             op_then (checked_call (describe ''getsockopt(SO_ERROR) for'' address)) (\<lambda>pending.
               if pending \<noteq> 0 then throws (\<lambda>w. IoError (describe ''connect to'' address (Errno pending) w))
               else finish_connect fd)))))"

definition connect :: "'addr \<Rightarrow> millis \<Rightarrow> ('addr, nat) op" where
  "connect address timeout =
     op_then (checked_call (describe ''cannot create a socket for'' address)) (\<lambda>fd.
     op_then (log_action (Opened fd)) (\<lambda>_.
     op_then (adopt fd) (\<lambda>_. owning fd (connect_owned fd address timeout))))"

text \<open>\<open>connect_any\<close>: the loop carries whether every attempt so far timed out, and what the failures said.\<close>

definition add_failure :: "string \<Rightarrow> error \<Rightarrow> string" where
  "add_failure failures e = (if failures \<noteq> [] then failures @ ''; '' else failures) @ what e"

fun connect_from :: "bool \<Rightarrow> string \<Rightarrow> 'addr list \<Rightarrow> millis \<Rightarrow> ('addr, nat) op" where
  "connect_from every_attempt_timed_out failures [] timeout =
     throw (if every_attempt_timed_out then TimedOut failures else IoError failures)"
| "connect_from every_attempt_timed_out failures (address # rest) timeout =
     catching is_IoError (connect address timeout)
       (\<lambda>e. connect_from (if is_TimedOut e then every_attempt_timed_out else False) (add_failure failures e)
         rest timeout)"

definition connect_any :: "'addr list \<Rightarrow> millis \<Rightarrow> ('addr, nat) op" where
  "connect_any addresses timeout =
     (if addresses = [] then throw (Assertion ''connect_any needs at least one address'')
      else connect_from True [] addresses timeout)"

definition set_timeouts :: "millis \<Rightarrow> millis \<Rightarrow> ('addr, unit) op" where
  "set_timeouts read_timeout write_timeout =
     op_then (checked_call (because ''setsockopt(SO_RCVTIMEO)'')) (\<lambda>_.
     op_then (checked_call (because ''setsockopt(SO_SNDTIMEO)'')) (\<lambda>_. return_op ()))"

text \<open>The \<open>timeval\<close> that \<open>set_timeouts\<close> hands to the kernel: whole seconds and microseconds, where the division
  truncates towards zero.\<close>

definition timeval_of :: "millis \<Rightarrow> int \<times> int" where
  "timeval_of v = (v sdiv 1000, v smod 1000 * 1000)"

lemma timeval_of_negative: "timeval_of (- 1) = (0, - 1000)"
  by (simp add: timeval_of_def signed_divide_int_def signed_modulo_int_def)

subsection \<open>Reading and writing\<close>

definition read_turn :: "nat \<Rightarrow> unit \<Rightarrow> ('addr, (unit, string) turn) op" where
  "read_turn room u =
     op_then syscall (\<lambda>r. case r of
         Done _ data \<Rightarrow> return_op (Exit (take room data))
       | Fail e \<Rightarrow>
           if e = EINTR then return_op (Again ())
           else if e = EAGAIN then throw (TimedOut ''read timed out'')
           else throws (\<lambda>w. IoError (because ''read'' e w)))"

definition read_some :: "nat \<Rightarrow> ('addr, string) op" where
  "read_some room =
     (if room = 0 then throw (Assertion ''read_some into an empty buffer reads nothing forever'')
      else iterate (read_turn room) ())"

definition write_timed_out :: "nat \<Rightarrow> nat \<Rightarrow> error" where
  "write_timed_out bytes sent =
     TimedOut (''write timed out after '' @ string_of_nat sent @ '' of '' @ string_of_nat bytes @ '' bytes'')"

lemma timeout_kinds [simp]:
  "is_IoError (timed_out_after address timeout w)" "is_TimedOut (timed_out_after address timeout w)"
  "is_IoError (write_timed_out bytes sent)" "is_TimedOut (write_timed_out bytes sent)"
  by (simp_all add: timed_out_after_def write_timed_out_def)

definition write_turn :: "string \<Rightarrow> nat \<Rightarrow> ('addr, (nat, unit) turn) op" where
  "write_turn data sent =
     (if length data \<le> sent then return_op (Exit ())
      else
        op_then syscall (\<lambda>r. case r of
            Done n _ \<Rightarrow>
              let wrote = min n (length data - sent) in
              if 0 < wrote then
                op_then (log_action (Sent (take wrote (drop sent data)))) (\<lambda>_.
                  return_op (Again (sent + wrote)))
              else throw (IoError ''write made no progress'')
          | Fail e \<Rightarrow>
              if e = EINTR then return_op (Again sent)
              else if e = EAGAIN then throw (write_timed_out (length data) sent)
              else throws (\<lambda>w. IoError (because ''write'' e w))))"

definition write_all :: "string \<Rightarrow> ('addr, unit) op" where
  "write_all data = iterate (write_turn data) 0"

subsection \<open>The loops make progress, and everything only consumes\<close>

lemma eats_syscall_then: "(\<And>r. well_behaved (f r)) \<Longrightarrow> eats (op_then syscall f)"
  by (rule eats_first [OF eats_syscall])

lemma well_behaved_poll_turn [behaved]: "well_behaved (poll_turn a timeout deadline u)"
  unfolding poll_turn_def by (auto intro!: behaved split: sysret.split)

lemma consumes_poll: "consumes (poll_turn a timeout deadline)"
proof (rule consumes_eats)
  show "eats (poll_turn a timeout deadline u)" for u
    unfolding poll_turn_def
    by (intro eats_second behaved)
      (auto intro!: eats_second [OF well_behaved_log] eats_syscall_then behaved eats_throw split: sysret.split)
qed

lemma well_behaved_read_turn [behaved]: "well_behaved (read_turn n u)"
  unfolding read_turn_def by (auto intro!: behaved split: sysret.split)

lemma consumes_read: "consumes (read_turn n)"
  unfolding read_turn_def by (rule consumes_eats) (auto intro!: eats_syscall_then behaved split: sysret.split)

lemma well_behaved_write_turn [behaved]: "well_behaved (write_turn data sent)"
  unfolding write_turn_def by (auto intro!: behaved simp: Let_def split: sysret.split)

lemma consumes_write: "consumes (write_turn data)"
  by (auto simp: consumes_def write_turn_def op_then_def op_simps syscall_def Let_def
      split: if_splits list.splits sysret.splits)

lemma well_behaved_read_some [behaved]: "well_behaved (read_some n)"
  unfolding read_some_def by (auto intro: behaved)

lemma well_behaved_write_all [behaved]: "well_behaved (write_all data)"
  unfolding write_all_def by (intro behaved)

lemma well_behaved_checked [behaved]: "well_behaved (checked_call m)"
  unfolding checked_call_def by (auto intro!: behaved split: sysret.split)

lemma well_behaved_setters [behaved]:
  "well_behaved (disable_sigpipe fd)" "well_behaved (set_nonblocking fd on)"
  "well_behaved (set_timeouts a b)"
  unfolding disable_sigpipe_def set_nonblocking_def set_timeouts_def by (intro behaved)+

lemma well_behaved_owning [behaved]: "well_behaved m \<Longrightarrow> well_behaved (owning fd m)"
  unfolding owning_def by (intro behaved)

lemma well_behaved_adopt [behaved]: "well_behaved (adopt fd)"
  unfolding adopt_def by (intro behaved)

lemma well_behaved_await [behaved]: "well_behaved (await_writable a timeout)"
  unfolding await_writable_def by (intro behaved)

lemma well_behaved_finish [behaved]: "well_behaved (finish_connect fd)"
  unfolding finish_connect_def by (intro behaved)

lemma well_behaved_connect_owned [behaved]: "well_behaved (connect_owned fd a timeout)"
  unfolding connect_owned_def by (intro behaved) (auto intro!: behaved split: sysret.split)

lemma well_behaved_connect [behaved]: "well_behaved (connect a timeout)"
  unfolding connect_def by (intro behaved)

lemma well_behaved_connect_from [behaved]: "well_behaved (connect_from b fs as timeout)"
  by (induction b fs as timeout rule: connect_from.induct) (auto intro!: behaved)

lemma well_behaved_connect_any [behaved]: "well_behaved (connect_any as timeout)"
  unfolding connect_any_def by (auto intro: behaved)

lemma eats_checked: "eats (checked_call m)"
  unfolding checked_call_def by (auto intro!: eats_syscall_then behaved split: sysret.split)

lemma eats_connect: "eats (connect a timeout)"
  unfolding connect_def by (intro eats_first [OF eats_checked] behaved)

subsection \<open>Properties of reading and writing\<close>

lemma write_all_pieces:
  fixes w :: "'a world"
  assumes "write_all data w = (r, w')"
  shows "\<exists>pieces. w_log w' = w_log w @ map Sent pieces \<and> [] \<notin> set pieces \<and>
    (case r of Inr _ \<Rightarrow> concat pieces = data
     | Inl e \<Rightarrow> (e = Blocked \<or> is_IoError e) \<and>
         (\<exists>k < length data. concat pieces = take k data))"
proof -
  define I where "I = (\<lambda>s (v :: 'a world). \<exists>pieces. w_log v = w_log w @ map Sent pieces \<and> [] \<notin> set pieces \<and>
    concat pieces = take s data \<and> s \<le> length data)"
  show ?thesis
  proof (rule iterate_rule [OF assms [unfolded write_all_def] consumes_write,
        where I = I and Q = "\<lambda>r w'. \<exists>pieces. w_log w' = w_log w @ map Sent pieces \<and> [] \<notin> set pieces \<and>
    (case r of Inr _ \<Rightarrow> concat pieces = data
     | Inl e \<Rightarrow> (e = Blocked \<or> is_IoError e) \<and> (\<exists>k < length data. concat pieces = take k data))"])
    show "I 0 w" by (auto simp: I_def)
  next
    fix s v s' v' assume I: "I s v" and t: "write_turn data s v = (Inr (Again s'), v')"
    from I obtain ps where ps: "w_log v = w_log w @ map Sent ps" "[] \<notin> set ps" "concat ps = take s data" 
      "s \<le> length data" unfolding I_def by blast
    from t consider "s' = s" "w_log v' = w_log v"
      | n where "s' = s + n" "0 < n" "s + n \<le> length data" "w_log v' = w_log v @ [Sent (take n (drop s data))]"
      by (auto simp: write_turn_def op_then_def op_simps syscall_def Let_def
          split: if_splits list.splits sysret.splits)
    then show "I s' v'"
    proof cases
      case 1
      with ps show ?thesis unfolding I_def by auto
    next
      case 2
      with ps show ?thesis
        unfolding I_def by (intro exI [of _ "ps @ [take n (drop s data)]"]) (auto simp: take_add)
    qed
  next
    fix s v x v' assume "I s v" "write_turn data s v = (Inr (Exit x), v')"
    then show "\<exists>pieces. w_log v' = w_log w @ map Sent pieces \<and> [] \<notin> set pieces \<and>
      (case Inr x of Inr _ \<Rightarrow> concat pieces = data
       | Inl e \<Rightarrow> (e = Blocked \<or> is_IoError e) \<and> (\<exists>k < length data. concat pieces = take k data))"
      by (auto simp: I_def write_turn_def op_then_def op_simps syscall_def Let_def
          split: if_splits list.splits sysret.splits)
  next
    fix s v e v' assume "I s v" and t: "write_turn data s v = (Inl e, v')"
    moreover from t have "s < length data" "w_log v' = w_log v" "e = Blocked \<or> is_IoError e"
      by (auto simp: write_turn_def op_then_def op_simps syscall_def Let_def
          split: if_splits list.splits sysret.splits)
    ultimately show "\<exists>pieces. w_log v' = w_log w @ map Sent pieces \<and> [] \<notin> set pieces \<and>
      (case Inl e of Inr _ \<Rightarrow> concat pieces = data
       | Inl e \<Rightarrow> (e = Blocked \<or> is_IoError e) \<and> (\<exists>k < length data. concat pieces = take k data))"
      unfolding I_def by auto
  qed
qed

text \<open>C21: \<open>write_all\<close> sends all or says so. Whatever the kernel accepts per call, and however often
  a signal interrupts it, the accepted pieces are consecutive pieces of the data from its start:
  all of it when \<open>write_all\<close> returns, a proper prefix when it throws; it never sends a byte
  twice, out of order or past the end, and the only exceptions are \<open>IoError\<close> and its
  \<open>TimedOut\<close>.\<close>

theorem write_all_exact:
  fixes w :: "'a world"
  assumes "write_all data w = (r, w')"
  shows "\<exists>pieces. w_log w' = w_log w @ map Sent pieces \<and> [] \<notin> set pieces \<and>
    (case r of Inr _ \<Rightarrow> concat pieces = data
     | Inl e \<Rightarrow> (e = Blocked \<or> is_IoError e) \<and>
         (\<exists>k < length data. concat pieces = take k data))"
  using assms by (rule write_all_pieces)

definition test_clock :: clock where
  "test_clock i = int (min i 1000000)"

lemma test_clock_eval [simp]:
  "test_clock 0 = 0" "test_clock (Suc 0) = 1" "test_clock (Suc (Suc 0)) = 2"
  by (simp_all add: test_clock_def)

lemma clock_ok_test: "clock_ok test_clock"
  by (auto simp: clock_ok_def mono_def test_clock_def)

definition test_strerror :: "errno \<Rightarrow> string" where
  "test_strerror e = (if e = Errno 61 then ''Connection refused'' else ''Undefined error: 0'')"

definition quiet_world :: "sysret list \<Rightarrow> string world" where
  "quiet_world script = \<lparr>w_clock = test_clock, w_reads = 0, w_kernel = script, w_log = [],
     w_strerror = test_strerror, w_name = id\<rparr>"

theorem write_all_exact_witness:
  "\<exists>pieces. map Sent pieces = [Sent ''he'', Sent ''llo'' :: string action] \<and> concat pieces = ''hello''"
proof -
  have "write_all ''hello'' (quiet_world [Done 2 '''', Fail EINTR, Done 9 ''''])
      = (Inr (), (quiet_world [])\<lparr>w_log := [Sent ''he'', Sent ''llo'']\<rparr>)"
    by (simp add: write_all_def iterate_def quiet_world_def op_then_def write_turn_def syscall_def op_simps
        numeral_eq_Suc)
  from write_all_exact [OF this] obtain ps where
    "[Sent ''he'', Sent ''llo'' :: string action] = map Sent ps" "concat ps = ''hello''"
    by (elim exE conjE) (simp add: quiet_world_def)
  then show ?thesis by metis
qed

lemma read_turn_eq:
  "read_turn room u w =
     (case w_kernel w of
        [] \<Rightarrow> (Inl Blocked, w)
      | Done n data # rest \<Rightarrow> (Inr (Exit (take room data)), w\<lparr>w_kernel := rest\<rparr>)
      | Fail e # rest \<Rightarrow>
          (if e = EINTR then Inr (Again ())
           else Inl (if e = EAGAIN then TimedOut ''read timed out'' else IoError (because ''read'' e w)),
           w\<lparr>w_kernel := rest\<rparr>))"
  by (simp add: read_turn_def op_then_def syscall_def op_simps split: list.split sysret.split)

lemma read_iterate:
  "iterate (read_turn room) () w =
     (case read_turn room () w of
        (Inl e, w') \<Rightarrow> (Inl e, w')
      | (Inr t, w') \<Rightarrow>
          (case t of Again s' \<Rightarrow> iterate (read_turn room) s' | Exit x \<Rightarrow> return_op x) w')"
  by (subst iterate_unfold [OF consumes_read]) (rule op_then_def)

lemma read_first_answer:
  "0 < room \<Longrightarrow> read_some room w =
    (case dropWhile (\<lambda>r. r = Fail EINTR) (w_kernel w) of
       [] \<Rightarrow> (Inl Blocked, w\<lparr>w_kernel := []\<rparr>)
     | Done _ data # rest \<Rightarrow> (Inr (take room data), w\<lparr>w_kernel := rest\<rparr>)
     | Fail e # rest \<Rightarrow>
         (Inl (if e = EAGAIN then TimedOut ''read timed out'' else IoError (because ''read'' e w)),
          w\<lparr>w_kernel := rest\<rparr>))"
proof -
  have "iterate (read_turn room) () w =
    (case dropWhile (\<lambda>r. r = Fail EINTR) (w_kernel w) of
       [] \<Rightarrow> (Inl Blocked, w\<lparr>w_kernel := []\<rparr>)
     | Done _ data # rest \<Rightarrow> (Inr (take room data), w\<lparr>w_kernel := rest\<rparr>)
     | Fail e # rest \<Rightarrow>
         (Inl (if e = EAGAIN then TimedOut ''read timed out'' else IoError (because ''read'' e w)),
          w\<lparr>w_kernel := rest\<rparr>))"
  proof (induction "w_kernel w" arbitrary: w)
    case Nil
    then have "read_turn room () w = (Inl Blocked, w)" by (simp add: read_turn_eq)
    with Nil show ?case by (simp add: read_iterate)
  next
    case (Cons r rs)
    note k = Cons.hyps(2) [symmetric]
    show ?case
    proof (cases "r = Fail EINTR")
      case True
      with k have "read_turn room () w = (Inr (Again ()), w\<lparr>w_kernel := rs\<rparr>)" by (simp add: read_turn_eq)
      with Cons.hyps(1) [of "w\<lparr>w_kernel := rs\<rparr>"] k True show ?thesis
        by (simp add: read_iterate [of room w] cong: list.case_cong sysret.case_cong if_cong)
    next
      case False
      then have "read_turn room () w = (case r of
           Done n data \<Rightarrow> (Inr (Exit (take room data)), w\<lparr>w_kernel := rs\<rparr>)
         | Fail e \<Rightarrow> (Inl (if e = EAGAIN then TimedOut ''read timed out'' else IoError (because ''read'' e w)),
             w\<lparr>w_kernel := rs\<rparr>))"
        using k by (cases r) (simp_all add: read_turn_eq)
      with False k show ?thesis by (cases r) (simp_all add: read_iterate [of room w] return_op_def)
    qed
  qed
  then show "0 < room \<Longrightarrow> ?thesis" by (simp add: read_some_def)
qed

text \<open>\<open>read_some\<close> retries signals only: it returns the bytes of the first answer that is not an
  interruption, at most a buffer of them (none when the peer has closed), and turns an expired
  timeout into \<open>TimedOut\<close> and any other failure into \<open>IoError\<close>.\<close>

theorem read_some_first_answer:
  "0 < room \<Longrightarrow> read_some room w =
    (case dropWhile (\<lambda>r. r = Fail EINTR) (w_kernel w) of
       [] \<Rightarrow> (Inl Blocked, w\<lparr>w_kernel := []\<rparr>)
     | Done _ data # rest \<Rightarrow> (Inr (take room data), w\<lparr>w_kernel := rest\<rparr>)
     | Fail e # rest \<Rightarrow>
         (Inl (if e = EAGAIN then TimedOut ''read timed out'' else IoError (because ''read'' e w)),
          w\<lparr>w_kernel := rest\<rparr>))"
  by (rule read_first_answer)

theorem read_some_first_answer_witness:
  "read_some 4 (quiet_world [Fail EINTR, Done 0 ''abcdef'']) = (Inr ''abcd'', quiet_world [])"
  using read_some_first_answer [of 4 "quiet_world [Fail EINTR, Done 0 ''abcdef'']"]
  by (simp add: quiet_world_def)

subsection \<open>Properties of connecting\<close>

fun fd_quiet :: "'addr action \<Rightarrow> bool" where
  "fd_quiet (Opened _) = False"
| "fd_quiet (Closed _) = False"
| "fd_quiet _ = True"

fun opened :: "'addr action list \<Rightarrow> nat list" where
  "opened [] = []"
| "opened (Opened n # acts) = n # opened acts"
| "opened (_ # acts) = opened acts"

fun closed_fds :: "'addr action list \<Rightarrow> nat list" where
  "closed_fds [] = []"
| "closed_fds (Closed n # acts) = n # closed_fds acts"
| "closed_fds (_ # acts) = closed_fds acts"

lemma opened_append [simp]: "opened (a @ b) = opened a @ opened b"
  by (induction a rule: opened.induct) simp_all

lemma closed_append [simp]: "closed_fds (a @ b) = closed_fds a @ closed_fds b"
  by (induction a rule: closed_fds.induct) simp_all

lemma fd_quiet_acts: "\<forall>a \<in> set acts. fd_quiet a \<Longrightarrow> opened acts = [] \<and> closed_fds acts = []"
proof (induction acts)
  case (Cons a acts)
  then show ?case by (cases a) simp_all
qed simp

lemma logs_checked [logging]: "logs P (checked_call m)"
  unfolding checked_call_def by (auto intro!: logging split: sysret.split)

lemma logs_setters [logging]:
  "logs fd_quiet (disable_sigpipe fd)" "logs fd_quiet (set_nonblocking fd on)"
  unfolding disable_sigpipe_def set_nonblocking_def by (auto intro!: logging)

lemma logs_poll_turn [logging]: "logs fd_quiet (poll_turn a timeout deadline u)"
  unfolding poll_turn_def by (auto intro!: logging split: sysret.split)

lemma logs_await [logging]: "logs fd_quiet (await_writable a timeout)"
  unfolding await_writable_def by (intro logging)

lemma logs_connect_owned [logging]: "logs fd_quiet (connect_owned fd a timeout)"
  unfolding connect_owned_def finish_connect_def by (auto intro!: logging split: sysret.split)

text \<open>What an operation does to the descriptors, by how it ended.\<close>

definition fds_after :: "('addr, 'a) op \<Rightarrow> ('a result \<Rightarrow> nat list \<Rightarrow> nat list \<Rightarrow> bool) \<Rightarrow> bool" where
  "fds_after m Q \<longleftrightarrow> (\<forall>w r w'. m w = (r, w') \<longrightarrow>
     (\<exists>acts. w_log w' = w_log w @ acts \<and> Q r (opened acts) (closed_fds acts)))"

lemma fds_afterD: "fds_after m Q \<Longrightarrow> m w = (r, w') \<Longrightarrow>
    \<exists>acts. w_log w' = w_log w @ acts \<and> Q r (opened acts) (closed_fds acts)"
  by (simp add: fds_after_def)

lemma fds_after_owning:
  assumes "logs fd_quiet m"
  shows "fds_after (owning fd m) (\<lambda>r os cs. os = [] \<and>
    cs = (case r of Inl e \<Rightarrow> if unwinds e then [fd] else [] | Inr _ \<Rightarrow> []))"
  unfolding fds_after_def
proof (intro allI impI)
  fix w r w' assume *: "owning fd m w = (r, w')"
  obtain a v where m: "m w = (a, v)" by fastforce
  from logsD [OF assms m] obtain acts where acts: "w_log v = w_log w @ acts" "\<forall>a \<in> set acts. fd_quiet a"
    by blast
  note q = fd_quiet_acts [OF acts(2)]
  show "\<exists>acts. w_log w' = w_log w @ acts \<and> opened acts = [] \<and>
    closed_fds acts = (case r of Inl e \<Rightarrow> if unwinds e then [fd] else [] | Inr _ \<Rightarrow> [])"
  proof (cases "\<exists>e. a = Inl e \<and> unwinds e")
    case True
    with * m acts q show ?thesis
      by (intro exI [of _ "acts @ [Closed fd]"])
        (auto simp: owning_def catching_def op_then_def op_simps)
  next
    case False
    with * m acts q show ?thesis
      by (intro exI [of _ acts]) (auto simp: owning_def catching_def split: sum.splits if_splits)
  qed
qed

lemma fds_after_connect:
  "fds_after (connect a timeout) (\<lambda>r os cs.
     case r of Inr fd \<Rightarrow> os = [fd] \<and> cs = [] | Inl e \<Rightarrow> unwinds e \<longrightarrow> os = cs)"
  unfolding fds_after_def
proof (intro allI impI)
  fix w :: "'a world" and r w' assume *: "connect a timeout w = (r, w')"
  let ?Q = "\<lambda>acts. w_log w' = w_log w @ acts \<and> (case r of Inr fd \<Rightarrow> opened acts = [fd] \<and> closed_fds acts = []
    | Inl e \<Rightarrow> unwinds e \<longrightarrow> opened acts = closed_fds acts)"
  obtain b v where c: "checked_call (describe ''cannot create a socket for'' a) w = (b, v)" by fastforce
  then have log: "w_log v = w_log w"
    by (auto simp: checked_call_def op_then_def syscall_def op_simps split: list.splits sysret.splits)
  show "\<exists>acts. ?Q acts"
  proof (cases b)
    case (Inl e)
    with * c log show ?thesis by (intro exI [of _ "[]"]) (auto simp: connect_def op_then_def)
  next
    case (Inr fd)
    define v1 where "v1 = v\<lparr>w_log := w_log v @ [Opened fd]\<rparr>"
    obtain d u where ad: "adopt fd v1 = (d, u)" by fastforce
    have "fds_after (adopt fd :: ('a, nat) op) (\<lambda>r os cs. os = [] \<and>
        cs = (case r of Inl e \<Rightarrow> if unwinds e then [fd] else [] | Inr _ \<Rightarrow> []))"
      unfolding adopt_def by (intro fds_after_owning logging)
    from fds_afterD [OF this ad] obtain acts1 where a1: "w_log u = w_log v1 @ acts1" "opened acts1 = []"
      "closed_fds acts1 = (case d of Inl e \<Rightarrow> if unwinds e then [fd] else [] | Inr _ \<Rightarrow> [])" by blast
    have run: "(case d of Inl e \<Rightarrow> (Inl e, u) | Inr _ \<Rightarrow> owning fd (connect_owned fd a timeout) u) = (r, w')"
      using * c Inr ad by (auto simp: connect_def op_then_def log_action_def v1_def split: sum.splits)
    show ?thesis
    proof (cases d)
      case (Inl e)
      with run a1 log show ?thesis by (intro exI [of _ "Opened fd # acts1"]) (auto simp: v1_def)
    next
      case d: (Inr x)
      have "fds_after (owning fd (connect_owned fd a timeout)) (\<lambda>r os cs. os = [] \<and>
        cs = (case r of Inl e \<Rightarrow> if unwinds e then [fd] else [] | Inr _ \<Rightarrow> []))"
        by (intro fds_after_owning logging)
      moreover have "owning fd (connect_owned fd a timeout) u = (r, w')" using run d by simp
      ultimately obtain acts2 where a2: "w_log w' = w_log u @ acts2" "opened acts2 = []"
        "closed_fds acts2 = (case r of Inl e \<Rightarrow> if unwinds e then [fd] else [] | Inr _ \<Rightarrow> [])"
        using fds_afterD by blast
      have "r = Inr fd \<or> (\<exists>e. r = Inl e)"
      proof (cases r)
        case (Inr y)
        with run d have "y = fd"
          by (auto simp: owning_def catching_def connect_owned_def finish_connect_def return_op_def throw_def throws_def
              elim!: op_then_InrE split: sum.splits prod.splits if_splits sysret.splits)
        with Inr show ?thesis by simp
      qed simp
      with a1 a2 d log show ?thesis
        by (intro exI [of _ "Opened fd # acts1 @ acts2"]) (auto simp: v1_def)
    qed
  qed
qed

lemma fds_after_connect_from:
  "fds_after (connect_from b fs as timeout) (\<lambda>r os cs.
     case r of Inr fd \<Rightarrow> os = cs @ [fd] | Inl e \<Rightarrow> unwinds e \<longrightarrow> os = cs)"
proof (induction b fs as timeout rule: connect_from.induct)
  case (1 b fs timeout)
  show ?case by (auto simp: fds_after_def throw_def)
next
  case (2 b fs a rest timeout)
  show ?case unfolding fds_after_def
  proof (intro allI impI)
    fix w :: "'a world" and r w' assume *: "connect_from b fs (a # rest) timeout w = (r, w')"
    obtain c v where c: "connect a timeout w = (c, v)" by fastforce
    from fds_afterD [OF fds_after_connect c] obtain acts where a: "w_log v = w_log w @ acts"
      "case c of Inr fd \<Rightarrow> opened acts = [fd] \<and> closed_fds acts = []
       | Inl e \<Rightarrow> unwinds e \<longrightarrow> opened acts = closed_fds acts" by blast
    show "\<exists>acts. w_log w' = w_log w @ acts \<and> (case r of Inr fd \<Rightarrow> opened acts = closed_fds acts @ [fd]
       | Inl e \<Rightarrow> unwinds e \<longrightarrow> opened acts = closed_fds acts)"
    proof (cases "\<exists>e. c = Inl e \<and> is_IoError e")
      case True
      then obtain e where e: "c = Inl e" "is_IoError e" by blast
      then have "unwinds e" by (cases e) auto
      moreover have "connect_from (if is_TimedOut e then b else False) (add_failure fs e) rest timeout v = (r, w')"
        using * c e by (simp add: catching_def)
      from fds_afterD [OF 2 this] obtain acts2 where "w_log w' = w_log v @ acts2"
        "case r of Inr fd \<Rightarrow> opened acts2 = closed_fds acts2 @ [fd]
         | Inl e \<Rightarrow> unwinds e \<longrightarrow> opened acts2 = closed_fds acts2" by blast
      ultimately show ?thesis using a e
        by (intro exI [of _ "acts @ acts2"]) (auto split: sum.splits)
    next
      case False
      then have "r = c" "w' = v" using * c by (auto simp: catching_def split: sum.splits if_splits)
      with a show ?thesis by (intro exI [of _ acts]) (auto split: sum.splits)
    qed
  qed
qed

text \<open>C22: Connecting leaks no descriptor. However \<open>connect_any\<close> ends, whichever of its system calls
  fails for whichever address, every descriptor it opened has been closed, once, and in order,
  except the one it returns.\<close>

theorem connect_any_no_leak:
  assumes "connect_any addresses timeout w = (r, w')"
  shows "\<exists>acts. w_log w' = w_log w @ acts \<and>
    (case r of Inr fd \<Rightarrow> opened acts = closed_fds acts @ [fd]
     | Inl e \<Rightarrow> unwinds e \<longrightarrow> opened acts = closed_fds acts)"
proof (cases "addresses = []")
  case True
  with assms show ?thesis by (auto simp: connect_any_def throw_def)
next
  case False
  with assms fds_afterD [OF fds_after_connect_from [of True "[]" addresses timeout]] show ?thesis
    by (simp add: connect_any_def)
qed

text \<open>The results of the attempts \<open>connect_any\<close> makes, in order.\<close>

fun attempts :: "'addr list \<Rightarrow> millis \<Rightarrow> 'addr world \<Rightarrow> nat result list" where
  "attempts [] timeout w = []"
| "attempts (a # rest) timeout w =
     (case connect a timeout w of
        (Inr fd, w') \<Rightarrow> [Inr fd]
      | (Inl e, w') \<Rightarrow> Inl e # (if is_IoError e then attempts rest timeout w' else []))"

lemma connect_from_attempts:
  assumes "connect_from b fs as timeout w = (r, w')"
  shows "(case r of
      Inr fd \<Rightarrow> attempts as timeout w \<noteq> [] \<and> last (attempts as timeout w) = Inr fd
    | Inl e \<Rightarrow> (\<forall>x \<in> set (attempts as timeout w). \<exists>e'. x = Inl e') \<and>
        (if is_IoError e
         then length (attempts as timeout w) = length as \<and>
           what e = foldl add_failure fs (map projl (attempts as timeout w)) \<and>
           (is_TimedOut e \<longleftrightarrow> b \<and> (\<forall>x \<in> set (attempts as timeout w). \<exists>e'. x = Inl e' \<and> is_TimedOut e'))
         else attempts as timeout w \<noteq> [] \<and> last (attempts as timeout w) = Inl e))"
  using assms
proof (induction as arbitrary: b fs w)
  case Nil
  then show ?case by (auto simp: throw_def)
next
  case (Cons a as)
  obtain c v where c: "connect a timeout w = (c, v)" by fastforce
  show ?case
  proof (cases "\<exists>e. c = Inl e \<and> is_IoError e")
    case True
    then obtain e where e: "c = Inl e" "is_IoError e" by blast
    then have "connect_from (if is_TimedOut e then b else False) (add_failure fs e) as timeout v = (r, w')"
      using Cons.prems c by (simp add: catching_def)
    from Cons.IH [OF this] show ?thesis
      using c e by (cases "attempts as timeout v = []") (auto split: sum.splits if_splits)
  next
    case False
    then have "r = c" using Cons.prems c by (auto simp: catching_def split: sum.splits if_splits)
    with c False show ?thesis by (auto split: sum.splits)
  qed
qed

text \<open>C23: \<open>connect_any\<close> reports a timeout only when that is the whole story. It returns the socket of
  the first attempt that succeeds; when it throws an \<open>IoError\<close>, every address has been tried
  and has failed, and the exception is a \<open>TimedOut\<close> exactly when every single attempt timed
  out, so a refusal by one address is never reported as a hang; its message is the messages of all the
  attempts, in order.\<close>

theorem connect_any_classifies:
  assumes "connect_any addresses timeout w = (r, w')" and "addresses \<noteq> []"
  shows "case r of
      Inr fd \<Rightarrow> attempts addresses timeout w \<noteq> [] \<and> last (attempts addresses timeout w) = Inr fd
    | Inl e \<Rightarrow> is_IoError e \<longrightarrow>
        length (attempts addresses timeout w) = length addresses \<and>
        what e = foldl add_failure [] (map projl (attempts addresses timeout w)) \<and>
        (\<forall>x \<in> set (attempts addresses timeout w). \<exists>e'. x = Inl e') \<and>
        (is_TimedOut e \<longleftrightarrow> (\<forall>x \<in> set (attempts addresses timeout w). \<exists>e'. x = Inl e' \<and> is_TimedOut e'))"
  using connect_from_attempts [of True "[]" addresses timeout w r w'] assms
  by (auto simp: connect_any_def split: sum.splits)

text \<open>An address that refuses.\<close>

definition refused :: "sysret list" where
  "refused = [Done 5 '''', Done 0 '''', Done 0 '''', Done 0 '''', Fail (Errno 61)]"

definition refused_log :: "string action list" where
  "refused_log = [Opened 5, No_Sigpipe 5, Nonblocking 5 True, Connecting ''::1'', Closed 5]"

lemma connect_refused:
  "connect ''::1'' 9 (quiet_world refused) =
    (Inl (IoError ''connect to ::1: Connection refused''), (quiet_world [])\<lparr>w_log := refused_log\<rparr>)"
  by (simp add: connect_def adopt_def owning_def catching_def checked_call_def op_then_def syscall_def
      op_simps describe_def disable_sigpipe_def set_nonblocking_def connect_owned_def refused_def refused_log_def
      quiet_world_def test_strerror_def)

lemma connect_any_refused:
  "connect_any [''::1''] 9 (quiet_world refused) =
    (Inl (IoError ''connect to ::1: Connection refused''), (quiet_world [])\<lparr>w_log := refused_log\<rparr>)"
  by (simp add: connect_any_def catching_def connect_refused throw_def add_failure_def)

theorem connect_any_no_leak_witness: "opened refused_log = closed_fds refused_log"
  using connect_any_no_leak [OF connect_any_refused] by (simp add: quiet_world_def)

theorem connect_any_classifies_witness: "length (attempts [''::1''] 9 (quiet_world refused)) = 1"
  using connect_any_classifies [OF connect_any_refused] by simp

text \<open>The bounded wait stays bounded. On a monotone clock, with a timeout from 0ms to 2^31 - 1 ms, every
  poll that \<open>await_writable\<close> makes waits at least 0 and at most the timeout: however many
  signals interrupt it, it never polls without a bound and never starts the timeout afresh.\<close>

theorem await_writable_bounded:
  fixes w :: "'addr world"
  assumes "clock_ok (w_clock w)" and "0 \<le> timeout" and "timeout < 2 ^ 31"
    and "await_writable address timeout w = (r, w')"
  shows "\<exists>acts. w_log w' = w_log w @ acts \<and>
    (\<forall>a \<in> set acts. \<exists>ms. a = Polled ms \<and> 0 \<le> ms \<and> ms \<le> timeout)"
proof -
  let ?P = "\<lambda>a. \<exists>ms. a = Polled ms \<and> 0 \<le> ms \<and> ms \<le> timeout"
  let ?first = "w_clock w (w_reads w)"
  let ?d = "?first + timeout * 1000000"
  define v0 where "v0 = w\<lparr>w_reads := Suc (w_reads w)\<rparr>"
  define Q where "Q = (\<lambda>(v :: 'addr world). w_clock v = w_clock w \<and> w_reads w \<le> w_reads v \<and>
    (\<exists>acts. w_log v = w_log w @ acts \<and> (\<forall>a \<in> set acts. ?P a)))"
  have step: "Q v'" if Q: "Q v" and t: "poll_turn address timeout ?d u v = (a, v')" for u v a v'
  proof -
    let ?t = "w_clock v (w_reads v)"
    have "?first \<le> ?t" using Q clock_ok_mono [OF assms(1)] by (simp add: Q_def)
    then have "?d - ?t \<le> timeout * 1000000" by linarith
    from zdiv_mono1 [OF this, of 1000000] have le: "(?d - ?t) div 1000000 \<le> timeout" by simp
    have pos: "0 \<le> (?d - ?t) div 1000000" if "0 < ?d - ?t" using that by (simp add: pos_imp_zdiv_nonneg_iff)
    have "to_int32 ((?d - ?t) div 1000000) = (?d - ?t) div 1000000" if "0 < ?d - ?t"
      using le pos [OF that] assms(3) by (simp add: to_int32_def signed_take_bit_int_eq_self)
    moreover from t have "w_clock v' = w_clock v" "w_reads v' = Suc (w_reads v)"
      "w_log v' = w_log v \<or> 0 < ?d - ?t \<and> w_log v' = w_log v @ [Polled (to_int32 ((?d - ?t) div 1000000))]"
      by (auto simp: poll_turn_def op_then_def op_simps syscall_def between_def
          split: if_splits list.splits sysret.splits)
    ultimately show ?thesis using le pos Q by (auto simp: Q_def)
  qed
  have "Q v0" by (simp add: Q_def v0_def)
  from assms(4) consider "w' = v0" | "iterate (poll_turn address timeout ?d) () v0 = (r, w')"
    by (auto simp: await_writable_def op_then_def op_simps nanos_of_millis_def add_nanos_def v0_def
        split: if_splits)
  then have "Q w'"
  proof cases
    case 2
    from this consumes_poll show ?thesis
      by (rule iterate_rule [where I = "\<lambda>_. Q" and Q = "\<lambda>_. Q"]) (use \<open>Q v0\<close> step in blast)+
  qed (use \<open>Q v0\<close> in simp)
  then show ?thesis by (simp add: Q_def)
qed

theorem await_writable_bounded_witness:
  "\<exists>acts. w_log (snd (await_writable ''::1'' 100 (quiet_world [Fail EINTR, Done 1 '''']))) = acts \<and>
    (\<exists>ms. acts = [Polled ms, Polled ms] \<and> 0 \<le> ms \<and> ms \<le> 100)"
proof -
  let ?w = "quiet_world [Fail EINTR, Done 1 '''']"
  have run: "await_writable ''::1'' 100 ?w = (Inr (), \<lparr>w_clock = test_clock, w_reads = 3,
      w_kernel = [], w_log = [Polled 99, Polled 99], w_strerror = test_strerror, w_name = id\<rparr>)"
    by (simp add: await_writable_def iterate_def quiet_world_def op_then_def poll_turn_def syscall_def
        op_simps nanos_of_millis_def add_nanos_def between_def int64_ok_def to_int32_def
        signed_take_bit_int_eq_self)
  have "clock_ok (w_clock ?w)" by (simp add: quiet_world_def clock_ok_test)
  from await_writable_bounded [OF this _ _ run] show ?thesis
    unfolding run by (simp add: quiet_world_def)
qed

text \<open>The remaining time is truncated to whole milliseconds, so a connect timeout of 1ms never waits:
  with 1ns gone, \<open>await_writable\<close> polls for 0ms and, when that finds nothing, reports that the
  millisecond is over.\<close>

theorem connect_timeout_truncated:
  "await_writable ''::1'' 1 (quiet_world [Done 0 '''']) =
    (Inl (TimedOut ''connect to ::1 timed out after 1ms''),
     \<lparr>w_clock = test_clock, w_reads = 2, w_kernel = [], w_log = [Polled 0], w_strerror = test_strerror, w_name = id\<rparr>)"
  by (simp add: await_writable_def iterate_def quiet_world_def op_then_def poll_turn_def syscall_def
      op_simps nanos_of_millis_def add_nanos_def between_def int64_ok_def to_int32_def
      timed_out_after_def string_of_int_def string_of_nat.simps digit_char_def
      char_of_def bit_iff_odd)

subsection \<open>Properties of ownership\<close>

definition owned :: "sockets \<Rightarrow> int set" where
  "owned fds = {fd. 0 \<le> fd \<and> (\<exists>i. fds i = fd)}"

definition exclusive :: "sockets \<Rightarrow> bool" where
  "exclusive fds \<longleftrightarrow> (\<forall>i j. 0 \<le> fds i \<longrightarrow> fds i = fds j \<longrightarrow> i = j)"

text \<open>Moving sockets neither leaks nor closes twice. From any store in which distinct objects own
  distinct descriptors, a move assignment (self-assignment included) keeps that so, and the
  descriptors owned before are exactly the ones owned after with the ones it closed.\<close>

theorem move_assign_conserves:
  assumes "exclusive fds" and "move_assign fds i j = (fds', cl)"
  shows "exclusive fds' \<and> owned fds = owned fds' \<union> set cl \<and> owned fds' \<inter> set cl = {} \<and>
    distinct cl \<and> (i \<noteq> j \<longrightarrow> fds' i = fds j \<and> \<not> socket_valid (fds' j))"
proof (cases "i = j")
  case True
  with assms show ?thesis by (simp add: move_assign_def)
next
  case False
  then have fds': "fds' = fds(i := fds j, j := - 1)" and cl: "cl = (if 0 \<le> fds i then [fds i] else [])"
    using assms(2) by (auto simp: move_assign_def socket_close_def split: if_splits)
  have ex: "exclusive fds'"
    using assms(1) False unfolding exclusive_def fds' by (auto split: if_splits)
  have "owned fds = owned fds' \<union> set cl"
  proof (intro equalityI subsetI)
    fix x assume "x \<in> owned fds"
    then obtain k where k: "0 \<le> x" "fds k = x" by (auto simp: owned_def)
    have "fds' (if k = j then i else k) = x \<or> k = i" using k(2) False by (auto simp: fds')
    with k cl show "x \<in> owned fds' \<union> set cl" by (auto simp: owned_def)
  next
    fix x assume "x \<in> owned fds' \<union> set cl"
    then consider k where "0 \<le> x" "fds' k = x" | "0 \<le> x" "fds i = x"
      by (auto simp: owned_def cl split: if_splits)
    then show "x \<in> owned fds" by cases (auto simp: owned_def fds' split: if_splits)
  qed
  moreover have "owned fds' \<inter> set cl = {}"
    using assms(1) False unfolding owned_def fds' cl exclusive_def by (auto split: if_splits)
  ultimately show ?thesis using ex False cl by (simp add: fds' socket_valid_def)
qed

theorem move_assign_conserves_witness:
  "owned ((\<lambda>_. - 1)(0 := 7, 1 := 9)) = owned ((\<lambda>_. - 1)(0 := 9)) \<union> {7}"
proof -
  have "exclusive ((\<lambda>_. - 1)(0 := 7, 1 := 9))" by (auto simp: exclusive_def split: if_splits)
  moreover have "move_assign ((\<lambda>_. - 1)(0 := 7, 1 := 9)) 0 1 = ((\<lambda>_. - 1)(0 := 9), [7])"
    by (auto simp: move_assign_def socket_close_def)
  ultimately show ?thesis using move_assign_conserves by fastforce
qed

end
