(* ===== verification/Strings.thy ===== *)
theory Strings
  imports Errors
begin

text \<open>
  The operations of \<open>std::string\<close> and \<open>std::string_view\<close> that the parsers use: \<open>find\<close> of a
  character and of a pattern, \<open>rfind\<close>, \<open>substr\<close>, and the checked decimal number that
  \<open>Flags::number\<close> and \<open>http::content_length\<close> both spell out. Positions are \<open>nat\<close>; \<open>npos\<close> is
  \<open>None\<close>.
\<close>

fun find_char :: "char \<Rightarrow> string \<Rightarrow> nat option" where
  "find_char c [] = None"
| "find_char c (d # s) = (if c = d then Some 0 else map_option Suc (find_char c s))"

fun rfind_char :: "char \<Rightarrow> string \<Rightarrow> nat option" where
  "rfind_char c [] = None"
| "rfind_char c (d # s) =
     (case rfind_char c s of Some i \<Rightarrow> Some (Suc i) | None \<Rightarrow> if c = d then Some 0 else None)"

fun starts_with :: "string \<Rightarrow> string \<Rightarrow> bool" where
  "starts_with s [] = True"
| "starts_with [] (p # ps) = False"
| "starts_with (c # s) (p # ps) = (c = p \<and> starts_with s ps)"

fun find_str :: "string \<Rightarrow> string \<Rightarrow> nat option" where
  "find_str pat [] = (if pat = [] then Some 0 else None)"
| "find_str pat (c # s) =
     (if starts_with (c # s) pat then Some 0 else map_option Suc (find_str pat s))"

text \<open>A text between double quotes, as the messages show it.\<close>

definition in_quotes :: "string \<Rightarrow> string" where
  "in_quotes text = CHR 0x22 # text @ [CHR 0x22]"

text \<open>The dash of the messages, in UTF-8.\<close>

definition em_dash :: string where
  "em_dash = [CHR 0xE2, CHR 0x80, CHR 0x94]"

lemma starts_with_iff: "starts_with s p \<longleftrightarrow> (\<exists>t. s = p @ t)"
  by (induction s p rule: starts_with.induct) auto

lemma starts_with_append: "starts_with s p \<Longrightarrow> starts_with (s @ t) p"
  by (auto simp: starts_with_iff)

lemma find_char_None: "find_char c s = None \<longleftrightarrow> c \<notin> set s"
  by (induction s) auto

lemma find_char_Some: "find_char c s = Some i \<Longrightarrow> i < length s \<and> s = take i s @ c # drop (Suc i) s \<and> c \<notin> set (take i s)"
  by (induction s arbitrary: i) (auto split: if_splits)

lemma find_char_append: "c \<notin> set s \<Longrightarrow> find_char c (s @ c # t) = Some (length s)"
  by (induction s) auto

lemma rfind_char_None: "rfind_char c s = None \<longleftrightarrow> c \<notin> set s"
  by (induction s) (auto split: option.splits)

lemma rfind_char_append: "c \<notin> set t \<Longrightarrow> rfind_char c (s @ c # t) = Some (length s)"
  by (induction s) (auto simp: rfind_char_None [symmetric])

lemma rfind_char_Some:
  "rfind_char c s = Some i \<Longrightarrow> i < length s \<and> s = take i s @ c # drop (Suc i) s \<and> c \<notin> set (drop (Suc i) s)"
proof (induction s arbitrary: i)
  case (Cons d s)
  then show ?case
    by (cases "rfind_char c s") (auto simp: rfind_char_None split: if_splits)
qed simp

lemma starts_with_fits: "length p \<le> length s \<Longrightarrow> starts_with (s @ t) p \<longleftrightarrow> starts_with s p"
  by (induction s p rule: starts_with.induct) auto

lemma find_str_Some:
  "find_str pat s = Some i \<Longrightarrow> i + length pat \<le> length s \<and> s = take i s @ pat @ drop (i + length pat) s"
proof (induction s arbitrary: i)
  case Nil
  then show ?case by (auto split: if_splits)
next
  case (Cons c s)
  show ?case
  proof (cases "starts_with (c # s) pat")
    case True
    then obtain t where "c # s = pat @ t" by (auto simp: starts_with_iff)
    moreover have "i = 0" using True Cons.prems by simp
    ultimately show ?thesis by simp
  next
    case False
    with Cons.prems obtain j where "find_str pat s = Some j" "i = Suc j" by auto
    with Cons.IH show ?thesis by auto
  qed
qed

lemma find_str_append:
  assumes "find_str pat s = Some i"
  shows "find_str pat (s @ t) = Some i"
  using assms
proof (induction s arbitrary: i)
  case Nil
  then show ?case by (cases t) (auto split: if_splits)
next
  case (Cons c s)
  then have "length pat \<le> length (c # s)" using find_str_Some [of pat "c # s" i] by simp
  then have "starts_with ((c # s) @ t) pat \<longleftrightarrow> starts_with (c # s) pat" by (rule starts_with_fits)
  with Cons show ?case by (auto split: if_splits)
qed

lemma find_str_front:
  "find_str pat (s @ t) = Some i \<Longrightarrow> i + length pat \<le> length s \<Longrightarrow> find_str pat s = Some i"
proof (induction s arbitrary: i)
  case Nil
  then show ?case by simp
next
  case (Cons c s)
  then have "length pat \<le> length (c # s)" by simp
  then have "starts_with ((c # s) @ t) pat \<longleftrightarrow> starts_with (c # s) pat" by (rule starts_with_fits)
  with Cons show ?case by (auto split: if_splits)
qed

lemma find_str_take:
  assumes "find_str pat s = Some i" and "k < i + length pat"
  shows "find_str pat (take k s) = None"
proof (rule ccontr)
  assume "find_str pat (take k s) \<noteq> None"
  then obtain j where j: "find_str pat (take k s) = Some j" by auto
  from find_str_append [OF j, of "drop k s"] assms(1) have "j = i" by simp
  with find_str_Some [OF j] assms(2) show False by simp
qed

subsection \<open>The checked decimal number\<close>

datatype decimal = Not_A_Digit | Too_Large | Value u64

fun parse_u64 :: "u64 \<Rightarrow> string \<Rightarrow> decimal" where
  "parse_u64 parsed [] = Value parsed"
| "parse_u64 parsed (c # s) =
     (if \<not> is_digit c then Not_A_Digit
      else if (- 1 - of_nat (digit_val c)) div 10 < parsed then Too_Large
      else parse_u64 (parsed * 10 + of_nat (digit_val c)) s)"

lemma parse_u64_step:
  assumes "d \<le> 9"
  shows "(- 1 - of_nat d) div 10 < (p :: u64) \<longleftrightarrow> 2 ^ 64 \<le> unat p * 10 + d"
    and "unat p * 10 + d < 2 ^ 64 \<Longrightarrow> unat (p * 10 + of_nat d) = unat p * 10 + d"
proof -
  have d: "unat (of_nat d :: u64) = d" using assms by (intro unat_u64_of_nat) simp
  have m: "unat (- 1 :: u64) = 2 ^ 64 - 1" by (simp add: unsigned_minus_1_eq_mask mask_eq_exp_minus_1)
  have "(of_nat d :: u64) \<le> - 1" by (rule word_order.extremum)
  then have "unat (- 1 - of_nat d :: u64) = 2 ^ 64 - 1 - d" by (simp only: unat_sub m d)
  then have "unat ((- 1 - of_nat d :: u64) div 10) = (2 ^ 64 - 1 - d) div 10"
    by (simp add: unat_div)
  moreover have "(2 ^ 64 - 1 - d) div 10 < unat p \<longleftrightarrow> 2 ^ 64 \<le> unat p * 10 + d"
    using assms by (simp add: div_less_iff_less_mult) linarith
  ultimately show "(- 1 - of_nat d) div 10 < p \<longleftrightarrow> 2 ^ 64 \<le> unat p * 10 + d"
    by (simp only: word_less_nat_alt)
  show "unat (p * 10 + of_nat d) = unat p * 10 + d" if "unat p * 10 + d < 2 ^ 64"
    using that d by (simp add: unat_word_ariths)
qed

lemma parse_u64_digits:
  assumes "\<forall>c \<in> set s. is_digit c"
  shows "parse_u64 p s =
    (if dec_value (unat p) s < 2 ^ 64 then Value (of_nat (dec_value (unat p) s)) else Too_Large)"
  using assms
proof (induction s arbitrary: p)
  case (Cons c s)
  then have c: "digit_val c \<le> 9" "is_digit c" by simp_all
  let ?q = "p * 10 + of_nat (digit_val c)"
  show ?case
  proof (cases "2 ^ 64 \<le> unat p * 10 + digit_val c")
    case True
    with c parse_u64_step(1) [OF c(1), of p] dec_value_ge [of "unat p * 10 + digit_val c" s]
    show ?thesis by simp
  next
    case False
    with c parse_u64_step [OF c(1), of p] Cons.IH [of ?q] Cons.prems show ?thesis by simp
  qed
qed simp

lemma parse_u64_not_digit:
  "\<exists>c \<in> set s. \<not> is_digit c \<Longrightarrow> parse_u64 p s = Not_A_Digit \<or> parse_u64 p s = Too_Large"
  by (induction s arbitrary: p) auto

end
