(* ===== verification/Http.thy ===== *)
theory Http
  imports Strings
begin

text \<open>
  The minimal HTTP/1.1 of \<open>src/load/http.hpp\<close> and \<open>http.cpp\<close>: \<open>build_get\<close>, \<open>status_code\<close>,
  \<open>header_value\<close> with its case-insensitive match and its trimming, and \<open>content_length\<close>.
  \<open>header_value\<close> walks the lines of the header block; the model walks the same lines on the
  suffix of the block that the code's position \<open>line_begins\<close> points at.
\<close>

definition cr :: char where
  "cr = CHR 0x0D"

definition lf :: char where
  "lf = CHR 0x0A"

definition tab :: char where
  "tab = CHR 0x09"

abbreviation crlf :: string where
  "crlf \<equiv> [cr, lf]"

definition version :: string where
  "version = ''dariyanaap 0.1.0''"

definition reject_crlf :: "string \<Rightarrow> string \<Rightarrow> unit result" where
  "reject_crlf v field =
     throw_unless (find_char cr v = None \<and> find_char lf v = None)
       (UsageError (field @ '' must not contain CR or LF''))"

definition build_get :: "string \<Rightarrow> string \<Rightarrow> string result" where
  "build_get host path =
     (if host = [] then Inl (UsageError ''HTTP host must not be empty; HTTP/1.1 requires a Host header'')
      else if path = [] \<or> hd path \<noteq> CHR ''/'' then Inl (UsageError (''HTTP path must start with '' @ [CHR 0x27, CHR ''/'', CHR 0x27] @ '', got '' @ in_quotes path))
      else and_then (reject_crlf host ''HTTP host'') (\<lambda>_. and_then (reject_crlf path ''HTTP path'') (\<lambda>_.
        Inr (''GET '' @ path @ '' HTTP/1.1'' @ crlf @
             ''Host: '' @ host @ crlf @
             ''User-Agent: '' @ version @ crlf @
             ''Accept: */*'' @ crlf @ crlf))))"

definition status_code :: "string \<Rightarrow> nat option" where
  "status_code response =
     (if length response < 12 then None
      else if \<not> starts_with response ''HTTP/1.1 '' \<and> \<not> starts_with response ''HTTP/1.0 '' then None
      else let code = take 3 (drop 9 response)
        in if \<not> list_all is_digit code then None
        else if 12 < length response \<and> is_digit (response ! 12) then None
        else Some (dec_value 0 code))"

definition lower_ascii :: "char \<Rightarrow> char" where
  "lower_ascii c =
     (if 65 \<le> (of_char c :: nat) \<and> (of_char c :: nat) \<le> 90 then char_of (of_char c + 32 :: nat) else c)"

definition equal_ignoring_case :: "string \<Rightarrow> string \<Rightarrow> bool" where
  "equal_ignoring_case a b \<longleftrightarrow>
     length a = length b \<and> list_all (\<lambda>(x, y). lower_ascii x = lower_ascii y) (zip a b)"

definition is_blank :: "char \<Rightarrow> bool" where
  "is_blank c \<longleftrightarrow> c = CHR '' '' \<or> c = tab"

definition trim :: "string \<Rightarrow> string" where
  "trim v = rev (dropWhile is_blank (rev (dropWhile is_blank v)))"

text \<open>One turn of the loop: the line the suffix starts with, and the suffix after its CRLF.\<close>

definition first_line :: "string \<Rightarrow> string \<times> string" where
  "first_line s =
     (case find_str crlf s of
        None \<Rightarrow> (s, [])
      | Some n \<Rightarrow> (take n s, drop (n + 2) s))"

lemma first_line_shrinks: "(line, rest) = first_line s \<Longrightarrow> s \<noteq> [] \<Longrightarrow> length rest < length s"
  using find_str_Some [of crlf s] by (auto simp: first_line_def split: option.splits)

function header_lines :: "string \<Rightarrow> string \<Rightarrow> string option" where
  "header_lines name s =
     (if s = [] then None
      else case first_line s of (line, rest) \<Rightarrow>
        (case find_char (CHR '':'') line of
           Some colon \<Rightarrow>
             if equal_ignoring_case (take colon line) name then Some (trim (drop (colon + 1) line))
             else header_lines name rest
         | None \<Rightarrow> header_lines name rest))"
  by pat_completeness auto
termination
  by (relation "measure (\<lambda>(name, s). length s)") (auto dest: first_line_shrinks)

declare header_lines.simps [simp del]

definition header_value :: "string \<Rightarrow> string \<Rightarrow> string option" where
  "header_value headers name =
     (case find_str crlf headers of
        None \<Rightarrow> None
      | Some n \<Rightarrow> header_lines name (drop (n + 2) headers))"

definition content_length :: "string \<Rightarrow> u64 option" where
  "content_length headers =
     (case header_value headers ''content-length'' of
        None \<Rightarrow> None
      | Some v \<Rightarrow>
          if v = [] then None
          else (case parse_u64 0 v of Value n \<Rightarrow> Some n | _ \<Rightarrow> None))"

subsection \<open>Well-formed header blocks\<close>

text \<open>The status or request line and the header lines, as a conforming peer writes them.\<close>

definition field_line :: "string \<times> string \<Rightarrow> string" where
  "field_line = (\<lambda>(n, v). n @ '':'' @ v)"

definition header_block :: "string \<Rightarrow> (string \<times> string) list \<Rightarrow> string" where
  "header_block start fields = start @ concat (map (\<lambda>f. crlf @ field_line f) fields)"

definition fields_ok :: "(string \<times> string) list \<Rightarrow> bool" where
  "fields_ok fields \<longleftrightarrow> (\<forall>(n, v) \<in> set fields. cr \<notin> set n \<and> cr \<notin> set v \<and> CHR '':'' \<notin> set n)"

lemma chars_distinct [simp]: "cr \<noteq> lf" "lf \<noteq> cr" "cr \<noteq> CHR '':''" "lf \<noteq> CHR '':''"
    "CHR '':'' \<noteq> cr" "CHR '':'' \<noteq> lf"
  by (simp_all add: cr_def lf_def)

lemma find_str_skip:
  "cr \<notin> set l \<Longrightarrow> find_str (cr # p) (l @ s) = map_option (\<lambda>i. length l + i) (find_str (cr # p) s)"
  by (induction l; cases "find_str (cr # p) s") auto

lemma find_crlf_at: "cr \<notin> set l \<Longrightarrow> find_str crlf (l @ crlf @ s) = Some (length l)"
  by (simp add: find_str_skip)

lemma find_crlf_none: "cr \<notin> set l \<Longrightarrow> find_str (cr # p) l = None"
  using find_str_skip [of l p "[]"] by simp

lemma first_line_crlf: "cr \<notin> set l \<Longrightarrow> first_line (l @ crlf @ s) = (l, s)"
  by (simp add: first_line_def find_str_skip)

lemma first_line_last: "cr \<notin> set l \<Longrightarrow> first_line l = (l, [])"
  by (simp add: first_line_def find_crlf_none)

lemma field_line_no_cr: "fields_ok (f # fs) \<Longrightarrow> cr \<notin> set (field_line f) \<and> fields_ok fs"
  by (cases f) (auto simp: fields_ok_def field_line_def)

lemma field_line_nonempty: "field_line f \<noteq> []"
  by (cases f) (simp add: field_line_def)

definition lookup_field :: "string \<Rightarrow> (string \<times> string) list \<Rightarrow> string option" where
  "lookup_field name fields =
     (case List.find (\<lambda>(n, v). equal_ignoring_case n name) fields of
        None \<Rightarrow> None | Some (n, v) \<Rightarrow> Some (trim v))"

lemma header_lines_step:
  assumes "first_line s = (n @ '':'' @ v, rest)" and "s \<noteq> []" and "CHR '':'' \<notin> set n"
  shows "header_lines name s =
    (if equal_ignoring_case n name then Some (trim v) else header_lines name rest)"
proof -
  have "find_char (CHR '':'') (n @ '':'' @ v) = Some (length n)"
    using find_char_append [OF assms(3), of v] by simp
  then show ?thesis using assms(1,2) by (simp add: header_lines.simps [of name s])
qed

lemma header_lines_fields:
  assumes "fields_ok (f # fs)"
  shows "header_lines name (field_line f @ concat (map (\<lambda>f. crlf @ field_line f) fs)) =
    lookup_field name (f # fs)"
  using assms
proof (induction fs arbitrary: f)
  case Nil
  obtain n v where f: "f = (n, v)" by fastforce
  with Nil have "header_lines name (field_line f) =
      (if equal_ignoring_case n name then Some (trim v) else header_lines name [])"
    using field_line_no_cr [OF Nil] first_line_last [of "field_line f"] field_line_nonempty [of f]
    by (intro header_lines_step) (simp_all add: field_line_def fields_ok_def)
  then show ?case by (simp add: f lookup_field_def header_lines.simps)
next
  case (Cons g fs)
  obtain n v where f: "f = (n, v)" by fastforce
  let ?rest = "field_line g @ concat (map (\<lambda>f. crlf @ field_line f) fs)"
  have ok: "cr \<notin> set (field_line f)" "fields_ok (g # fs)" using field_line_no_cr [OF Cons.prems] by blast+
  have "header_lines name (field_line f @ crlf @ ?rest) =
      (if equal_ignoring_case n name then Some (trim v) else header_lines name ?rest)"
    using first_line_crlf [OF ok(1), of ?rest] field_line_nonempty [of f] Cons.prems
    by (intro header_lines_step) (simp_all add: field_line_def fields_ok_def f)
  with Cons.IH [OF ok(2)] show ?case by (simp add: f lookup_field_def)
qed

lemma header_value_block:
  assumes "cr \<notin> set start" and "fields_ok fields"
  shows "header_value (header_block start fields) name = lookup_field name fields"
proof (cases fields)
  case Nil
  with assms(1) show ?thesis
    by (simp add: header_value_def header_block_def find_crlf_none lookup_field_def)
next
  case (Cons f fs)
  then have "find_str crlf (header_block start fields) = Some (length start)"
    using find_crlf_at [OF assms(1)] by (simp add: header_block_def)
  then have "header_value (header_block start fields) name =
      header_lines name (field_line f @ concat (map (\<lambda>f. crlf @ field_line f) fs))"
    by (simp add: header_value_def header_block_def Cons)
  also have "\<dots> = lookup_field name fields"
    unfolding Cons by (rule header_lines_fields) (use assms(2) Cons in simp)
  finally show ?thesis .
qed

text \<open>The blank line that ends the block is the first one.\<close>

abbreviation blank_line :: string where
  "blank_line \<equiv> [cr, lf, cr, lf]"

lemma find_blank_field:
  "cr \<notin> set l \<Longrightarrow> l \<noteq> [] \<Longrightarrow>
    find_str blank_line (crlf @ l @ s) = map_option (\<lambda>i. 2 + length l + i) (find_str blank_line s)"
  using find_str_skip [of l "[lf, cr, lf]" s]
  by (cases l; cases "find_str blank_line s") auto

lemma find_blank_block:
  assumes "cr \<notin> set start" and "fields_ok fields"
  shows "find_str blank_line (header_block start fields @ blank_line @ s) =
    Some (length (header_block start fields))"
proof -
  have "find_str blank_line (concat (map (\<lambda>f. crlf @ field_line f) fields) @ blank_line @ s)
      = Some (length (concat (map (\<lambda>f. crlf @ field_line f) fields)))"
    using assms(2)
  proof (induction fields)
    case (Cons f fs)
    then show ?case
      using field_line_no_cr [OF Cons.prems] field_line_nonempty [of f]
        find_blank_field [of "field_line f" "concat (map (\<lambda>f. crlf @ field_line f) fs) @ blank_line @ s"]
      by simp
  qed simp
  then show ?thesis using assms(1) by (simp add: header_block_def find_str_skip)
qed

subsection \<open>Properties\<close>

text \<open>\<open>header_value\<close> finds headers by name and only by name. In any block of a start line and
  header lines (no CR inside a line, no colon in a name), it returns the trimmed value of the
  first line whose name equals the one asked for, ignoring ASCII case, and nothing when no
  name does, whatever the values contain.\<close>

lemma header_value_finds:
  assumes "cr \<notin> set start" and "fields_ok fields"
  shows "header_value (header_block start fields) name =
    (case List.find (\<lambda>(n, v). equal_ignoring_case n name) fields of
       None \<Rightarrow> None | Some (n, v) \<Rightarrow> Some (trim v))"
  using header_value_block [OF assms] by (simp add: lookup_field_def)

lemma header_value_finds_witness:
  "header_value (header_block ''HTTP/1.1 200 OK''
      [(''X-Not-Content-Length'', '' 7''), (''Content-LENGTH'', '' 12 '')]) ''content-length'' =
    (case List.find (\<lambda>(n, v). equal_ignoring_case n ''content-length'')
       [(''X-Not-Content-Length'', '' 7''), (''Content-LENGTH'', '' 12 '')] of
       None \<Rightarrow> None | Some (n, v) \<Rightarrow> Some (trim v))"
  by (rule header_value_finds) (simp_all add: cr_def fields_ok_def)

lemma trim_no_blanks: "\<forall>c \<in> set v. \<not> is_blank c \<Longrightarrow> trim v = v"
proof -
  assume v: "\<forall>c \<in> set v. \<not> is_blank c"
  then have "dropWhile is_blank v = v" by (cases v) simp_all
  moreover have "dropWhile is_blank (rev v) = rev v" using v by (cases "rev v") (auto simp: rev_swap)
  ultimately show ?thesis by (simp add: trim_def)
qed

lemma trim_leading: "\<forall>c \<in> set b. is_blank c \<Longrightarrow> trim (b @ v) = trim v"
  by (simp add: trim_def dropWhile_append2)

lemma is_digit_not_blank: "is_digit c \<Longrightarrow> \<not> is_blank c"
  by (auto simp: is_digit_def is_blank_def tab_def)

lemma trim_number:
  "\<forall>c \<in> set b. is_blank c \<Longrightarrow> trim (b @ string_of_nat n) = string_of_nat n"
  using string_of_nat_digits [of n] is_digit_not_blank by (simp add: trim_leading trim_no_blanks)

lemma trim_padded_number:
  assumes "\<forall>c \<in> set b. is_blank c" and "\<forall>c \<in> set b'. is_blank c"
  shows "trim (b @ string_of_nat n @ b') = string_of_nat n"
proof -
  have digits: "\<forall>c \<in> set (string_of_nat n). \<not> is_blank c"
    using string_of_nat_digits [of n] is_digit_not_blank by simp
  have "dropWhile is_blank (string_of_nat n @ b') = string_of_nat n @ b'"
    using digits string_of_nat_nonempty [of n] by (cases "string_of_nat n") simp_all
  then have "trim (b @ string_of_nat n @ b') = rev (dropWhile is_blank (rev b' @ rev (string_of_nat n)))"
    using assms(1) by (simp add: trim_def dropWhile_append2)
  also have "\<dots> = rev (dropWhile is_blank (rev (string_of_nat n)))"
    by (subst dropWhile_append2) (use assms(2) in auto)
  also have "\<dots> = string_of_nat n"
    using trim_no_blanks [OF digits] dropWhile_eq_self_iff [of is_blank "rev (string_of_nat n)"] digits
      string_of_nat_nonempty [of n] by (simp add: hd_rev)
  finally show ?thesis .
qed

lemma content_length_number:
  "header_value h ''content-length'' = Some (string_of_nat n) \<Longrightarrow>
    content_length h = (if n < 2 ^ 64 then Some (of_nat n) else None)"
  using parse_u64_digits [of "string_of_nat n" 0]
  by (auto simp: content_length_def string_of_nat_digits)

text \<open>C37: A declared length is read exactly or not at all: for a block whose first content-length
  line, in any spelling of the name and with any blanks before the number, carries the decimal
  number n, \<open>content_length\<close> is n when n fits 64 bits and absent when it does not; it never
  wraps.\<close>

theorem content_length_exact:
  assumes "cr \<notin> set start" and "fields_ok fields"
    and "List.find (\<lambda>(n, v). equal_ignoring_case n ''content-length'') fields = Some (k, b @ string_of_nat n)"
    and "\<forall>c \<in> set b. is_blank c"
  shows "content_length (header_block start fields) = (if n < 2 ^ 64 then Some (of_nat n) else None)"
  using header_value_block [OF assms(1,2)] assms(3,4)
  by (intro content_length_number) (simp add: lookup_field_def trim_number)

lemma ci_content_length: "equal_ignoring_case ''CONTENT-length'' ''content-length''"
  by (simp add: equal_ignoring_case_def lower_ascii_def char_of_eq_iff)

theorem content_length_exact_witness:
  "content_length (header_block ''HTTP/1.1 200 OK'' [(''CONTENT-length'', '' '' @ string_of_nat (2 ^ 64))]) =
    (if (2 ^ 64 :: nat) < 2 ^ 64 then Some (of_nat (2 ^ 64)) else None)"
proof (rule content_length_exact)
  have "cr \<notin> set (string_of_nat (2 ^ 64))"
    using string_of_nat_digits [of "2 ^ 64"] by (auto simp: is_digit_def cr_def)
  then show "fields_ok [(''CONTENT-length'', '' '' @ string_of_nat (2 ^ 64))]"
    by (simp add: fields_ok_def cr_def)
  show "List.find (\<lambda>(n, v). equal_ignoring_case n ''content-length'')
      [(''CONTENT-length'', '' '' @ string_of_nat (2 ^ 64))] =
      Some (''CONTENT-length'', '' '' @ string_of_nat (2 ^ 64))"
    unfolding List.find.simps prod.case using ci_content_length by (simp only: if_True)
qed (simp_all add: cr_def is_blank_def)

lemma build_get_block:
  assumes "build_get host path = Inr r"
  shows "r = header_block (''GET '' @ path @ '' HTTP/1.1'')
      [(''Host'', '' '' @ host), (''User-Agent'', '' '' @ version), (''Accept'', '' */*'')] @ blank_line"
    and "cr \<notin> set path" and "cr \<notin> set host" and "lf \<notin> set path" and "lf \<notin> set host"
  using assms
  by (auto simp: build_get_def reject_crlf_def throw_unless_def header_block_def field_line_def
      and_then_Inr_iff find_char_None split: if_splits)

text \<open>What \<open>build_get\<close> sends is exactly one request: it ends at its first blank line, asks for
  the path, carries the host where a server looks for it, and offers neither a compressed nor
  a closing connection; a host or path that could break this is refused with a
  \<open>UsageError\<close>.\<close>

theorem build_get_one_request:
  "(case build_get host path of
      Inr r \<Rightarrow> (\<exists>block. r = block @ blank_line \<and> find_str blank_line r = Some (length block) \<and>
        starts_with block (''GET '' @ path @ '' HTTP/1.1'' @ crlf) \<and>
        header_value block ''host'' = Some (trim ('' '' @ host)) \<and>
        header_value block ''connection'' = None \<and> header_value block ''accept-encoding'' = None)
    | Inl e \<Rightarrow> is_UsageError e \<and>
        (host = [] \<or> path = [] \<or> hd path \<noteq> CHR ''/'' \<or> (\<exists>c \<in> {cr, lf}. c \<in> set host \<or> c \<in> set path)))"
proof (cases "build_get host path")
  case (Inl e)
  then show ?thesis
    by (auto simp: build_get_def reject_crlf_def throw_unless_def find_char_None split: if_splits)
next
  case (Inr r)
  let ?start = "''GET '' @ path @ '' HTTP/1.1''"
  let ?fields = "[(''Host'', '' '' @ host), (''User-Agent'', '' '' @ version), (''Accept'', '' */*'')]"
  note b = build_get_block [OF Inr]
  have ok: "cr \<notin> set ?start" "fields_ok ?fields"
    using b(2,3) by (simp_all add: fields_ok_def cr_def version_def)
  have "starts_with (header_block ?start ?fields) (?start @ crlf)"
    by (simp add: header_block_def starts_with_iff)
  moreover have "header_value (header_block ?start ?fields) ''host'' = Some (trim ('' '' @ host))"
    "header_value (header_block ?start ?fields) ''connection'' = None"
    "header_value (header_block ?start ?fields) ''accept-encoding'' = None"
    unfolding header_value_block [OF ok] lookup_field_def
    by (simp_all add: equal_ignoring_case_def lower_ascii_def char_of_eq_iff)
  ultimately show ?thesis
    using Inr b(1) find_blank_block [OF ok, of "[]"] by auto
qed

theorem build_get_one_request_witness:
  "\<exists>r block. build_get ''localhost'' ''/'' = Inr r \<and> r = block @ blank_line \<and>
    find_str blank_line r = Some (length block) \<and> header_value block ''host'' = Some (trim '' localhost'')"
proof -
  have "\<exists>r. build_get ''localhost'' ''/'' = Inr r"
    by (simp add: build_get_def reject_crlf_def cr_def lf_def)
  with build_get_one_request [of "''localhost''" "''/''"] show ?thesis by auto
qed

lemma digit_chars:
  "digit_char 0 = CHR ''0''" "digit_char (Suc 0) = CHR ''1''" "digit_char 1 = CHR ''1''"
  "digit_char 2 = CHR ''2''" "digit_char 5 = CHR ''5''"
  by (simp_all add: digit_char_def char_of_eq_iff)

end
