(* ===== verification/Protocol.thy ===== *)
theory Protocol
  imports Http
begin

text \<open>
  The protocol interface and its two implementations: \<open>src/load/protocol.hpp\<close>,
  \<open>raw_echo.hpp\<close>, \<open>raw_echo.cpp\<close>, \<open>http11_get.hpp\<close> and \<open>http11_get.cpp\<close>. The three virtual methods are the fields
  of the record \<open>protocol\<close>, so that the exchange and the worker can be stated for any protocol.
  The contract an implementation must keep is the locale \<open>framing\<close>; both implementations
  are interpretations of it. \<open>size_t\<close> arithmetic on the declared length wraps.
\<close>

datatype response_state = NeedMore | Complete | Malformed

record protocol =
  p_request :: string
  p_consume :: "string \<Rightarrow> response_state"
  p_succeeded :: "string \<Rightarrow> bool result"

text \<open>What an exchange relies on: nothing received is not a response, and one response is
  exactly one: no byte may follow it.\<close>

locale framing =
  fixes consume :: "string \<Rightarrow> response_state"
  assumes needs_bytes: "consume [] = NeedMore"
    and one_response: "consume r = Complete \<Longrightarrow> s \<noteq> [] \<Longrightarrow> length (r @ s) < 2 ^ 64 \<Longrightarrow>
      consume (r @ s) = Malformed"
begin

lemma complete_nonempty: "consume r = Complete \<Longrightarrow> r \<noteq> []"
  using needs_bytes by auto

text \<open>On one stream of bytes there is at most one complete response, so the reader cannot
  disagree with itself about where the response ended.\<close>

lemma complete_unique:
  assumes "consume r = Complete" and "consume r' = Complete"
    and "r @ s = r' @ s'" and "length (r @ s) < 2 ^ 64"
  shows "r = r'"
proof -
  from assms(3) obtain t where "r = r' @ t \<or> r' = r @ t" by (auto simp: append_eq_append_conv2)
  moreover have "t = []" if "x = y @ t" "consume x = Complete" "consume y = Complete" "length x < 2 ^ 64" for x y
    using one_response [OF that(3), of t] that by auto
  moreover have "length r < 2 ^ 64" "length r' < 2 ^ 64"
    using assms(3,4) by (auto dest: arg_cong [of _ _ length])
  ultimately show ?thesis using assms(1,2) by (metis append.right_neutral)
qed

lemma no_two_responses:
  assumes "consume r = Complete" and "consume r' = Complete" and "length (r @ r') < 2 ^ 64"
  shows "consume (r @ r') = Malformed"
  using one_response [OF assms(1)] complete_nonempty [OF assms(2)] assms(3) by simp

end

subsection \<open>Raw echo\<close>

definition raw_payload :: "nat \<Rightarrow> string" where
  "raw_payload n = map (\<lambda>i. char_of (97 + i mod 26)) [0..<n]"

definition make_raw_echo :: "nat \<Rightarrow> string result" where
  "make_raw_echo n =
     (if n = 0 then Inl (UsageError ''raw echo payload size must be at least 1 byte'')
      else Inr (raw_payload n))"

definition raw_consume :: "string \<Rightarrow> string \<Rightarrow> response_state" where
  "raw_consume payload response =
     (if length response < length payload then NeedMore
      else if length response = length payload then Complete
      else Malformed)"

definition raw_succeeded :: "string \<Rightarrow> string \<Rightarrow> bool result" where
  "raw_succeeded payload response =
     (if raw_consume payload response \<noteq> Complete
      then Inl (Assertion ''succeeded() asked about a response that is not complete'')
      else Inr True)"

definition raw_echo :: "string \<Rightarrow> protocol" where
  "raw_echo payload =
     \<lparr>p_request = payload, p_consume = raw_consume payload, p_succeeded = raw_succeeded payload\<rparr>"

lemma length_raw_payload [simp]: "length (raw_payload n) = n"
  by (simp add: raw_payload_def)

interpretation raw: framing "raw_consume (raw_payload (Suc n))" for n
  by unfold_locales (auto simp: raw_consume_def split: if_splits)

subsection \<open>HTTP/1.1 GET\<close>

definition carries_no_body :: "nat \<Rightarrow> bool" where
  "carries_no_body status \<longleftrightarrow> status = 204 \<or> status = 304 \<or> (100 \<le> status \<and> status < 200)"

definition kMaxHeaderBytes :: nat where
  "kMaxHeaderBytes = 64 * 1024"

definition http_consume :: "string \<Rightarrow> response_state" where
  "http_consume response =
     (case find_str blank_line response of
        None \<Rightarrow> if kMaxHeaderBytes < length response then Malformed else NeedMore
      | Some blank \<Rightarrow>
          let headers = take blank response; body_begins = blank + 4
          in if header_value headers ''transfer-encoding'' \<noteq> None then Malformed
          else (case content_length headers of
              None \<Rightarrow>
                (case status_code response of
                   Some status \<Rightarrow>
                     if carries_no_body status
                     then (if length response = body_begins then Complete else Malformed)
                     else Malformed
                 | None \<Rightarrow> Malformed)
            | Some declared \<Rightarrow>
                let total = unat (of_nat body_begins + declared)
                in if length response < total then NeedMore
                   else if length response = total then Complete
                   else Malformed))"

definition http_succeeded :: "string \<Rightarrow> bool result" where
  "http_succeeded response =
     (if http_consume response \<noteq> Complete
      then Inl (Assertion ''succeeded() asked about a response that is not complete'')
      else Inr (case status_code response of
          None \<Rightarrow> False | Some status \<Rightarrow> 200 \<le> status \<and> status < 300))"

definition make_http11_get :: "string \<Rightarrow> string \<Rightarrow> protocol result" where
  "make_http11_get host path =
     and_then (build_get host path) (\<lambda>r.
       Inr \<lparr>p_request = r, p_consume = http_consume, p_succeeded = http_succeeded\<rparr>)"

lemma find_blank_prefix:
  assumes "find_str blank_line r = Some b"
  shows "find_str blank_line (r @ s) = Some b" "take b (r @ s) = take b r" "b + 4 \<le> length r"
  using find_str_append [OF assms] find_str_Some [OF assms] by simp_all

interpretation http: framing http_consume
proof unfold_locales
  show "http_consume [] = NeedMore" by (simp add: http_consume_def kMaxHeaderBytes_def)
next
  fix r s :: string
  assume complete: "http_consume r = Complete" and s: "s \<noteq> []"
  then obtain b where b: "find_str blank_line r = Some b"
    by (auto simp: http_consume_def split: option.splits if_splits)
  note p = find_blank_prefix(1,2) [OF b, of s] find_blank_prefix(3) [OF b]
  show "http_consume (r @ s) = Malformed"
    using complete s b p
    by (auto simp: http_consume_def Let_def split: option.splits if_splits)
qed

subsection \<open>Properties\<close>

lemma http_consume_before_blank:
  assumes "find_str blank_line s = Some b" and "k < b + 4" and "b + 3 \<le> kMaxHeaderBytes"
  shows "http_consume (take k s) = NeedMore"
  using find_str_take [OF assms(1), of k] assms(2,3) by (simp add: http_consume_def)

lemma http_consume_after_blank:
  assumes "cr \<notin> set start" and "fields_ok hs"
    and "lookup_field ''transfer-encoding'' hs = None"
    and "content_length (header_block start hs) = Some (of_nat n)"
    and "length (header_block start hs) + 4 + n < 2 ^ 64"
  shows "http_consume (header_block start hs @ blank_line @ s) =
    (if length s < n then NeedMore else if length s = n then Complete else Malformed)"
proof -
  let ?h = "header_block start hs"
  have "unat (of_nat (length ?h + 4) + of_nat n :: u64) = length ?h + 4 + n"
    using unat_u64_of_nat [OF assms(5)] by (simp only: of_nat_add)
  then show ?thesis
    using find_blank_block [OF assms(1,2), of s] header_value_block [OF assms(1,2)] assms(3,4)
    by (simp add: http_consume_def Let_def)
qed

text \<open>C10: HTTP framing is exact, read by read. Take a response whose header block declares a length n
  (any spelling of the name, any blanks before and after the number, no transfer-encoding), with a body of n bytes, followed by anything:
  of the bytes received so far, \<open>consume\<close> says NeedMore on every prefix that is shorter than
  the response, Complete on the response itself, and Malformed on every longer one, as long as
  the header block fits in the 64 KiB allowed.\<close>

theorem http_framing:
  assumes "cr \<notin> set start" and "fields_ok hs"
    and "List.find (\<lambda>(n, v). equal_ignoring_case n ''transfer-encoding'') hs = None"
    and "List.find (\<lambda>(n, v). equal_ignoring_case n ''content-length'') hs
      = Some (k, b @ string_of_nat (length body) @ b')"
    and "\<forall>c \<in> set b. is_blank c" and "\<forall>c \<in> set b'. is_blank c"
    and "length (header_block start hs) + 3 \<le> kMaxHeaderBytes" and "length body < 2 ^ 63"
    and "stream = header_block start hs @ blank_line @ body @ others"
    and "m \<le> length stream"
  defines "whole \<equiv> length (header_block start hs) + 4 + length body"
  shows "http_consume (take m stream) =
    (if m < whole then NeedMore else if m = whole then Complete else Malformed)"
proof -
  let ?h = "header_block start hs"
  have find: "find_str blank_line stream = Some (length ?h)"
    using find_blank_block [OF assms(1,2), of "body @ others"] by (simp add: assms(9))
  show ?thesis
  proof (cases "m < length ?h + 4")
    case True
    with http_consume_before_blank [OF find True assms(7)] show ?thesis by (simp add: whole_def)
  next
    case False
    let ?s = "take (m - (length ?h + 4)) (body @ others)"
    have te: "lookup_field ''transfer-encoding'' hs = None"
      using assms(3) by (simp add: lookup_field_def)
    have "lookup_field ''content-length'' hs = Some (trim (b @ string_of_nat (length body) @ b'))"
      unfolding lookup_field_def assms(4) by simp
    then have "header_value ?h ''content-length'' = Some (string_of_nat (length body))"
      using header_value_block [OF assms(1,2)] by (simp add: trim_padded_number [OF assms(5,6)])
    then have cl: "content_length ?h = Some (of_nat (length body))"
      using content_length_number assms(8) by simp
    have "length ?h + 4 + length body < 2 ^ 64" using assms(7,8) by (simp add: kMaxHeaderBytes_def)
    note consume = http_consume_after_blank [OF assms(1,2) te cl this, of ?s]
    have "take m stream = ?h @ blank_line @ ?s"
    proof -
      have "take m ((?h @ blank_line) @ (body @ others)) =
          (?h @ blank_line) @ take (m - length (?h @ blank_line)) (body @ others)"
        unfolding take_append [of m "?h @ blank_line"] using False by (intro arg_cong2 [where f = append] take_all refl) simp
      then show ?thesis by (simp add: assms(9) eval_nat_numeral)
    qed
    moreover have "length ?s = m - (length ?h + 4)" using assms(9,10) by simp
    ultimately show ?thesis using consume False by (auto simp: whole_def)
  qed
qed

lemma busy_fields:
  "List.find (\<lambda>(n, v). equal_ignoring_case n ''transfer-encoding'')
     [(''Content-Length'', '' '' @ string_of_nat (length ''x'') @ '' '')] = None"
  "List.find (\<lambda>(n, v). equal_ignoring_case n ''content-length'')
     [(''Content-Length'', '' '' @ string_of_nat (length ''x'') @ '' '')]
     = Some (''Content-Length'', '' '' @ string_of_nat (length ''x'') @ '' '')"
  by (simp_all add: equal_ignoring_case_def lower_ascii_def char_of_eq_iff)

theorem http_framing_witness:
  "http_consume (take 46 (header_block ''HTTP/1.1 503 Busy''
      [(''Content-Length'', '' '' @ string_of_nat (length ''x'') @ '' '')] @ blank_line @ ''x'' @ ''HTTP'')) =
   (if 46 < length (header_block ''HTTP/1.1 503 Busy''
      [(''Content-Length'', '' '' @ string_of_nat (length ''x'') @ '' '')]) + 4 + length ''x'' then NeedMore
    else if 46 = length (header_block ''HTTP/1.1 503 Busy''
      [(''Content-Length'', '' '' @ string_of_nat (length ''x'') @ '' '')]) + 4 + length ''x'' then Complete
    else Malformed)"
proof (rule http_framing)
  show "fields_ok [(''Content-Length'', '' '' @ string_of_nat (length ''x'') @ '' '')]"
    by (simp add: fields_ok_def cr_def string_of_nat.simps digit_chars)
qed (simp_all only: busy_fields refl,
     simp_all add: cr_def is_blank_def header_block_def field_line_def kMaxHeaderBytes_def string_of_nat.simps)

text \<open>A status that carries no body is complete at the end of its headers: for a block with no
  content-length and no transfer-encoding whose status line is 1xx, 204 or 304, the blank line
  completes the response and any byte after it makes it Malformed; for every other status
  the response cannot be framed and is Malformed.\<close>

theorem http_no_body:
  assumes "cr \<notin> set start" and "fields_ok hs"
    and "List.find (\<lambda>(n, v). equal_ignoring_case n ''transfer-encoding'') hs = None"
    and "List.find (\<lambda>(n, v). equal_ignoring_case n ''content-length'') hs = None"
  defines "block \<equiv> header_block start hs"
  shows "http_consume (block @ blank_line @ s) =
    (case status_code (block @ blank_line @ s) of
       Some status \<Rightarrow> if carries_no_body status \<and> s = [] then Complete else Malformed
     | None \<Rightarrow> Malformed)"
proof -
  have "content_length block = None" "header_value block ''transfer-encoding'' = None"
    using header_value_block [OF assms(1,2)] assms(3,4)
    by (simp_all add: content_length_def block_def lookup_field_def)
  then show ?thesis
    using find_blank_block [OF assms(1,2), of s]
    by (auto simp: http_consume_def Let_def block_def split: option.split)
qed

theorem http_no_body_witness:
  "http_consume (header_block ''HTTP/1.1 204 No Content'' [(''Server'', ''x'')] @ blank_line @ []) =
    (case status_code (header_block ''HTTP/1.1 204 No Content'' [(''Server'', ''x'')] @ blank_line @ []) of
       Some status \<Rightarrow> if carries_no_body status \<and> [] = ([] :: string) then Complete else Malformed
     | None \<Rightarrow> Malformed)"
  by (rule http_no_body)
    (simp_all add: cr_def fields_ok_def equal_ignoring_case_def lower_ascii_def char_of_eq_iff)

text \<open>On the stream of one connection no two different prefixes are both a complete response, so
  no reply can be timed against another request's boundary (the contract of the exchange, for
  HTTP).\<close>

lemma http_complete_unique:
  assumes "http_consume r = Complete" and "http_consume r' = Complete"
    and "r @ s = r' @ s'" and "length (r @ s) < 2 ^ 64"
  shows "r = r'"
  using assms by (rule http.complete_unique)

text \<open>A complete response, evaluated.\<close>

lemma busy_response:
  "http_consume (''HTTP/1.1 204 x'' @ blank_line) = Complete"
  by (simp add: http_consume_def cr_def lf_def header_value_def content_length_def status_code_def
      is_digit_def digit_val_def carries_no_body_def)

lemma http_complete_unique_witness: "''HTTP/1.1 204 x'' @ blank_line = ''HTTP/1.1 204 x'' @ blank_line"
  by (rule http_complete_unique [OF busy_response busy_response, of "''a''" "''a''"]) simp_all

text \<open>A 304 with a Content-Length is never complete at the end of its headers, though 304 is in
  the list of statuses that carry no body (a 304 may state the length of the body it leaves out):
  the exchange waits for bytes that do not come.\<close>

theorem not_modified_with_length_waits:
  "carries_no_body 304 \<and>
   status_code (''HTTP/1.1 304 x'' @ crlf @ ''Content-Length: 5'' @ blank_line) = Some 304 \<and>
   http_consume (''HTTP/1.1 304 x'' @ crlf @ ''Content-Length: 5'' @ blank_line) = NeedMore"
proof -
  let ?h = "header_block ''HTTP/1.1 304 x'' [(''Content-Length'', '' '' @ string_of_nat 5)]"
  have eq: "''HTTP/1.1 304 x'' @ crlf @ ''Content-Length: 5'' @ blank_line = ?h @ blank_line @ []"
    by (simp add: header_block_def field_line_def string_of_nat.simps digit_chars)
  have ok: "cr \<notin> set ''HTTP/1.1 304 x''" "fields_ok [(''Content-Length'', '' '' @ string_of_nat 5)]"
    by (simp_all add: fields_ok_def cr_def string_of_nat.simps digit_chars)
  have te: "lookup_field ''transfer-encoding'' [(''Content-Length'', '' '' @ string_of_nat 5)] = None"
    by (simp add: lookup_field_def equal_ignoring_case_def)
  have "trim ('' '' @ string_of_nat 5) = string_of_nat 5"
    by (rule trim_number) (simp add: is_blank_def)
  then have "header_value ?h ''content-length'' = Some (string_of_nat 5)"
    unfolding header_value_block [OF ok] lookup_field_def
    by (simp add: equal_ignoring_case_def lower_ascii_def char_of_eq_iff)
  from content_length_number [OF this] have "content_length ?h = Some (of_nat 5)" by simp
  from http_consume_after_blank [OF ok te this, of "[]"]
  have "http_consume (?h @ blank_line @ []) = NeedMore"
    by (simp add: header_block_def field_line_def string_of_nat.simps)
  moreover have "status_code (''HTTP/1.1 304 x'' @ crlf @ ''Content-Length: 5'' @ blank_line) = Some 304"
    by (simp add: status_code_def is_digit_def digit_val_def)
  ultimately show ?thesis by (simp only: eq) (simp add: carries_no_body_def)
qed

end
