(* ===== verification/Exchange.thy ===== *)
theory Exchange
  imports Socket Protocol
begin

text \<open>
  One request and its reply, \<open>src/load/exchange.hpp\<close> and \<open>exchange.cpp\<close>: \<open>perform_request\<close> over the
  world of \<open>Effects\<close>, for any protocol. It returns the \<open>Exchange\<close> and the contents of the buffer
  \<open>received\<close>. The exceptions of the two calls are reified by \<open>attempt_io\<close>, which catches what
  \<open>catch (const IoError&)\<close> catches.
\<close>

datatype outcome = Succeeded | Rejected | Timed_Out | Protocol_Error | Read_Failed | Write_Failed

record exchange =
  x_outcome :: outcome
  x_elapsed :: nanos
  x_usable :: bool

definition fresh_exchange :: exchange where
  "fresh_exchange = \<lparr>x_outcome = Write_Failed, x_elapsed = 0, x_usable = False\<rparr>"

definition attempt_io :: "('addr, 'a) op \<Rightarrow> ('addr, error + 'a) op" where
  "attempt_io m =
     catching is_IoError (op_then m (\<lambda>x. return_op (Inr x))) (\<lambda>e. return_op (Inl e))"

definition exchange_turn ::
  "protocol \<Rightarrow> nat \<Rightarrow> instant \<Rightarrow> string \<Rightarrow> ('addr, (string, exchange \<times> string) turn) op" where
  "exchange_turn protocol room sent received =
     op_then (attempt_io (read_some room)) (\<lambda>r. case r of
         Inl e \<Rightarrow>
           if is_TimedOut e then
             op_then (elapsed_since sent) (\<lambda>d. return_op (Exit
               (fresh_exchange\<lparr>x_outcome := Timed_Out, x_elapsed := d\<rparr>, received)))
           else return_op (Exit (fresh_exchange\<lparr>x_outcome := Read_Failed\<rparr>, received))
       | Inr got \<Rightarrow>
           if got = [] then return_op (Exit (fresh_exchange\<lparr>x_outcome := Read_Failed\<rparr>, received))
           else
             (let received = received @ got in
              case p_consume protocol received of
                NeedMore \<Rightarrow> return_op (Again received)
              | Malformed \<Rightarrow>
                  return_op (Exit (fresh_exchange\<lparr>x_outcome := Protocol_Error\<rparr>, received))
              | Complete \<Rightarrow>
                  op_then (elapsed_since sent) (\<lambda>d.
                  op_then (lift (p_succeeded protocol received)) (\<lambda>yes. return_op (Exit
                    (\<lparr>x_outcome = (if yes then Succeeded else Rejected), x_elapsed = d,
                      x_usable = True\<rparr>, received))))))"

definition perform_request :: "protocol \<Rightarrow> nat \<Rightarrow> ('addr, exchange \<times> string) op" where
  "perform_request protocol room =
     op_then read_clock (\<lambda>sent.
     op_then (attempt_io (write_all (p_request protocol))) (\<lambda>written. case written of
         Inl e \<Rightarrow>
           if is_TimedOut e then
             op_then (elapsed_since sent) (\<lambda>d. return_op
               (fresh_exchange\<lparr>x_outcome := Timed_Out, x_elapsed := d\<rparr>, []))
           else return_op (fresh_exchange\<lparr>x_outcome := Write_Failed\<rparr>, [])
       | Inr _ \<Rightarrow> iterate (exchange_turn protocol room sent) []))"

subsection \<open>What the caller of a protocol may rely on\<close>

text \<open>A protocol object that keeps the framing contract and answers \<open>succeeded\<close> for every complete
  response.\<close>

definition protocol_ok :: "protocol \<Rightarrow> bool" where
  "protocol_ok p \<longleftrightarrow> framing (p_consume p) \<and>
     (\<forall>r. p_consume p r = Complete \<longrightarrow> (\<exists>yes. p_succeeded p r = Inr yes))"

lemma raw_echo_ok: "make_raw_echo n = Inr payload \<Longrightarrow> protocol_ok (raw_echo payload)"
  using raw.framing_axioms [of "n - 1"]
  by (auto simp: make_raw_echo_def protocol_ok_def raw_echo_def raw_succeeded_def split: if_splits)

lemma http11_get_ok: "make_http11_get host path = Inr p \<Longrightarrow> protocol_ok p"
  using http.framing_axioms
  by (auto simp: make_http11_get_def protocol_ok_def http_succeeded_def and_then_Inr_iff)

subsection \<open>Progress\<close>

lemma well_behaved_attempt [behaved]: "well_behaved m \<Longrightarrow> well_behaved (attempt_io m)"
  unfolding attempt_io_def by (intro behaved)

lemma well_behaved_exchange_turn [behaved]: "well_behaved (exchange_turn p room sent s)"
  unfolding exchange_turn_def Let_def
  by (intro behaved) (auto intro!: behaved split: sum.split response_state.split)

lemma well_behaved_perform [behaved]: "well_behaved (perform_request p room)"
  unfolding perform_request_def by (intro behaved) (auto intro!: behaved split: sum.split)

lemma attempt_io_cases:
  assumes "attempt_io m w = (r, w')"
  obtains x where "m w = (Inr x, w')" and "r = Inr (Inr x)"
  | e where "m w = (Inl e, w')" and "is_IoError e" and "r = Inr (Inl e)"
  | e where "m w = (Inl e, w')" and "\<not> is_IoError e" and "r = Inl e"
  using assms
  by (auto simp: attempt_io_def catching_def op_then_def return_op_def split: prod.splits sum.splits if_splits)

lemma read_some_shrinks:
  assumes "read_some room w = (Inr d, w')"
  shows "length (w_kernel w') < length (w_kernel w)"
proof (cases "room = 0")
  case False
  with assms obtain n data rest where
    d: "dropWhile (\<lambda>r. r = Fail EINTR) (w_kernel w) = Done n data # rest" "w' = w\<lparr>w_kernel := rest\<rparr>"
    by (auto simp: read_first_answer split: list.splits sysret.splits)
  then show ?thesis
    using length_dropWhile_le [of "\<lambda>r. r = Fail EINTR" "w_kernel w"] by simp
qed (use assms in \<open>simp add: read_some_def throw_def\<close>)

lemma consumes_exchange: "consumes (exchange_turn p room sent)"
  unfolding consumes_def
proof (intro allI impI)
  fix s w s' w' assume "exchange_turn p room sent s w = (Inr (Again s'), w')"
  then obtain a v where a: "attempt_io (read_some room) w = (Inr a, v)" and
    rest: "(case a of
         Inl e \<Rightarrow>
           if is_TimedOut e then
             op_then (elapsed_since sent) (\<lambda>d. return_op (Exit
               (fresh_exchange\<lparr>x_outcome := Timed_Out, x_elapsed := d\<rparr>, s)))
           else return_op (Exit (fresh_exchange\<lparr>x_outcome := Read_Failed\<rparr>, s))
       | Inr got \<Rightarrow>
           if got = [] then return_op (Exit (fresh_exchange\<lparr>x_outcome := Read_Failed\<rparr>, s))
           else
             (let received = s @ got in
              case p_consume p received of
                NeedMore \<Rightarrow> return_op (Again received)
              | Malformed \<Rightarrow>
                  return_op (Exit (fresh_exchange\<lparr>x_outcome := Protocol_Error\<rparr>, received))
              | Complete \<Rightarrow>
                  op_then (elapsed_since sent) (\<lambda>d.
                  op_then (lift (p_succeeded p received)) (\<lambda>yes. return_op (Exit
                    (\<lparr>x_outcome = (if yes then Succeeded else Rejected), x_elapsed = d,
                      x_usable = True\<rparr>, received)))))) v = (Inr (Again s'), w')"
    unfolding exchange_turn_def by (rule op_then_InrE)
  from rest obtain got where "a = Inr got" "w' = v"
    by (auto simp: Let_def return_op_def elim!: op_then_InrE split: sum.splits if_splits response_state.splits)
  with a show "length (w_kernel w') < length (w_kernel w)"
    by (auto elim!: attempt_io_cases intro: read_some_shrinks)
qed

subsection \<open>Soundness\<close>

lemma elapsed_since_ok:
  assumes "clock_ok (w_clock v)" and "t = w_clock v i" and "i \<le> w_reads v"
  shows "elapsed_since t v =
    (Inr (w_clock v (w_reads v) - t), v\<lparr>w_reads := Suc (w_reads v)\<rparr>) \<and> 0 \<le> w_clock v (w_reads v) - t"
  using between_clock [OF assms(1), of i "w_reads v"] clock_ok_mono [OF assms(1,3)]
  by (simp add: elapsed_since_def op_then_def op_simps assms(2))

text \<open>What an exchange may report, given the bytes it received.\<close>

definition exchange_sound :: "protocol \<Rightarrow> exchange \<Rightarrow> string \<Rightarrow> bool" where
  "exchange_sound p x received \<longleftrightarrow>
     0 \<le> x_elapsed x \<and>
     (x_usable x \<longleftrightarrow> x_outcome x = Succeeded \<or> x_outcome x = Rejected) \<and>
     (x_usable x \<longrightarrow> p_consume p received = Complete \<and>
        p_succeeded p received = Inr (x_outcome x = Succeeded))"

lemma read_some_errors: "0 < room \<Longrightarrow> read_some room w = (Inl e, w') \<Longrightarrow> e = Blocked \<or> is_IoError e"
  by (auto simp: read_first_answer split: list.splits sysret.splits if_splits)

lemma write_all_errors: "write_all data w = (Inl e, w') \<Longrightarrow> e = Blocked \<or> is_IoError e"
  using write_all_pieces [of data w "Inl e" w'] by auto

text \<open>The clock of the world, and how far it has been read.\<close>

definition running :: "'addr world \<Rightarrow> nat \<Rightarrow> 'addr world \<Rightarrow> bool" where
  "running w i v \<longleftrightarrow> w_clock v = w_clock w \<and> i < w_reads v"

lemma running_follows: "running w i v \<Longrightarrow> follows v v' \<Longrightarrow> running w i v'"
  by (auto simp: running_def follows_def)

lemma timed_out_exit:
  assumes "clock_ok (w_clock w)" and "running w i v"
    and "op_then (elapsed_since (w_clock w i)) (\<lambda>d. return_op (f d)) v = (r, v')"
  shows "\<exists>d \<ge> 0. r = Inr (f d)"
proof (intro exI conjI)
  have e: "elapsed_since (w_clock w i) v = (Inr (w_clock v (w_reads v) - w_clock w i),
      v\<lparr>w_reads := Suc (w_reads v)\<rparr>) \<and> 0 \<le> w_clock v (w_reads v) - w_clock w i"
    using assms(1,2) by (intro elapsed_since_ok) (auto simp: running_def)
  then show "0 \<le> w_clock v (w_reads v) - w_clock w i" by blast
  show "r = Inr (f (w_clock v (w_reads v) - w_clock w i))"
    using e assms(3) by (simp add: op_then_def return_op_def)
qed

lemma exchange_turn_sound:
  assumes clock: "clock_ok (w_clock w)" and run: "running w i v" and room: "0 < room"
    and p: "protocol_ok p" and turn: "exchange_turn p room (w_clock w i) received v = (r, v')"
  shows "case r of
      Inl e \<Rightarrow> e = Blocked
    | Inr (Again received') \<Rightarrow> True
    | Inr (Exit (x, received')) \<Rightarrow> exchange_sound p x received'"
proof -
  obtain a u where a: "attempt_io (read_some room) v = (a, u)" by fastforce
  have "follows v u"
    by (rule well_behavedD [of "attempt_io (read_some room)"]) (intro behaved, rule a)
  with run have run': "running w i u" by (rule running_follows)
  from a show ?thesis
  proof (cases rule: attempt_io_cases)
    case (3 e)
    then have "e = Blocked" using read_some_errors [OF room] by blast
    with 3 a turn show ?thesis by (auto simp: exchange_turn_def op_then_def)
  next
    case (2 e)
    show ?thesis
    proof (cases "is_TimedOut e")
      case True
      with turn 2 a have "op_then (elapsed_since (w_clock w i)) (\<lambda>d. return_op (Exit
          (fresh_exchange\<lparr>x_outcome := Timed_Out, x_elapsed := d\<rparr>, received))) u = (r, v')"
        unfolding exchange_turn_def op_then_def [of "attempt_io _"] by simp
      from timed_out_exit [OF clock run' this] show ?thesis
        by (auto simp: exchange_sound_def fresh_exchange_def)
    next
      case False
      with turn 2 a show ?thesis
        by (auto simp: exchange_turn_def op_then_def return_op_def exchange_sound_def fresh_exchange_def)
    qed
  next
    case (1 got)
    show ?thesis
    proof (cases "got \<noteq> [] \<and> p_consume p (received @ got) = Complete")
      case True
      then obtain yes where yes: "p_succeeded p (received @ got) = Inr yes"
        using p by (auto simp: protocol_ok_def)
      from True yes turn 1 a elapsed_since_ok [of u "w_clock w i" i] clock run'
      show ?thesis
        by (auto simp: exchange_turn_def op_then_def op_simps exchange_sound_def running_def Let_def)
    next
      case False
      with turn 1 a show ?thesis
        by (cases "p_consume p (received @ got)")
          (auto simp: exchange_turn_def op_then_def return_op_def exchange_sound_def fresh_exchange_def
            Let_def split: if_splits)
    qed
  qed
qed

lemma exchange_loop_sound:
  assumes clock: "clock_ok (w_clock w)" and run: "running w i v" and room: "0 < room"
    and p: "protocol_ok p" and loop: "iterate (exchange_turn p room (w_clock w i)) received v = (r, v')"
  shows "case r of Inl e \<Rightarrow> e = Blocked | Inr (x, received') \<Rightarrow> exchange_sound p x received'"
proof (rule iterate_rule [OF loop consumes_exchange, where I = "\<lambda>_ u. running w i u"
      and Q = "\<lambda>r _. case r of Inl e \<Rightarrow> e = Blocked | Inr (x, received') \<Rightarrow> exchange_sound p x received'"])
  show "running w i v" by (rule run)
  show "running w i u'" if "running w i u" "exchange_turn p room (w_clock w i) s u = (Inr (Again s'), u')" for s u s' u'
    using that(1) well_behavedD [OF well_behaved_exchange_turn that(2)] by (rule running_follows)
  show "case Inr x of Inl e \<Rightarrow> e = Blocked | Inr (x, received') \<Rightarrow> exchange_sound p x received'"
    if "running w i u" "exchange_turn p room (w_clock w i) s u = (Inr (Exit x), u')" for s u x u'
    using exchange_turn_sound [OF clock that(1) room p that(2)] by (cases x) simp
  show "case Inl e of Inl e \<Rightarrow> e = Blocked | Inr (x, received') \<Rightarrow> exchange_sound p x received'"
    if "running w i u" "exchange_turn p room (w_clock w i) s u = (Inl e, u')" for s u e u'
    using exchange_turn_sound [OF clock that(1) room p that(2)] by simp
qed

lemma perform_request_sound:
  assumes clock: "clock_ok (w_clock w)" and room: "0 < room" and p: "protocol_ok p"
    and "perform_request p room w = (r, w')"
  shows "case r of Inl e \<Rightarrow> e = Blocked | Inr (x, received) \<Rightarrow> exchange_sound p x received"
proof -
  let ?i = "w_reads w"
  let ?v = "w\<lparr>w_reads := Suc ?i\<rparr>"
  obtain a u where a: "attempt_io (write_all (p_request p)) ?v = (a, u)" by fastforce
  have "follows ?v u"
    by (rule well_behavedD [of "attempt_io (write_all (p_request p))"]) (intro behaved, rule a)
  moreover have "running w ?i ?v" by (simp add: running_def)
  ultimately have run: "running w ?i u" by (rule running_follows [rotated])
  have rest: "(case a of Inl e \<Rightarrow> (Inl e, u) | Inr written \<Rightarrow> (case written of
         Inl e \<Rightarrow>
           if is_TimedOut e then
             op_then (elapsed_since (w_clock w ?i)) (\<lambda>d. return_op
               (fresh_exchange\<lparr>x_outcome := Timed_Out, x_elapsed := d\<rparr>, []))
           else return_op (fresh_exchange\<lparr>x_outcome := Write_Failed\<rparr>, [])
       | Inr _ \<Rightarrow> iterate (exchange_turn p room (w_clock w ?i)) []) u) = (r, w')"
    using assms(4) a by (simp add: perform_request_def op_then_def op_simps)
  from a show ?thesis
  proof (cases rule: attempt_io_cases)
    case (3 e)
    with rest write_all_errors [OF 3(1)] show ?thesis by auto
  next
    case (2 e)
    show ?thesis
    proof (cases "is_TimedOut e")
      case True
      with rest 2 have "op_then (elapsed_since (w_clock w ?i)) (\<lambda>d. return_op
          (fresh_exchange\<lparr>x_outcome := Timed_Out, x_elapsed := d\<rparr>, [])) u = (r, w')" by simp
      from timed_out_exit [OF clock run this] show ?thesis
        by (auto simp: exchange_sound_def fresh_exchange_def)
    next
      case False
      with rest 2 show ?thesis
        by (auto simp: return_op_def exchange_sound_def fresh_exchange_def)
    qed
  next
    case (1 x)
    with rest have "iterate (exchange_turn p room (w_clock w ?i)) [] u = (r, w')" by simp
    from exchange_loop_sound [OF clock run room p this] show ?thesis .
  qed
qed

text \<open>Reading logs nothing, so the log of a whole exchange is the pieces of its request.\<close>

lemma logs_read_some: "logs P (read_some room)"
  unfolding read_some_def
  by (auto intro!: logging simp: read_turn_def split: sysret.split)

lemma logs_exchange_turn: "logs P (exchange_turn p room sent s)"
  unfolding exchange_turn_def attempt_io_def elapsed_since_def Let_def
  by (intro logging logs_read_some)
    (auto intro!: logging logs_read_some split: sum.split response_state.split)

lemma logs_nothing: "logs (\<lambda>_. False) m \<Longrightarrow> m w = (r, w') \<Longrightarrow> w_log w' = w_log w"
  unfolding logs_def by fastforce

lemma exchange_sends:
  assumes "perform_request p room w = (Inr (x, received), w')" and "x_usable x"
  shows "\<exists>pieces. w_log w' = w_log w @ map Sent pieces \<and> concat pieces = p_request p"
proof -
  let ?v = "w\<lparr>w_reads := Suc (w_reads w)\<rparr>"
  obtain a u where a: "attempt_io (write_all (p_request p)) ?v = (a, u)" by fastforce
  show ?thesis
  proof (cases rule: attempt_io_cases [OF a])
    case (1 y)
    then obtain ps where "w_log u = w_log w @ map Sent ps" "concat ps = p_request p"
      using write_all_pieces [of "p_request p" ?v] by fastforce
    moreover from assms a 1 have "iterate (exchange_turn p room (w_clock w (w_reads w))) [] u = (Inr (x, received), w')"
      by (simp add: perform_request_def op_then_def op_simps)
    then have "w_log w' = w_log u"
      by (rule logs_nothing [rotated]) (intro logs_iterate logs_exchange_turn)
    ultimately show ?thesis by auto
  next
    case (2 e)
    with assms a show ?thesis
      by (auto simp: perform_request_def op_then_def op_simps elapsed_since_def fresh_exchange_def
          split: if_splits sum.splits prod.splits)
  next
    case (3 e)
    with assms a show ?thesis by (auto simp: perform_request_def op_then_def op_simps)
  qed
qed


lemma echo_exchange:
  "perform_request (raw_echo ''ab'') 16 (quiet_world [Done 2 '''', Done 1 ''a'', Fail EINTR, Done 1 ''b'']) =
    (Inr (\<lparr>x_outcome = Succeeded, x_elapsed = 1, x_usable = True\<rparr>, ''ab''),
     (quiet_world [])\<lparr>w_reads := 2, w_log := [Sent ''ab'']\<rparr>)"
  by (simp add: perform_request_def attempt_io_def catching_def iterate_def quiet_world_def op_then_def
      write_all_def write_turn_def exchange_turn_def read_some_def read_turn_def syscall_def op_simps
      raw_echo_def raw_consume_def raw_succeeded_def Let_def elapsed_since_def between_def int64_ok_def)


end
