(* ===== verification/Threads.thy ===== *)
theory Threads
  imports Exchange
begin

text \<open>
  What the two kinds of run and of worker thread share: starting and joining threads; that connecting and exchanging make system calls, so
  that the loops of the workers make progress, and a calculus of triples for operations, in which
  their bodies are followed step by step.
\<close>

subsection \<open>Starting and joining threads\<close>

text \<open>The loop that starts the threads stops at the first one that cannot be created.\<close>

fun spawn :: "nat \<Rightarrow> 'a list \<Rightarrow> 'a list" where
  "spawn 0 threads = []"
| "spawn (Suc n) [] = []"
| "spawn (Suc n) (w # threads) = w # spawn n threads"

text \<open>An exception that leaves a thread's function, or a scope whose threads have not been joined, ends the process
  (\<open>std::terminate\<close>) before any handler sees it.\<close>

fun fatal :: "'a result \<Rightarrow> 'a result" where
  "fatal (Inr x) = Inr x"
| "fatal (Inl e) = Inl (if is_Error e then StdException ''terminate called'' else e)"

definition unjoined :: "'b list \<Rightarrow> 'a result \<Rightarrow> 'a result" where
  "unjoined threads r = (if threads = [] then r else fatal r)"

text \<open>Joining waits for every thread; one that never ends makes the run wait for ever.\<close>

fun join_all :: "'a result list \<Rightarrow> 'a list result" where
  "join_all [] = Inr []"
| "join_all (r # rs) = and_then (fatal r) (\<lambda>x. and_then (join_all rs) (\<lambda>xs. Inr (x # xs)))"

text \<open>\<open>time_point + milliseconds\<close>.\<close>

definition add_millis :: "instant \<Rightarrow> millis \<Rightarrow> instant result" where
  "add_millis t ms = and_then (nanos_of_millis ms) (add_nanos t)"

lemma length_spawn: "length (spawn n threads) \<le> n"
  by (induction n threads rule: spawn.induct) simp_all

lemma set_spawn: "set (spawn n threads) \<subseteq> set threads"
  by (induction n threads rule: spawn.induct) auto

lemma fatal_Inr [simp]: "fatal r = Inr x \<longleftrightarrow> r = Inr x"
  by (cases r) simp_all

lemma unjoined_Inr [simp]: "unjoined threads r = Inr x \<longleftrightarrow> r = Inr x" "unjoined threads (Inr x) = Inr x"
  by (simp_all add: unjoined_def)

lemma join_all_Inr: "join_all rs = Inr xs \<longleftrightarrow> rs = map Inr xs"
  by (induction rs arbitrary: xs) (auto simp: and_then_Inr_iff Cons_eq_map_conv)

subsection \<open>Progress\<close>

text \<open>An operation that returns or fails with an \<open>IoError\<close> only after a system call.\<close>

definition hungry :: "('addr, 'a) op \<Rightarrow> bool" where
  "hungry m \<longleftrightarrow> (\<forall>w r w'. m w = (r, w') \<longrightarrow> (\<forall>e. r = Inl e \<longrightarrow> is_IoError e) \<longrightarrow>
     length (w_kernel w') < length (w_kernel w))"

lemma hungryD:
  "hungry m \<Longrightarrow> m w = (r, w') \<Longrightarrow> (\<And>e. r = Inl e \<Longrightarrow> is_IoError e) \<Longrightarrow>
    length (w_kernel w') < length (w_kernel w)"
  unfolding hungry_def by blast

lemma hungry_syscall: "hungry syscall"
  by (auto simp: hungry_def syscall_def split: list.splits)

lemma hungry_first:
  assumes "hungry m" and "\<And>x. well_behaved (f x)"
  shows "hungry (op_then m f)"
  unfolding hungry_def
proof (intro allI impI)
  fix w r w' assume *: "op_then m f w = (r, w')" and e: "\<forall>e. r = Inl e \<longrightarrow> is_IoError e"
  obtain a v where m: "m w = (a, v)" by fastforce
  show "length (w_kernel w') < length (w_kernel w)"
  proof (cases a)
    case (Inl b)
    with * m e hungryD [OF assms(1) m] show ?thesis by (auto simp: op_then_def)
  next
    case (Inr x)
    with * m have "f x v = (r, w')" by (simp add: op_then_def)
    from follows_shorter [OF well_behavedD [OF assms(2) this]] hungryD [OF assms(1) m] Inr
    show ?thesis by simp
  qed
qed

lemma hungry_catching:
  assumes "hungry m" and "\<And>e. well_behaved (h e)"
  shows "hungry (catching is_IoError m h)"
  unfolding hungry_def
proof (intro allI impI)
  fix w r w' assume *: "catching is_IoError m h w = (r, w')" and e: "\<forall>e. r = Inl e \<longrightarrow> is_IoError e"
  obtain a v where m: "m w = (a, v)" by fastforce
  show "length (w_kernel w') < length (w_kernel w)"
  proof (cases "\<exists>b. a = Inl b \<and> is_IoError b")
    case True
    then obtain b where b: "a = Inl b" "is_IoError b" by blast
    with * m have "h b v = (r, w')" by (simp add: catching_def)
    from follows_shorter [OF well_behavedD [OF assms(2) this]] hungryD [OF assms(1) m] b
    show ?thesis by simp
  next
    case False
    with * m have "r = a" "w' = v" by (auto simp: catching_def split: sum.splits if_splits)
    with hungryD [OF assms(1) m] e show ?thesis by simp
  qed
qed

lemma hungry_attempt: "hungry m \<Longrightarrow> hungry (attempt_io m)"
  unfolding attempt_io_def by (intro hungry_catching hungry_first behaved)

lemma hungry_checked: "hungry (checked_call m)"
  unfolding checked_call_def by (intro hungry_first [OF hungry_syscall]) (auto intro!: behaved split: sysret.split)

lemma hungry_connect_any: "hungry (connect_any addresses timeout)"
proof (cases addresses)
  case Nil
  then show ?thesis by (simp add: connect_any_def hungry_def throw_def)
next
  case (Cons a rest)
  have "hungry (connect a timeout)"
    unfolding connect_def by (intro hungry_first [OF hungry_checked] behaved)
  then have "hungry (connect_from True [] (a # rest) timeout)"
    unfolding connect_from.simps by (intro hungry_catching behaved)
  then show ?thesis unfolding connect_any_def Cons by simp
qed

lemma hungry_read_some: "hungry (read_some room)"
  unfolding hungry_def
proof (intro allI impI)
  fix w r w' assume *: "read_some room w = (r, w')" and e: "\<forall>e. r = Inl e \<longrightarrow> is_IoError e"
  show "length (w_kernel w') < length (w_kernel w)"
  proof (cases "room = 0")
    case False
    with * e obtain b rest where
      "dropWhile (\<lambda>r. r = Fail EINTR) (w_kernel w) = b # rest" "w_kernel w' = rest"
      by (auto simp: read_first_answer split: list.splits sysret.splits)
    then show ?thesis
      using length_dropWhile_le [of "\<lambda>r. r = Fail EINTR" "w_kernel w"] by simp
  qed (use * e in \<open>auto simp: read_some_def throw_def\<close>)
qed

lemma write_turn_fails:
  "write_turn data s w = (Inl e, w') \<Longrightarrow> is_IoError e \<Longrightarrow> length (w_kernel w') < length (w_kernel w)"
  by (auto simp: write_turn_def op_then_def op_simps syscall_def Let_def
      split: if_splits list.splits sysret.splits)

lemma write_all_fails:
  assumes "write_all data w = (Inl e, w')" and "is_IoError e"
  shows "length (w_kernel w') < length (w_kernel w)"
proof -
  have "case (Inl e :: unit result) of Inl e \<Rightarrow> is_IoError e \<longrightarrow> length (w_kernel w') < length (w_kernel w)
      | Inr _ \<Rightarrow> True"
  proof (rule iterate_rule [OF assms(1) [unfolded write_all_def] consumes_write,
        where I = "\<lambda>s v. length (w_kernel v) \<le> length (w_kernel w)"
          and Q = "\<lambda>r w'. case r of Inl e \<Rightarrow> is_IoError e \<longrightarrow> length (w_kernel w') < length (w_kernel w)
            | Inr _ \<Rightarrow> True"])
    show "length (w_kernel v') \<le> length (w_kernel w)"
      if "length (w_kernel v) \<le> length (w_kernel w)" "write_turn data s v = (Inr (Again s'), v')" for s v s' v'
      using that consumes_write [of data] unfolding consumes_def by fastforce
  qed (auto dest: write_turn_fails)
  with assms(2) show ?thesis by simp
qed

lemma hungry_iterate:
  assumes "\<And>s. hungry (body s)"
  shows "hungry (iterate body s)"
  unfolding hungry_def
proof (intro allI impI)
  fix w r w' assume run: "iterate body s w = (r, w')" and "\<forall>e. r = Inl e \<longrightarrow> is_IoError e"
  have "consumes body" using hungryD [OF assms] unfolding consumes_def by blast
  then have "(\<forall>e. r = Inl e \<longrightarrow> is_IoError e) \<longrightarrow> length (w_kernel w') < length (w_kernel w)"
  proof (rule iterate_rule [OF run, where I = "\<lambda>_ v. length (w_kernel v) \<le> length (w_kernel w)"
        and Q = "\<lambda>r w'. (\<forall>e. r = Inl e \<longrightarrow> is_IoError e) \<longrightarrow> length (w_kernel w') < length (w_kernel w)"])
  qed (use hungryD [OF assms] in fastforce)+
  then show "length (w_kernel w') < length (w_kernel w)"
    using \<open>\<forall>e. r = Inl e \<longrightarrow> is_IoError e\<close> by blast
qed

lemma hungry_exchange_turn: "hungry (exchange_turn protocol room sent s)"
  unfolding exchange_turn_def Let_def
  by (intro hungry_first [OF hungry_attempt [OF hungry_read_some]])
    (auto intro!: behaved split: sum.split response_state.split)

lemma hungry_perform: "hungry (perform_request protocol room)"
  unfolding hungry_def
proof (intro allI impI)
  fix w r w' assume *: "perform_request protocol room w = (r, w')" and e: "\<forall>e. r = Inl e \<longrightarrow> is_IoError e"
  let ?v = "w\<lparr>w_reads := Suc (w_reads w)\<rparr>"
  obtain a u where a: "attempt_io (write_all (p_request protocol)) ?v = (a, u)" by fastforce
  show "length (w_kernel w') < length (w_kernel w)"
  proof (cases rule: attempt_io_cases [OF a])
    case (3 b)
    with * a e show ?thesis by (auto simp: perform_request_def op_then_def op_simps)
  next
    case (2 b)
    then have "length (w_kernel u) < length (w_kernel w)" using write_all_fails by fastforce
    with * a 2 show ?thesis
      by (auto simp: perform_request_def op_then_def op_simps elapsed_since_def split: if_splits sum.splits)
  next
    case (1 x)
    then have "length (w_kernel u) \<le> length (w_kernel w)"
      using well_behavedD [OF well_behaved_write_all 1(1)] follows_shorter by fastforce
    moreover from * a 1 have loop: "iterate (exchange_turn protocol room (w_clock w (w_reads w))) [] u = (r, w')"
      by (simp add: perform_request_def op_then_def op_simps)
    from hungryD [OF hungry_iterate [OF hungry_exchange_turn] loop] e
    have "length (w_kernel w') < length (w_kernel u)" by blast
    ultimately show ?thesis by simp
  qed
qed

subsection \<open>Triples\<close>

text \<open>From every world with \<open>P\<close>, the operation returns with \<open>Q\<close> or fails with \<open>E\<close>.\<close>

definition triple ::
  "('addr world \<Rightarrow> bool) \<Rightarrow> ('addr, 'a) op \<Rightarrow> ('a \<Rightarrow> 'addr world \<Rightarrow> bool)
    \<Rightarrow> (error \<Rightarrow> 'addr world \<Rightarrow> bool) \<Rightarrow> bool" where
  "triple P m Q E \<longleftrightarrow> (\<forall>w r w'. P w \<longrightarrow> m w = (r, w') \<longrightarrow>
     (case r of Inl e \<Rightarrow> E e w' | Inr x \<Rightarrow> Q x w'))"

lemma tripleI:
  "(\<And>w r w'. P w \<Longrightarrow> m w = (r, w') \<Longrightarrow> (case r of Inl e \<Rightarrow> E e w' | Inr x \<Rightarrow> Q x w')) \<Longrightarrow> triple P m Q E"
  by (simp add: triple_def)

lemma tripleD:
  "triple P m Q E \<Longrightarrow> P w \<Longrightarrow> m w = (r, w') \<Longrightarrow> (case r of Inl e \<Rightarrow> E e w' | Inr x \<Rightarrow> Q x w')"
  by (simp add: triple_def)

lemma triple_weaken:
  assumes "triple P' m Q' E'" and "\<And>w. P w \<Longrightarrow> P' w"
    and "\<And>x w. Q' x w \<Longrightarrow> Q x w" and "\<And>e w. E' e w \<Longrightarrow> E e w"
  shows "triple P m Q E"
  using assms by (fastforce simp: triple_def split: sum.splits)

lemma triple_return: "(\<And>w. P w \<Longrightarrow> Q x w) \<Longrightarrow> triple P (return_op x) Q E"
  by (auto simp: triple_def return_op_def)

lemma triple_throw: "(\<And>w. P w \<Longrightarrow> E e w) \<Longrightarrow> triple P (throw e) Q E"
  by (auto simp: triple_def throw_def)

lemma triple_lift: "(\<And>w. P w \<Longrightarrow> \<exists>x. r = Inr x \<and> Q x w) \<Longrightarrow> triple P (lift r) Q E"
  by (fastforce simp: triple_def lift_def)

lemma triple_log: "(\<And>w. P w \<Longrightarrow> Q () (w\<lparr>w_log := w_log w @ [a]\<rparr>)) \<Longrightarrow> triple P (log_action a) Q E"
  by (auto simp: triple_def log_action_def)

lemma triple_read_clock:
  "(\<And>w. P w \<Longrightarrow> Q (w_clock w (w_reads w)) (w\<lparr>w_reads := Suc (w_reads w)\<rparr>)) \<Longrightarrow> triple P read_clock Q E"
  by (auto simp: triple_def read_clock_def now_def)

lemma triple_then:
  assumes "triple P m R E" and "\<And>x. triple (R x) (f x) Q E"
  shows "triple P (op_then m f) Q E"
proof (rule tripleI)
  fix w r w' assume "P w" and *: "op_then m f w = (r, w')"
  obtain a v where m: "m w = (a, v)" by fastforce
  from tripleD [OF assms(1) \<open>P w\<close> m] * m tripleD [OF assms(2)]
  show "case r of Inl e \<Rightarrow> E e w' | Inr x \<Rightarrow> Q x w'"
    by (cases a) (auto simp: op_then_def)
qed

lemma triple_attempt:
  assumes "triple P m (\<lambda>x. Q (Inr x)) (\<lambda>e v. if is_IoError e then Q (Inl e) v else E e v)"
  shows "triple P (attempt_io m) Q E"
proof (rule tripleI)
  fix w r w' assume "P w" and "attempt_io m w = (r, w')"
  from this(2) show "case r of Inl e \<Rightarrow> E e w' | Inr x \<Rightarrow> Q x w'"
    by (cases rule: attempt_io_cases) (use tripleD [OF assms \<open>P w\<close>] in fastforce)+
qed

lemma triple_iterate:
  assumes "consumes body"
    and "\<And>s. triple (I s) (body s) (\<lambda>t. case t of Again s' \<Rightarrow> I s' | Exit x \<Rightarrow> Q x) E"
  shows "triple (I s) (iterate body s) Q E"
proof (rule tripleI)
  fix w r w' assume "I s w" and run: "iterate body s w = (r, w')"
  show "case r of Inl e \<Rightarrow> E e w' | Inr x \<Rightarrow> Q x w'"
    by (rule iterate_rule [OF run assms(1), where I = I and Q = "\<lambda>r w'. case r of Inl e \<Rightarrow> E e w' | Inr x \<Rightarrow> Q x w'"])
      (use \<open>I s w\<close> tripleD [OF assms(2)] in fastforce)+
qed

lemma triple_conj:
  "triple P m Q E \<Longrightarrow> triple P m Q' E' \<Longrightarrow> triple P m (\<lambda>x w. Q x w \<and> Q' x w) (\<lambda>e w. E e w \<and> E' e w)"
  by (fastforce simp: triple_def split: sum.splits)

subsection \<open>Connecting and exchanging fail only with an \<open>IoError\<close>, or wait for ever\<close>

definition io_failure :: "error \<Rightarrow> bool" where
  "io_failure e \<longleftrightarrow> e = Blocked \<or> is_IoError e"

definition io_only :: "clock \<Rightarrow> ('addr, 'a) op \<Rightarrow> bool" where
  "io_only C m \<longleftrightarrow> triple (\<lambda>v. w_clock v = C) m (\<lambda>_ v. w_clock v = C) (\<lambda>e v. io_failure e)"

text \<open>The clock never comes near the end of its range.\<close>

definition timeout_fits :: "clock \<Rightarrow> millis \<Rightarrow> bool" where
  "timeout_fits C timeout \<longleftrightarrow> clock_ok C \<and> 0 \<le> timeout \<and> (\<forall>i. C i + timeout * 1000000 < 2 ^ 63)"

named_theorems io_rules \<open>operations that fail only with an IoError\<close>

lemma io_only_basic [io_rules]:
  "io_only C (return_op x)" "io_only C (log_action a)" "io_only C syscall"
  by (auto simp: io_only_def triple_def return_op_def log_action_def syscall_def io_failure_def
      split: list.splits)

lemma io_only_throw [io_rules]: "is_IoError e \<Longrightarrow> io_only C (throw e)"
  by (simp add: io_only_def triple_def throw_def io_failure_def)

lemma io_only_throws [io_rules]: "(\<And>w. is_IoError (f w)) \<Longrightarrow> io_only C (throws f)"
  by (simp add: io_only_def triple_def throws_def io_failure_def)

lemma io_only_then [io_rules]: "io_only C m \<Longrightarrow> (\<And>x. io_only C (f x)) \<Longrightarrow> io_only C (op_then m f)"
  unfolding io_only_def by (rule triple_then)

lemma io_only_checked [io_rules]: "io_only C (checked_call m)"
  unfolding checked_call_def by (auto intro!: io_rules split: sysret.split)

lemma io_only_setters [io_rules]:
  "io_only C (disable_sigpipe fd)" "io_only C (set_nonblocking fd on)" "io_only C (set_timeouts a b)"
  unfolding disable_sigpipe_def set_nonblocking_def set_timeouts_def by (intro io_rules)+

lemma io_only_catching:
  assumes "io_only C m" and "\<And>e. caught e \<Longrightarrow> is_IoError e \<Longrightarrow> io_only C (h e)"
    and "well_behaved m" and "\<not> caught Blocked"
  shows "io_only C (catching caught m h)"
  unfolding io_only_def
proof (rule tripleI)
  fix w r w' assume w: "w_clock w = C" and *: "catching caught m h w = (r, w')"
  obtain a v where m: "m w = (a, v)" by fastforce
  have "w_clock v = C" using well_behavedD [OF assms(3) m] w by (simp add: follows_def)
  with tripleD [OF assms(1) [unfolded io_only_def] w m] tripleD [OF assms(2) [unfolded io_only_def]] * m assms(4)
  show "case r of Inl e \<Rightarrow> io_failure e | Inr x \<Rightarrow> w_clock w' = C"
    by (cases a) (fastforce simp: catching_def io_failure_def split: if_splits)+
qed

lemma io_only_owning [io_rules]: "io_only C m \<Longrightarrow> well_behaved m \<Longrightarrow> io_only C (owning fd m)"
  unfolding owning_def by (intro io_only_catching) (auto intro!: io_rules)

lemma io_only_adopt [io_rules]: "io_only C (adopt fd)"
  unfolding adopt_def by (intro io_rules behaved)

lemma io_only_await:
  assumes "timeout_fits C timeout"
  shows "io_only C (await_writable a timeout)"
proof -
  define D where "D = (\<lambda>d (v :: 'a world). w_clock v = C \<and> (\<exists>k. d = C k + timeout * 1000000))"
  have range: "0 \<le> C i \<and> C i < 2 ^ 63 \<and> C i + timeout * 1000000 < 2 ^ 63 \<and> 0 \<le> timeout" for i
    using assms clock_ok_range [of C i] by (auto simp: timeout_fits_def)
  have start: "triple (\<lambda>v. w_clock v = C) read_clock (\<lambda>t v. w_clock v = C \<and> (\<exists>k. t = C k))
      (\<lambda>e v. io_failure e)"
    by (rule triple_read_clock) auto
  have deadline: "triple (\<lambda>v. w_clock v = C \<and> (\<exists>k. t = C k))
      (lift (and_then (nanos_of_millis timeout) (add_nanos t))) D (\<lambda>e v. io_failure e)" for t
  proof (rule triple_lift, elim conjE exE)
    fix v :: "'a world" and k assume v: "w_clock v = C" "t = C k"
    from range [of k] have "int64_ok (timeout * 1000000)" "int64_ok (C k + timeout * 1000000)"
      by (auto simp: int64_ok_def)
    with v show "\<exists>d. and_then (nanos_of_millis timeout) (add_nanos t) = Inr d \<and> D d v"
      by (auto simp: nanos_of_millis_def add_nanos_def D_def)
  qed
  have turn: "triple (D d) (poll_turn a timeout d u)
      (\<lambda>t. case t of Again s' \<Rightarrow> D d | Exit x \<Rightarrow> \<lambda>v. w_clock v = C) (\<lambda>e v. io_failure e)" for d u
  proof (rule tripleI)
    fix v r v' assume v: "D d v" and t: "poll_turn a timeout d u v = (r, v')"
    from v obtain k where "w_clock v = C" "d = C k + timeout * 1000000" by (auto simp: D_def)
    moreover from range [of k] range [of "w_reads v"]
    have "int64_ok (C k + timeout * 1000000 - C (w_reads v))" by (auto simp: int64_ok_def)
    ultimately show "case r of Inl e \<Rightarrow> io_failure e
        | Inr t \<Rightarrow> (case t of Again s' \<Rightarrow> D d | Exit x \<Rightarrow> \<lambda>v. w_clock v = C) v'"
      using t by (auto simp: poll_turn_def op_then_def op_simps syscall_def between_def D_def io_failure_def
          split: if_splits list.splits sysret.splits)
  qed
  show ?thesis unfolding io_only_def await_writable_def
    by (rule triple_then [OF start triple_then [OF deadline]])
      (rule triple_iterate [where I = "\<lambda>_. D _", OF consumes_poll turn])
qed

lemma io_only_connect:
  assumes "timeout_fits C timeout"
  shows "io_only C (connect a timeout)"
  unfolding connect_def connect_owned_def finish_connect_def
  by (intro io_rules behaved) (auto intro!: io_rules behaved io_only_await [OF assms] split: sysret.split)

lemma io_only_connect_from:
  assumes "timeout_fits C timeout"
  shows "io_only C (connect_from b fs as timeout)"
proof (induction as arbitrary: b fs)
  case Nil
  show ?case unfolding connect_from.simps by (auto intro: io_rules)
next
  case (Cons a as)
  show ?case unfolding connect_from.simps
    by (intro io_only_catching io_only_connect [OF assms] behaved Cons) simp
qed

lemma io_only_connect_any:
  "timeout_fits C timeout \<Longrightarrow> addresses \<noteq> [] \<Longrightarrow> io_only C (connect_any addresses timeout)"
  by (simp add: connect_any_def io_only_connect_from)

subsection \<open>Where a worker thread stands\<close>

text \<open>Since the log was \<open>L\<close>: the clock has been read past \<open>n\<close>, and every descriptor opened has been
  closed, except that of the socket the thread holds.\<close>

definition here :: "clock \<Rightarrow> nat \<Rightarrow> 'addr action list \<Rightarrow> nat option \<Rightarrow> 'addr world \<Rightarrow> bool" where
  "here C n L socket v \<longleftrightarrow> w_clock v = C \<and> n \<le> w_reads v \<and>
     (\<exists>acts. w_log v = L @ acts \<and>
        opened acts = closed_fds acts @ (case socket of Some fd \<Rightarrow> [fd] | None \<Rightarrow> []))"

lemma here_later: "here C n L socket v \<Longrightarrow> m \<le> n \<Longrightarrow> here C m L socket v"
  by (auto simp: here_def)

lemma here_quiet:
  assumes "well_behaved m" and "logs fd_quiet m" and "m v = (r, v')" and "here C n L socket v"
  shows "here C n L socket v'"
proof -
  from logsD [OF assms(2,3)] obtain acts where a: "w_log v' = w_log v @ acts" "\<forall>a \<in> set acts. fd_quiet a"
    by blast
  from fd_quiet_acts [OF a(2)] a(1) well_behavedD [OF assms(1,3)] assms(4) show ?thesis
    unfolding here_def follows_def by fastforce
qed

lemma triple_quiet:
  "well_behaved m \<Longrightarrow> logs fd_quiet m \<Longrightarrow>
    triple (here C n L socket) m (\<lambda>_. here C n L socket) (\<lambda>_. here C n L socket)"
  using here_quiet by (fastforce simp: triple_def split: sum.splits)

lemma triple_io:
  "io_only C m \<Longrightarrow> triple (here C n L socket) m (\<lambda>_ _. True) (\<lambda>e _. io_failure e)"
  unfolding io_only_def by (fastforce simp: triple_def here_def split: sum.splits)

lemma triple_clock_here:
  "triple (here C n L socket) read_clock (\<lambda>t v. \<exists>k \<ge> n. t = C k \<and> here C (Suc k) L socket v) E"
  by (rule triple_read_clock) (auto simp: here_def)

text \<open>What a failed connect leaves: nothing open. What a successful one leaves: its socket.\<close>

lemma triple_connect_any:
  assumes "timeout_fits C timeout" and "addresses \<noteq> []"
  shows "triple (here C n L None) (attempt_io (connect_any addresses timeout))
    (\<lambda>c. here C n L (case c of Inl e \<Rightarrow> None | Inr fd \<Rightarrow> Some fd)) (\<lambda>e v. e = Blocked)"
proof (rule triple_attempt, rule tripleI)
  fix v r v' assume v: "here C n L None v" and run: "connect_any addresses timeout v = (r, v')"
  from run assms(2) have "connect_from True [] addresses timeout v = (r, v')" by (simp add: connect_any_def)
  from fds_afterD [OF fds_after_connect_from this] obtain acts where a: "w_log v' = w_log v @ acts"
    "case r of Inr fd \<Rightarrow> opened acts = closed_fds acts @ [fd] | Inl e \<Rightarrow> unwinds e \<longrightarrow> opened acts = closed_fds acts"
    by blast
  have "is_IoError e \<Longrightarrow> unwinds e" for e by (cases e) auto
  moreover have "case r of Inl e \<Rightarrow> io_failure e | Inr _ \<Rightarrow> True"
    using tripleD [OF triple_io [OF io_only_connect_any [OF assms]] v run] .
  ultimately show "case r of
      Inl e \<Rightarrow> if is_IoError e then here C n L (case Inl e of Inl e \<Rightarrow> None | Inr fd \<Rightarrow> Some fd) v' else e = Blocked
    | Inr x \<Rightarrow> here C n L (case Inr x of Inl e \<Rightarrow> None | Inr fd \<Rightarrow> Some fd) v'"
    using a v well_behavedD [OF well_behaved_connect_any run]
    unfolding here_def follows_def io_failure_def by (fastforce split: sum.splits)
qed

lemma logs_set_timeouts [logging]: "logs P (set_timeouts a b)"
  unfolding set_timeouts_def by (intro logging)

lemma triple_set_timeouts:
  "triple (here C n L socket) (attempt_io (set_timeouts a b)) (\<lambda>_. here C n L socket) (\<lambda>e v. e = Blocked)"
  by (rule triple_attempt,
      rule triple_weaken [OF triple_conj [OF triple_quiet [OF well_behaved_setters(3) logs_set_timeouts]
        triple_io [OF io_only_setters(3)]]])
    (auto simp: io_failure_def)

lemma triple_log_here:
  "fd_quiet a \<Longrightarrow> triple (here C n L socket) (log_action a) (\<lambda>_. here C n L socket) E"
  by (rule triple_log) (cases a; force simp: here_def)

lemma triple_close:
  "triple (here C n L (Some fd)) (log_action (Closed fd)) (\<lambda>_. here C n L None) E"
  by (rule triple_log) (auto simp: here_def)

text \<open>One exchange on the socket the thread holds.\<close>

lemma logs_perform: "logs fd_quiet (perform_request protocol room)"
proof -
  have "logs fd_quiet (write_turn data s)" for data s
    unfolding write_turn_def by (auto intro!: logging simp: Let_def split: sysret.split)
  then show ?thesis
    unfolding perform_request_def attempt_io_def write_all_def elapsed_since_def
    by (auto intro!: logging logs_exchange_turn split: sum.split)
qed

lemma triple_perform:
  assumes "clock_ok C" and "0 < room" and "protocol_ok protocol"
  shows "triple (here C n L socket) (perform_request protocol room)
    (\<lambda>(x, received) v. here C n L socket v \<and> exchange_sound protocol x received) (\<lambda>e v. e = Blocked)"
proof (rule tripleI)
  fix v r v' assume v: "here C n L socket v" and run: "perform_request protocol room v = (r, v')"
  from v assms(1) have "clock_ok (w_clock v)" by (simp add: here_def)
  from perform_request_sound [OF this assms(2,3) run] here_quiet [OF well_behaved_perform logs_perform run v]
  show "case r of Inl e \<Rightarrow> e = Blocked
    | Inr z \<Rightarrow> (case z of (x, received) \<Rightarrow> \<lambda>v. here C n L socket v \<and> exchange_sound protocol x received) v'"
    by (auto split: sum.splits)
qed

text \<open>The elapsed time of an exchange is measured on the clock, from no earlier than the reading
  before it, so the two add up without overflow.\<close>

lemma triple_keep:
  "well_behaved m \<Longrightarrow> triple (\<lambda>v. w_clock v = C) m (\<lambda>_ v. w_clock v = C) (\<lambda>_ v. w_clock v = C)"
  by (auto simp: triple_def follows_def dest!: well_behavedD split: sum.splits)

lemma triple_elapsed_since:
  assumes "\<And>i. C i < Z"
  shows "triple (\<lambda>v. w_clock v = C) (elapsed_since t) (\<lambda>d v. w_clock v = C \<and> d + t < Z) (\<lambda>_ _. True)"
  using assms
  by (auto simp: triple_def elapsed_since_def op_then_def op_simps between_def split: sum.splits if_splits)

lemma triple_exchange_turn_elapsed:
  assumes C: "\<And>i. C i < Z" and t: "t < Z"
  shows "triple (\<lambda>v. w_clock v = C) (exchange_turn p room t received)
    (\<lambda>r. case r of Again s \<Rightarrow> (\<lambda>v. w_clock v = C) | Exit (x, s) \<Rightarrow> (\<lambda>v. x_elapsed x + t < Z)) (\<lambda>_ _. True)"
proof -
  have read: "triple (\<lambda>v. w_clock v = C) (attempt_io (read_some room)) (\<lambda>_ v. w_clock v = C) (\<lambda>_ _. True)"
    by (rule triple_weaken [OF triple_keep]) (auto intro: behaved)
  have stop: "triple (\<lambda>v. w_clock v = C)
      (op_then (elapsed_since t) (\<lambda>d. op_then (lift (g d)) (\<lambda>y. return_op (Exit (f d y, s)))))
      (\<lambda>r. case r of Again s \<Rightarrow> (\<lambda>v. w_clock v = C) | Exit (x, s) \<Rightarrow> (\<lambda>v. x_elapsed x + t < Z)) (\<lambda>_ _. True)"
    if "\<And>d y. x_elapsed (f d y) = d" for g :: "int \<Rightarrow> 'b result" and f s
    by (rule triple_then [OF triple_elapsed_since [OF C]])
      (auto simp: triple_def op_then_def lift_def return_op_def that split: sum.splits)
  have timed_out: "triple (\<lambda>v. w_clock v = C)
      (op_then (elapsed_since t) (\<lambda>d. return_op (Exit (f d, s))))
      (\<lambda>r. case r of Again s \<Rightarrow> (\<lambda>v. w_clock v = C) | Exit (x, s) \<Rightarrow> (\<lambda>v. x_elapsed x + t < Z)) (\<lambda>_ _. True)"
    if "\<And>d. x_elapsed (f d) = d" for f s
    by (rule triple_then [OF triple_elapsed_since [OF C]]) (auto simp: that intro!: triple_return)
  show ?thesis unfolding exchange_turn_def Let_def
    by (rule triple_then [OF read])
      (use t in \<open>auto intro!: triple_return stop timed_out simp: fresh_exchange_def split: sum.split response_state.split\<close>)
qed

lemma triple_perform_elapsed:
  assumes C: "clock_ok C" and Z: "\<And>i. C i < Z"
  shows "triple (here C n L socket) (perform_request p room)
    (\<lambda>(x, received) v. x_elapsed x + C n < Z) (\<lambda>_ _. True)"
proof -
  let ?Q = "\<lambda>t (x, received :: string) (v :: 'a world). x_elapsed x + t < Z"
  have main: "triple (\<lambda>v. w_clock v = C)
      (op_then (attempt_io (write_all (p_request p))) (\<lambda>written. case written of
         Inl e \<Rightarrow>
           if is_TimedOut e then
             op_then (elapsed_since t) (\<lambda>d. return_op
               (fresh_exchange\<lparr>x_outcome := Timed_Out, x_elapsed := d\<rparr>, []))
           else return_op (fresh_exchange\<lparr>x_outcome := Write_Failed\<rparr>, [])
       | Inr _ \<Rightarrow> iterate (exchange_turn p room t) [])) (?Q t) (\<lambda>_ _. True)" if t: "t < Z" for t
  proof -
    have written: "triple (\<lambda>v. w_clock v = C) (attempt_io (write_all (p_request p)))
        (\<lambda>_ v. w_clock v = C) (\<lambda>_ _. True)"
      by (rule triple_weaken [OF triple_keep]) (auto intro: behaved)
    have loop: "triple (\<lambda>v. w_clock v = C) (iterate (exchange_turn p room t) []) (?Q t) (\<lambda>_ _. True)"
      by (rule triple_iterate [where I = "\<lambda>_ v. w_clock v = C", OF consumes_exchange])
        (rule triple_weaken [OF triple_exchange_turn_elapsed [OF Z t]], auto split: turn.splits)
    have timed_out: "triple (\<lambda>v. w_clock v = C)
        (op_then (elapsed_since t) (\<lambda>d. return_op (fresh_exchange\<lparr>x_outcome := Timed_Out, x_elapsed := d\<rparr>, [])))
        (?Q t) (\<lambda>_ _. True)"
      by (rule triple_then [OF triple_elapsed_since [OF Z]]) (auto intro!: triple_return)
    show ?thesis
      by (rule triple_then [OF written])
        (use t in \<open>auto intro!: loop timed_out [unfolded fresh_exchange_def, simplified] triple_return simp: fresh_exchange_def split: sum.split\<close>)
  qed
  show ?thesis
  proof (rule tripleI)
    fix v r v' assume v: "here C n L socket v" and run: "perform_request p room v = (r, v')"
    let ?t = "C (w_reads v)"
    from v have "C n \<le> ?t" by (intro clock_ok_mono [OF C]) (simp add: here_def)
    moreover have "case r of Inl e \<Rightarrow> True | Inr z \<Rightarrow> ?Q ?t z v'"
      using v run Z [of "w_reads v"]
        tripleD [OF main [of ?t], of "v\<lparr>w_reads := Suc (w_reads v)\<rparr>" r v']
      by (simp add: here_def perform_request_def op_then_def [of read_clock] op_simps)
    ultimately show "case r of Inl e \<Rightarrow> True | Inr z \<Rightarrow> (case z of (x, received) \<Rightarrow> \<lambda>v. x_elapsed x + C n < Z) v'"
      by (auto split: sum.splits)
  qed
qed

end
