(* ===== verification/Buckets.thy ===== *)
theory Buckets
  imports Prelude
begin

text \<open>
  The log-linear slot layout of \<open>src/stats/buckets.hpp\<close>: \<open>index_of\<close>, \<open>kCount\<close>,
  \<open>decode\<close>, \<open>slot_low\<close> and \<open>slot_high\<close>, with the lemmas that the slots partition the
  representable latencies and that the high edge is within 1/128 of every value of the slot.
\<close>

definition kSubBucketBits :: nat where
  "kSubBucketBits = 7"

definition kSubBuckets :: int where
  "kSubBuckets = push_bit kSubBucketBits 1"

definition kMaxValue :: int where
  "kMaxValue = 60000000000"

text \<open>\<open>std::countl_zero\<close> on 64 bits: the bits are inspected from the top.\<close>

fun countl_zero_from :: "nat \<Rightarrow> u64 \<Rightarrow> nat" where
  "countl_zero_from 0 w = 0"
| "countl_zero_from (Suc n) w = (if bit w n then 0 else Suc (countl_zero_from n w))"

definition countl_zero :: "u64 \<Rightarrow> nat" where
  "countl_zero w = countl_zero_from 64 w"

definition index_of :: "int \<Rightarrow> int" where
  "index_of value =
     (if value < kSubBuckets then value
      else let msb = 63 - int (countl_zero (word_of_int value));
               shift = msb - int kSubBucketBits;
               mantissa = drop_bit (nat shift) value - kSubBuckets
           in push_bit kSubBucketBits (msb - int kSubBucketBits + 1) + mantissa)"

definition kCount :: int where
  "kCount = index_of kMaxValue + 1"

record decoded =
  exponent :: int
  mantissa :: int

definition decode :: "int \<Rightarrow> decoded" where
  "decode index =
     \<lparr>exponent = drop_bit kSubBucketBits index - 1 + int kSubBucketBits,
      mantissa = (index AND (kSubBuckets - 1)) + kSubBuckets\<rparr>"

definition slot_low :: "int \<Rightarrow> int" where
  "slot_low index =
     (if index < kSubBuckets then index
      else let d = decode index
           in push_bit (nat (exponent d - int kSubBucketBits)) (mantissa d))"

definition slot_high :: "int \<Rightarrow> int" where
  "slot_high index =
     (if index < kSubBuckets then index
      else let d = decode index
           in push_bit (nat (exponent d - int kSubBucketBits)) (mantissa d + 1) - 1)"

subsection \<open>Arithmetic reading of the bit operations\<close>

lemma kSubBuckets_eq [simp]: "kSubBuckets = 128"
  by (simp add: kSubBuckets_def kSubBucketBits_def push_bit_eq_mult)

lemma countl_zero_from_bounds:
  assumes "unat w < 2 ^ n" and "w \<noteq> 0" and "n \<le> 64"
  shows "countl_zero_from n w < n \<and>
         2 ^ (n - 1 - countl_zero_from n w) \<le> unat w \<and> unat w < 2 ^ (n - countl_zero_from n w)"
  using assms(1,3)
proof (induction n)
  case 0
  with assms(2) show ?case by (simp add: unat_eq_zero)
next
  case (Suc n)
  show ?case
  proof (cases "bit w n")
    case True
    then have "odd (unat w div 2 ^ n)"
      by (simp add: bit_unsigned_iff flip: bit_iff_odd)
    then have "2 ^ n \<le> unat w"
      by (metis div_less even_zero not_le)
    with True Suc.prems show ?thesis by simp
  next
    case False
    have "unat w < 2 ^ n"
    proof (rule ccontr)
      assume "\<not> unat w < 2 ^ n"
      with Suc.prems(1) have "unat w div 2 ^ n = 1"
        by (simp add: div_nat_eqI)
      then have "bit (unat w) n" by (simp add: bit_iff_odd)
      with False show False by (simp add: bit_unsigned_iff)
    qed
    with Suc False show ?thesis by simp
  qed
qed

lemma countl_zero_bounds:
  assumes "0 < v" and "v < 2 ^ 63"
  defines "z \<equiv> countl_zero (word_of_int v)"
  shows "0 < z" and "z < 64" and "2 ^ (63 - z) \<le> v" and "v < 2 ^ (64 - z)"
proof -
  let ?w = "word_of_int v :: u64"
  have u: "int (unat ?w) = v"
    using assms(1,2) by (simp add: unat_eq_nat_uint uint_word_of_int)
  then have nz: "?w \<noteq> 0" using assms(1) by auto
  have "unat ?w < 2 ^ 64" using unsigned_less [of ?w] by simp
  from countl_zero_from_bounds [OF this nz]
  have b: "z < 64" "2 ^ (63 - z) \<le> unat ?w" "unat ?w < 2 ^ (64 - z)"
    by (simp_all add: z_def countl_zero_def)
  show "z < 64" by (rule b)
  show low: "2 ^ (63 - z) \<le> v"
    using b(2) u by (metis of_nat_le_iff of_nat_numeral of_nat_power)
  show "v < 2 ^ (64 - z)"
    using b(3) u by (metis of_nat_less_iff of_nat_numeral of_nat_power)
  show "0 < z"
  proof (rule ccontr)
    assume "\<not> 0 < z"
    with low assms(2) show False by simp
  qed
qed

text \<open>Below 128 a slot is one value; above, \<open>index_of\<close> is the octave and the seven bits
  below the leading one.\<close>

lemma index_of_small: "v < 128 \<Longrightarrow> index_of v = v"
  by (simp add: index_of_def)

lemma index_of_octave:
  assumes "2 ^ (k + 7) \<le> v" and "v < 2 ^ (k + 8)" and "k \<le> 55"
  shows "index_of v = 128 * int k + v div 2 ^ k"
proof -
  let ?z = "countl_zero (word_of_int v)"
  have pos: "0 < v" using assms(1) by (smt (verit) zero_less_power)
  have "(2::int) ^ (k + 8) \<le> 2 ^ 63" by (rule power_increasing) (use assms(3) in auto)
  with assms(2) have lim: "v < 2 ^ 63" by (rule order_less_le_trans)
  note z = countl_zero_bounds [OF pos lim]
  have "63 - ?z < k + 8"
    using order_le_less_trans [OF z(3) assms(2)] by (simp add: power_less_imp_less_exp)
  moreover have "k + 7 < 64 - ?z"
    using order_le_less_trans [OF assms(1) z(4)] by (simp add: power_less_imp_less_exp)
  ultimately have msb: "63 - int ?z = int k + 7" using z(2) by linarith
  have "(2::int) ^ 7 \<le> 2 ^ (k + 7)" by (rule power_increasing) auto
  with assms(1) have "\<not> v < 128" by simp
  then show ?thesis
    by (simp add: index_of_def Let_def msb kSubBucketBits_def push_bit_eq_mult drop_bit_eq_div)
qed

lemma octave_exists:
  assumes "128 \<le> (v::int)" and "v < 2 ^ 63"
  obtains k where "2 ^ (k + 7) \<le> v" and "v < 2 ^ (k + 8)" and "k \<le> 55"
proof -
  define z where "z = countl_zero (word_of_int v)"
  have b: "2 ^ (63 - z) \<le> v" "v < 2 ^ (64 - z)" "0 < z" "z < 64"
    using countl_zero_bounds [of v] assms by (simp_all add: z_def)
  have "7 < 64 - z"
  proof (rule ccontr)
    assume "\<not> 7 < 64 - z"
    then have "(2::int) ^ (64 - z) \<le> 2 ^ 7" by (intro power_increasing) auto
    with b(2) assms(1) show False by simp
  qed
  then have e: "63 - z = (56 - z) + 7" "64 - z = (56 - z) + 8" and le: "56 - z \<le> 55"
    using b(3) by linarith+
  from b(1,2) have "2 ^ (56 - z + 7) \<le> v" "v < 2 ^ (56 - z + 8)"
    by (simp_all only: e)
  then show thesis using le by (rule that)
qed

lemma octave_quotient:
  assumes "(2::int) ^ (k + 7) \<le> v" and "v < 2 ^ (k + 8)"
  shows "128 \<le> v div 2 ^ k" and "v div 2 ^ k < 256"
proof -
  have "(128 * 2 ^ k) div 2 ^ k \<le> v div 2 ^ k"
    by (rule zdiv_mono1) (use assms(1) in \<open>simp_all add: power_add mult.commute\<close>)
  then show "128 \<le> v div 2 ^ k" by simp
  have "v div 2 ^ k * 2 ^ k \<le> v" by (rule div_mult_bounds) simp
  also have "\<dots> < 256 * 2 ^ k" using assms(2) by (simp add: power_add)
  finally show "v div 2 ^ k < 256" by simp
qed

lemma slot_edges_small:
  "i < 128 \<Longrightarrow> slot_low i = i" "i < 128 \<Longrightarrow> slot_high i = i"
  by (simp_all add: slot_low_def slot_high_def)

lemma and_127: "(i::int) AND 127 = i mod 128"
  using take_bit_eq_mask [of 7 i] by (simp add: take_bit_eq_mod mask_eq_exp_minus_1)

lemma slot_edges_large:
  assumes "128 \<le> i"
  defines "k \<equiv> nat (i div 128 - 1)"
  shows "slot_low i = (i mod 128 + 128) * 2 ^ k"
    and "slot_high i = (i mod 128 + 129) * 2 ^ k - 1"
  using assms
  by (simp_all add: slot_low_def slot_high_def decode_def kSubBucketBits_def drop_bit_eq_div
      push_bit_eq_mult and_127 Let_def)

text \<open>The slot of a value is the one whose edges enclose it: every representable latency is in
  exactly one slot, so the layout has no gap and no overlap.\<close>

lemma index_of_nonneg: "0 \<le> v \<Longrightarrow> v < 2 ^ 63 \<Longrightarrow> 0 \<le> index_of v"
proof (cases "v < 128")
  case False
  assume "v < 2 ^ 63"
  with False obtain k where k: "2 ^ (k + 7) \<le> v" "v < 2 ^ (k + 8)" "k \<le> 55"
    using octave_exists [of v] by (metis not_less)
  with octave_quotient [OF k(1,2)] show ?thesis by (simp add: index_of_octave)
qed (simp add: index_of_small)

lemma slot_of_index:
  assumes "0 \<le> v" and "v < 2 ^ 63"
  shows "slot_low (index_of v) \<le> v" and "v \<le> slot_high (index_of v)"
proof -
  have "slot_low (index_of v) \<le> v \<and> v \<le> slot_high (index_of v)"
  proof (cases "v < 128")
    case True
    then show ?thesis by (simp add: index_of_small slot_edges_small)
  next
    case False
    with assms obtain k where k: "2 ^ (k + 7) \<le> v" "v < 2 ^ (k + 8)" "k \<le> 55"
      using octave_exists [of v] by (metis not_less)
    let ?q = "v div 2 ^ k"
    note q = octave_quotient [OF k(1,2)]
    have i: "index_of v = 128 * int k + ?q" using k by (rule index_of_octave)
    have "?q div 128 = 1" using q by linarith
    then have "(128 * int k + ?q) div 128 = int k + 1" by simp
    moreover have "(128 * int k + ?q) mod 128 = ?q - 128"
      using \<open>?q div 128 = 1\<close> div_mult_mod_eq [of ?q 128] by simp
    ultimately have e: "slot_low (index_of v) = ?q * 2 ^ k"
      "slot_high (index_of v) = (?q + 1) * 2 ^ k - 1"
      using slot_edges_large [of "index_of v"] i q by simp_all
    have "?q * 2 ^ k \<le> v" "v < (?q + 1) * 2 ^ k"
      by (rule div_mult_bounds; simp)+
    then show ?thesis unfolding e by simp
  qed
  then show "slot_low (index_of v) \<le> v" and "v \<le> slot_high (index_of v)" by auto
qed

lemma index_of_slot:
  assumes "0 \<le> i" and "slot_low i \<le> v" and "v \<le> slot_high i" and "v < 2 ^ 63"
  shows "index_of v = i"
proof (cases "i < 128")
  case True
  with assms show ?thesis by (simp add: slot_edges_small index_of_small)
next
  case False
  define k where "k = nat (i div 128 - 1)"
  let ?m = "i mod 128"
  have e: "(?m + 128) * 2 ^ k \<le> v" "v < (?m + 129) * 2 ^ k"
    using slot_edges_large [of i] False assms(2,3) by (simp_all add: k_def)
  have q: "v div 2 ^ k = ?m + 128"
    using e by (intro int_div_pos_eq [of _ _ _ "v - (?m + 128) * 2 ^ k"]) (simp_all add: algebra_simps)
  have "128 * 2 ^ k \<le> (?m + 128) * (2::int) ^ k" by (intro mult_right_mono) auto
  with e(1) have "128 * 2 ^ k \<le> v" by (rule order_trans [rotated])
  then have low: "2 ^ (k + 7) \<le> v" by (simp add: power_add mult.commute)
  have "(?m + 129) * 2 ^ k \<le> 256 * (2::int) ^ k"
    using pos_mod_bound [of 128 i] by (intro mult_right_mono) auto
  with e(2) have "v < 256 * 2 ^ k" by (rule order_less_le_trans)
  then have high: "v < 2 ^ (k + 8)" by (simp add: power_add mult.commute)
  from low assms(4) have "(2::int) ^ (k + 7) < 2 ^ 63" by (rule order_le_less_trans)
  then have "k + 7 < 63" by (rule power_less_imp_less_exp [rotated]) simp
  then have "k \<le> 55" by simp
  from index_of_octave [OF low high this] q
  have "index_of v = 128 * int k + ?m + 128" by simp
  also have "int k = i div 128 - 1" using False by (simp add: k_def)
  finally show ?thesis using div_mult_mod_eq [of i 128] by simp
qed

lemma slot_edges_at:
  assumes "1 \<le> q" and "0 \<le> r" and "r < 128"
  shows "slot_low (128 * q + r) = (r + 128) * 2 ^ nat (q - 1)"
    and "slot_high (128 * q + r) = (r + 129) * 2 ^ nat (q - 1) - 1"
proof -
  have "(128 * q + r) div 128 = q" "(128 * q + r) mod 128 = r" "128 \<le> 128 * q + r"
    using assms by simp_all
  then show "slot_low (128 * q + r) = (r + 128) * 2 ^ nat (q - 1)"
    and "slot_high (128 * q + r) = (r + 129) * 2 ^ nat (q - 1) - 1"
    by (simp_all only: slot_edges_large)
qed

lemma slot_low_Suc:
  assumes "0 \<le> i"
  shows "slot_low (i + 1) = slot_high i + 1"
proof -
  consider "i < 127" | "i = 127" | q r where "i = 128 * q + r" "1 \<le> q" "0 \<le> r" "r < 128"
  proof (cases "128 \<le> i")
    case True
    then have "1 \<le> i div 128" by simp
    then show ?thesis using that(3) [of "i div 128" "i mod 128"] by simp
  qed (use that in linarith)
  then show ?thesis
  proof cases
    case 1
    then show ?thesis by (simp add: slot_edges_small)
  next
    case 2
    then show ?thesis using slot_edges_at(1) [of 1 0] slot_edges_small(2) [of 127] by simp
  next
    case (3 q r)
    show ?thesis
    proof (cases "r = 127")
      case True
      have "slot_low (i + 1) = 128 * 2 ^ nat q"
        using slot_edges_at(1) [of "q + 1" 0] 3 True by (simp add: algebra_simps)
      moreover have "slot_high i = 256 * 2 ^ nat (q - 1) - 1"
        using slot_edges_at(2) [of q r] 3 True by simp
      moreover have "nat q = Suc (nat (q - 1))" using 3 by linarith
      ultimately show ?thesis by simp
    next
      case False
      have "slot_low (i + 1) = (r + 129) * 2 ^ nat (q - 1)"
        using slot_edges_at(1) [of q "r + 1"] 3 False by (simp add: add.assoc)
      then show ?thesis using slot_edges_at(2) [of q r] 3 by simp
    qed
  qed
qed

lemma slot_low_le_high: "0 \<le> i \<Longrightarrow> slot_low i \<le> slot_high i"
proof (cases "i < 128")
  case False
  let ?k = "nat (i div 128 - 1)"
  have "(1::int) \<le> 2 ^ ?k" by simp
  with False show ?thesis by (simp add: slot_edges_large distrib_right)
qed (simp add: slot_edges_small)

lemma slot_low_mono: "0 \<le> i \<Longrightarrow> slot_low i \<le> slot_low (i + int n)"
proof (induction n)
  case (Suc n)
  have "slot_low (i + int n) \<le> slot_low (i + int n + 1)"
    using slot_low_Suc [of "i + int n"] slot_low_le_high [of "i + int n"] Suc.prems by simp
  with Suc show ?case by (simp add: add.assoc add.commute [of 1])
qed simp

lemma slot_high_less:
  assumes "0 \<le> i" and "i < j"
  shows "slot_high i < slot_low j"
  using slot_low_mono [of "i + 1" "nat (j - i - 1)"] slot_low_Suc [of i] assms by simp

lemma slot_high_mono:
  assumes "0 \<le> i" and "i \<le> j"
  shows "slot_high i \<le> slot_high j"
  using slot_high_less [of i j] slot_low_le_high [of j] assms by (cases "i = j") auto

lemma index_of_mono:
  assumes "0 \<le> v" and "v \<le> w" and "w < 2 ^ 63"
  shows "index_of v \<le> index_of w"
proof (rule ccontr)
  assume "\<not> ?thesis"
  then have "slot_high (index_of w) < slot_low (index_of v)"
    using assms by (intro slot_high_less index_of_nonneg) auto
  with slot_of_index [of v] slot_of_index [of w] assms show False by simp
qed

lemma kCount_eq: "kCount = 3808"
  using index_of_octave [of 28 60000000000] by (simp add: kCount_def kMaxValue_def)

lemma index_of_lt_kCount:
  assumes "0 \<le> v" and "v \<le> kMaxValue"
  shows "index_of v < kCount"
  using index_of_mono [of v kMaxValue] assms by (simp add: kCount_def kMaxValue_def)

lemma slot_high_error:
  assumes "0 \<le> v" and "v < 2 ^ 63"
  shows "(slot_high (index_of v) - v) * 128 \<le> v"
proof (cases "v < 128")
  case True
  with assms show ?thesis by (simp add: index_of_small slot_edges_small)
next
  case False
  let ?i = "index_of v"
  let ?k = "nat (?i div 128 - 1)"
  have i: "128 \<le> ?i"
    using index_of_mono [of 128 v] False assms by (simp add: index_of_octave [of 0])
  note e = slot_edges_large [OF i]
  have low: "slot_low ?i \<le> v" using assms by (rule slot_of_index)
  have "128 * 2 ^ ?k \<le> slot_low ?i" unfolding e by (intro mult_right_mono) auto
  moreover have "slot_high ?i = slot_low ?i + 2 ^ ?k - 1"
    unfolding e by (simp only: distrib_right)
  ultimately obtain p where p: "128 * p \<le> slot_low ?i" "slot_high ?i = slot_low ?i + p - 1"
    by blast
  show ?thesis unfolding p(2) using p(1) low by (simp add: algebra_simps)
qed

end
