(* ===== verification/IEEE_Double.thy ===== *)
theory IEEE_Double
  imports Errors "HOL-Library.Log_Nat"
begin

text \<open>
  IEEE 754 binary64, the \<open>double\<close> of the code, executable over the rationals. A finite
  double is its exact rational value; every arithmetic operation computes the exact
  rational result and rounds it once, to nearest with ties to even, with gradual underflow
  and overflow to infinity. Not represented: the sign of a zero, which is taken to be positive;
  only a division by a zero and a text observe it, and the zeros the code divides by are converted integers.
\<close>

datatype double = Fin rat | Infinity bool | NaN

text \<open>The exponent: \<open>2 powi expo x \<le> x < 2 powi (expo x + 1)\<close> for positive \<open>x\<close>.\<close>

definition expo :: "rat \<Rightarrow> int" where
  "expo x =
     (let (p, q) = quotient_of x; k = bitlen p - bitlen q
      in if 2 powi k \<le> x then k else k - 1)"

definition round_half_even :: "rat \<Rightarrow> int" where
  "round_half_even y =
     (let f = \<lfloor>y\<rfloor>; d = y - of_int f
      in if d < 1 / 2 then f else if 1 / 2 < d then f + 1 else if even f then f else f + 1)"

text \<open>The spacing of the doubles of \<open>x\<close>'s binade (53 significant bits, least exponent -1074).\<close>

definition ulp :: "rat \<Rightarrow> rat" where
  "ulp x = 2 powi (max (expo x - 52) (- 1074))"

definition rnd_pos :: "rat \<Rightarrow> rat" where
  "rnd_pos x = of_int (round_half_even (x / ulp x)) * ulp x"

definition rnd :: "rat \<Rightarrow> rat" where
  "rnd x = (if x = 0 then 0 else if x < 0 then - rnd_pos (- x) else rnd_pos x)"

definition to_double :: "rat \<Rightarrow> double" where
  "to_double x =
     (let y = rnd x in if 2 ^ 1024 \<le> \<bar>y\<bar> then Infinity (x < 0) else Fin y)"

fun d_neg :: "double \<Rightarrow> bool" where
  "d_neg (Fin a) = (a < 0)"
| "d_neg (Infinity s) = s"
| "d_neg NaN = False"

fun d_isfinite :: "double \<Rightarrow> bool" where
  "d_isfinite (Fin _) = True"
| "d_isfinite _ = False"

fun d_mul :: "double \<Rightarrow> double \<Rightarrow> double" where
  "d_mul (Fin a) (Fin b) = to_double (a * b)"
| "d_mul NaN _ = NaN"
| "d_mul _ NaN = NaN"
| "d_mul a b = (if a = Fin 0 \<or> b = Fin 0 then NaN else Infinity (d_neg a \<noteq> d_neg b))"

fun d_div :: "double \<Rightarrow> double \<Rightarrow> double" where
  "d_div (Fin a) (Fin b) =
     (if b = 0 then if a = 0 then NaN else Infinity (a < 0) else to_double (a / b))"
| "d_div (Infinity s) (Fin b) = Infinity (s \<noteq> (b < 0))"
| "d_div (Fin a) (Infinity s) = Fin 0"
| "d_div _ _ = NaN"

fun d_add :: "double \<Rightarrow> double \<Rightarrow> double" where
  "d_add (Fin a) (Fin b) = to_double (a + b)"
| "d_add (Infinity s) (Infinity t) = (if s = t then Infinity s else NaN)"
| "d_add (Infinity s) (Fin _) = Infinity s"
| "d_add (Fin _) (Infinity s) = Infinity s"
| "d_add _ _ = NaN"

fun d_minus :: "double \<Rightarrow> double" where
  "d_minus (Fin a) = Fin (- a)"
| "d_minus (Infinity s) = Infinity (\<not> s)"
| "d_minus NaN = NaN"

definition d_sub :: "double \<Rightarrow> double \<Rightarrow> double" where
  "d_sub x y = d_add x (d_minus y)"

text \<open>Comparisons are false on a NaN.\<close>

fun d_less :: "double \<Rightarrow> double \<Rightarrow> bool" where
  "d_less (Fin a) (Fin b) = (a < b)"
| "d_less (Infinity s) (Infinity t) = (s \<and> \<not> t)"
| "d_less (Infinity s) (Fin _) = s"
| "d_less (Fin _) (Infinity t) = (\<not> t)"
| "d_less _ _ = False"

fun d_le :: "double \<Rightarrow> double \<Rightarrow> bool" where
  "d_le (Fin a) (Fin b) = (a \<le> b)"
| "d_le (Infinity s) (Infinity t) = (s \<or> \<not> t)"
| "d_le (Infinity s) (Fin _) = s"
| "d_le (Fin _) (Infinity t) = (\<not> t)"
| "d_le _ _ = False"

definition d_of_u64 :: "u64 \<Rightarrow> double" where
  "d_of_u64 w = to_double (of_nat (unat w))"

definition d_of_i64 :: "int \<Rightarrow> double" where
  "d_of_i64 v = to_double (of_int v)"

fun d_ceil :: "double \<Rightarrow> double" where
  "d_ceil (Fin a) = Fin (of_int \<lceil>a\<rceil>)"
| "d_ceil d = d"

text \<open>Truncation towards zero, as a conversion to an integer type does, and the two
  conversions the code uses; a value the type cannot hold is undefined behaviour.\<close>

definition trunc :: "rat \<Rightarrow> int" where
  "trunc a = (if a < 0 then \<lceil>a\<rceil> else \<lfloor>a\<rfloor>)"

fun cast_u64 :: "double \<Rightarrow> u64 result" where
  "cast_u64 (Fin a) =
     (if 0 \<le> trunc a \<and> trunc a < 2 ^ 64 then Inr (word_of_int (trunc a))
      else Inl (Undefined ''double to uint64_t''))"
| "cast_u64 _ = Inl (Undefined ''double to uint64_t'')"

fun cast_i64 :: "double \<Rightarrow> int result" where
  "cast_i64 (Fin a) =
     (if int64_ok (trunc a) then Inr (trunc a) else Inl (Undefined ''double to int64_t''))"
| "cast_i64 _ = Inl (Undefined ''double to int64_t'')"

text \<open>\<open>llround\<close>: to nearest, halves away from zero.\<close>

definition round_half_away :: "rat \<Rightarrow> int" where
  "round_half_away a = (if a < 0 then \<lceil>a - 1 / 2\<rceil> else \<lfloor>a + 1 / 2\<rfloor>)"

fun llround :: "double \<Rightarrow> int result" where
  "llround (Fin a) =
     (if int64_ok (round_half_away a) then Inr (round_half_away a)
      else Inl (Undefined ''llround out of range''))"
| "llround _ = Inl (Undefined ''llround of a non-finite value'')"

subsection \<open>The exponent\<close>

lemma powi_add: "(2::rat) powi (a + b) = 2 powi a * 2 powi b"
  by (simp add: power_int_add)

lemma powi_pos [simp]: "0 < (2::rat) powi k"
  by simp

lemma powi_less_iff: "(2::rat) powi a < 2 powi b \<longleftrightarrow> a < b"
proof (cases "a < b")
  case False
  then show ?thesis using power_int_increasing [of b a "2::rat"] by simp
qed (simp add: power_int_strict_increasing)

lemma powi_le_iff: "(2::rat) powi a \<le> 2 powi b \<longleftrightarrow> a \<le> b"
  using powi_less_iff [of b a] by (simp add: not_less [symmetric])

lemma powi_nat: "(2::rat) powi (int n) = 2 ^ n"
  by simp

lemma powi_Ints: "0 \<le> k \<Longrightarrow> (2::rat) powi k = of_int (2 ^ nat k)"
  by (simp add: power_int_def)

lemma bitlen_powi:
  assumes "0 < p"
  shows "2 powi (bitlen p - 1) \<le> (of_int p :: rat)" and "(of_int p :: rat) < 2 powi bitlen p"
proof -
  from bitlen_bounds [OF assms]
  have b: "2 ^ nat (bitlen p - 1) \<le> p" "p < 2 ^ nat (bitlen p)" by simp_all
  from b(1) have "(of_int (2 ^ nat (bitlen p - 1)) :: rat) \<le> of_int p" by (simp only: of_int_le_iff)
  moreover have "0 \<le> bitlen p - 1"
    using assms bitlen_nonneg [of p] bitlen_eq_zero_iff [of p] by linarith
  ultimately show "2 powi (bitlen p - 1) \<le> (of_int p :: rat)" by (simp add: powi_Ints)
  from b(2) have "(of_int p :: rat) < of_int (2 ^ nat (bitlen p))" by (simp only: of_int_less_iff)
  then show "(of_int p :: rat) < 2 powi bitlen p" by (simp add: powi_Ints bitlen_nonneg)
qed

lemma expo_bounds:
  assumes "0 < x"
  shows "2 powi expo x \<le> x" and "x < 2 powi (expo x + 1)"
proof -
  obtain p q where pq: "quotient_of x = (p, q)" by fastforce
  have q: "0 < q" using quotient_of_denom_pos [OF pq] .
  have x: "x = of_int p / of_int q" using quotient_of_div [OF pq] .
  have p: "0 < p" using assms q unfolding x by (simp add: zero_less_divide_iff)
  define k where "k = bitlen p - bitlen q"
  have "2 powi (k - 1) * 2 powi bitlen q = (2::rat) powi (bitlen p - 1)"
    by (simp add: k_def flip: powi_add)
  moreover have "2 powi (k - 1) * of_int q < 2 powi (k - 1) * (2::rat) powi bitlen q"
    using bitlen_powi(2) [OF q] by simp
  ultimately have "2 powi (k - 1) * of_int q < (of_int p :: rat)"
    using bitlen_powi(1) [OF p] by simp
  then have lo: "2 powi (k - 1) < x" using q by (simp add: x field_simps)
  have "2 powi (k + 1) * 2 powi (bitlen q - 1) = (2::rat) powi bitlen p"
    by (simp add: k_def flip: powi_add)
  moreover have "2 powi (k + 1) * (2::rat) powi (bitlen q - 1) \<le> 2 powi (k + 1) * of_int q"
    using bitlen_powi(1) [OF q] by simp
  ultimately have "(of_int p :: rat) < 2 powi (k + 1) * of_int q"
    using bitlen_powi(2) [OF p] by simp
  then have hi: "x < 2 powi (k + 1)" using q by (simp add: x field_simps)
  have "expo x = (if 2 powi k \<le> x then k else k - 1)"
    by (simp add: expo_def pq k_def Let_def)
  with lo hi show "2 powi expo x \<le> x" and "x < 2 powi (expo x + 1)"
    by (auto split: if_splits)
qed

lemma expo_le: "0 < x \<Longrightarrow> x < 2 powi (k + 1) \<Longrightarrow> expo x \<le> k"
  using expo_bounds(1) [of x] powi_less_iff [of "expo x" "k + 1"] by auto

lemma expo_ge: "0 < x \<Longrightarrow> 2 powi k \<le> x \<Longrightarrow> k \<le> expo x"
  using expo_bounds(2) [of x] powi_less_iff [of k "expo x + 1"] by auto

lemma expo_mono: "0 < x \<Longrightarrow> x \<le> y \<Longrightarrow> expo x \<le> expo y"
  using expo_bounds(1) [of x] by (intro expo_ge) auto

lemma ulp_pos [simp]: "0 < ulp x"
  by (simp add: ulp_def)

lemma ulp_nonzero [simp]: "ulp x \<noteq> 0"
  using ulp_pos [of x] by (simp del: ulp_pos)

subsection \<open>Rounding to an integer, ties to even\<close>

lemma round_half_even_error: "\<bar>of_int (round_half_even y) - y\<bar> \<le> 1 / 2"
proof -
  have "of_int \<lfloor>y\<rfloor> \<le> y" "y < of_int \<lfloor>y\<rfloor> + 1" by linarith+
  then show ?thesis unfolding round_half_even_def Let_def abs_le_iff
    by (simp split: if_split) linarith
qed

lemma round_half_even_of_int [simp]: "round_half_even (of_int k) = k"
  by (simp add: round_half_even_def)

lemma round_half_even_bounds: "\<lfloor>y\<rfloor> \<le> round_half_even y" "round_half_even y \<le> \<lfloor>y\<rfloor> + 1"
  by (auto simp: round_half_even_def Let_def)

lemma round_half_even_nearest:
  assumes "\<bar>y - of_int n\<bar> * 2 < 1"
  shows "round_half_even y = n"
proof -
  have "\<bar>of_int (round_half_even y) - of_int n\<bar>
      \<le> \<bar>of_int (round_half_even y) - y\<bar> + \<bar>y - of_int n\<bar>"
    using abs_triangle_ineq [of "of_int (round_half_even y) - y" "y - of_int n"] by simp
  also have "\<dots> < 1 / 2 + 1 / 2"
    by (rule add_le_less_mono [OF round_half_even_error]) (use assms in simp)
  finally have "\<bar>of_int (round_half_even y) - (of_int n :: rat)\<bar> < 1" by simp
  then have "(of_int \<bar>round_half_even y - n\<bar> :: rat) < of_int 1" by simp
  then show ?thesis by (simp only: of_int_less_iff)
qed

lemma round_half_even_mono:
  assumes "y \<le> z"
  shows "round_half_even y \<le> round_half_even z"
proof (cases "\<lfloor>y\<rfloor> = \<lfloor>z\<rfloor>")
  case True
  with assms show ?thesis by (auto simp: round_half_even_def Let_def)
next
  case False
  with assms have "\<lfloor>y\<rfloor> + 1 \<le> \<lfloor>z\<rfloor>" using floor_mono [OF assms] by linarith
  then show ?thesis using round_half_even_bounds [of y] round_half_even_bounds [of z] by linarith
qed

subsection \<open>Rounding to a double\<close>

lemma rnd_pos_error: "\<bar>rnd_pos x - x\<bar> \<le> ulp x / 2"
proof -
  have "\<bar>of_int (round_half_even (x / ulp x)) - x / ulp x\<bar> * ulp x \<le> 1 / 2 * ulp x"
    by (intro mult_right_mono round_half_even_error) (simp add: less_imp_le)
  then have "\<bar>(of_int (round_half_even (x / ulp x)) - x / ulp x) * ulp x\<bar> \<le> ulp x / 2"
    by (simp add: abs_mult less_imp_le)
  then show ?thesis by (simp add: rnd_pos_def left_diff_distrib)
qed

text \<open>A value that is a multiple of its own spacing is not changed.\<close>

lemma rnd_pos_exact: "x = of_int n * ulp x \<Longrightarrow> rnd_pos x = x"
  using ulp_pos [of x] by (metis nonzero_mult_div_cancel_right order_less_irrefl rnd_pos_def round_half_even_of_int)

lemma powi_multiple:
  assumes "j \<le> e"
  shows "\<exists>n. of_int k * (2::rat) powi e = of_int n * 2 powi j"
proof
  show "of_int k * (2::rat) powi e = of_int (k * 2 ^ nat (e - j)) * 2 powi j"
    using assms powi_Ints [of "e - j"] powi_add [of "e - j" j] by simp
qed

lemma rnd_pos_representable:
  assumes "0 < k" and "k \<le> 2 ^ 53" and "- 1074 \<le> e"
  shows "rnd_pos (of_int k * 2 powi e) = of_int k * 2 powi e"
proof -
  let ?x = "of_int k * (2::rat) powi e"
  have "\<exists>n. ?x = of_int n * ulp ?x"
  proof (cases "k = 2 ^ 53")
    case True
    then have x: "?x = 2 powi (e + 53)" by (simp add: powi_add)
    have "expo ?x = e + 53"
      unfolding x by (intro antisym expo_le expo_ge) (simp_all add: powi_less_iff)
    then have "ulp ?x = 2 powi (e + 1)" using assms(3) by (simp add: ulp_def max_def add.commute)
    then show ?thesis using powi_multiple [of "e + 1" "e + 53" 1] x by simp
  next
    case False
    with assms(2) have "(of_int k :: rat) < 2 ^ 53"
      by (metis of_int_less_iff of_int_numeral of_int_power order_le_less)
    then have "?x < 2 ^ 53 * 2 powi e" by simp
    also have "(2::rat) ^ 53 * 2 powi e = 2 powi (e + 52 + 1)" by (simp add: powi_add)
    finally have "expo ?x \<le> e + 52" using assms(1) by (intro expo_le) auto
    then have "max (expo ?x - 52) (- 1074) \<le> e" using assms(3) by simp
    then show ?thesis unfolding ulp_def by (rule powi_multiple)
  qed
  then show ?thesis by (auto intro: rnd_pos_exact)
qed

lemma rnd_pos_mono:
  assumes "0 < x" and "x \<le> y"
  shows "rnd_pos x \<le> rnd_pos y"
proof (cases "ulp x = ulp y")
  case True
  have "x / ulp y \<le> y / ulp y" using assms(2) by (simp add: divide_right_mono less_imp_le)
  then show ?thesis
    using True by (simp add: rnd_pos_def round_half_even_mono mult_right_mono less_imp_le)
next
  case False
  define E where "E = expo y"
  have "expo x \<le> E" using assms expo_mono by (simp add: E_def)
  moreover have "expo x \<noteq> E" using False by (auto simp: ulp_def E_def)
  moreover have "\<not> E - 52 \<le> - 1074"
    using False \<open>expo x \<le> E\<close> by (auto simp: ulp_def E_def)
  ultimately have E: "expo x + 1 \<le> E" "- 1074 < E - 52" by linarith+
  have uy: "ulp y = 2 powi (E - 52)" using E(2) by (simp add: ulp_def E_def)
  let ?B = "(2::rat) powi E"
  have le: "x \<le> ?B" "?B \<le> y"
    using expo_bounds(2) [OF assms(1)] expo_bounds(1) [of y] E(1) assms powi_le_iff [of "expo x + 1" E]
    by (auto simp: E_def)
  have "max (expo x - 52) (- 1074) \<le> E" using E by simp
  from powi_multiple [OF this, of 1] obtain n where n: "?B = of_int n * ulp x"
    by (auto simp: ulp_def)
  have "round_half_even (x / ulp x) \<le> n"
    using round_half_even_mono [of "x / ulp x" "of_int n"] le(1) n by (simp add: pos_divide_le_eq)
  then have "rnd_pos x \<le> of_int n * ulp x"
    unfolding rnd_pos_def by (intro mult_right_mono) (simp_all add: less_imp_le)
  also have "\<dots> = ?B" by (rule n [symmetric])
  also have "?B \<le> rnd_pos y"
  proof -
    obtain m where m: "?B = of_int m * ulp y"
      using powi_multiple [of "E - 52" E 1] by (auto simp: uy)
    have "m \<le> round_half_even (y / ulp y)"
      using round_half_even_mono [of "of_int m" "y / ulp y"] le(2) m by (simp add: pos_le_divide_eq)
    then show ?thesis
      unfolding rnd_pos_def m by (intro mult_right_mono) (simp_all add: less_imp_le)
  qed
  finally show ?thesis .
qed

lemma rnd_pos_nonneg: "0 < x \<Longrightarrow> 0 \<le> rnd_pos x"
proof -
  assume "0 < x"
  then have "0 \<le> x / ulp x" by (simp add: less_imp_le)
  from round_half_even_mono [OF this] round_half_even_of_int [of 0]
  show ?thesis by (simp add: rnd_pos_def less_imp_le)
qed

lemma rnd_0 [simp]: "rnd 0 = 0"
  by (simp add: rnd_def)

lemma rnd_minus [simp]: "rnd (- x) = - rnd x"
  by (simp add: rnd_def)

lemma rnd_nonneg [simp]: "0 \<le> x \<Longrightarrow> 0 \<le> rnd x"
  by (simp add: rnd_def rnd_pos_nonneg)

lemma rnd_nonpos: "x \<le> 0 \<Longrightarrow> rnd x \<le> 0"
  using rnd_nonneg [of "- x"] by simp

theorem rnd_mono: "x \<le> y \<Longrightarrow> rnd x \<le> rnd y"
proof -
  assume le: "x \<le> y"
  consider "0 < x" | "y < 0" | "x \<le> 0" "0 \<le> y" by linarith
  then show ?thesis
  proof cases
    case 1
    with le show ?thesis by (simp add: rnd_def rnd_pos_mono)
  next
    case 2
    with le rnd_pos_mono [of "- y" "- x"] show ?thesis by (simp add: rnd_def)
  next
    case 3
    then show ?thesis using rnd_nonpos [of x] rnd_nonneg [of y] by linarith
  qed
qed

lemma rnd_pos_eq: "0 < x \<Longrightarrow> rnd x = rnd_pos x"
  by (simp add: rnd_def)

lemma rnd_representable:
  assumes "\<bar>k\<bar> \<le> 2 ^ 53" and "- 1074 \<le> e"
  shows "rnd (of_int k * 2 powi e) = of_int k * 2 powi e"
proof -
  consider "k = 0" | "0 < k" | "k < 0" by linarith
  then show ?thesis
  proof cases
    case 2
    then have "0 < of_int k * (2::rat) powi e" by simp
    then have "rnd (of_int k * 2 powi e) = rnd_pos (of_int k * 2 powi e)" by (rule rnd_pos_eq)
    then show ?thesis using 2 assms by (simp add: rnd_pos_representable)
  next
    case 3
    then have "0 < of_int (- k) * (2::rat) powi e" by (intro mult_pos_pos) auto
    then have "rnd (of_int (- k) * 2 powi e) = rnd_pos (of_int (- k) * 2 powi e)" by (rule rnd_pos_eq)
    also have "\<dots> = of_int (- k) * 2 powi e"
      using 3 assms by (intro rnd_pos_representable) auto
    finally show ?thesis by simp
  qed simp
qed

lemma rnd_of_int: "\<bar>k\<bar> \<le> 2 ^ 53 \<Longrightarrow> rnd (of_int k) = of_int k"
  using rnd_representable [of k 0] by simp

lemma rnd_of_nat: "n \<le> 2 ^ 53 \<Longrightarrow> rnd (of_nat n) = of_nat n"
  using rnd_of_int [of "int n"] by simp

lemma rnd_powi: "- 1074 \<le> e \<Longrightarrow> rnd (2 powi e) = 2 powi e"
  using rnd_representable [of 1 e] by simp

lemma rnd_upper: "x \<le> z \<Longrightarrow> rnd z = z \<Longrightarrow> rnd x \<le> z"
  using rnd_mono [of x z] by simp

lemma rnd_lower: "z \<le> x \<Longrightarrow> rnd z = z \<Longrightarrow> z \<le> rnd x"
  using rnd_mono [of z x] by simp

text \<open>The error of one rounding, absolute and relative to a normal value.\<close>

lemma rnd_error: "\<bar>rnd x - x\<bar> \<le> ulp \<bar>x\<bar> / 2"
proof -
  consider "x = 0" | "0 < x" | "x < 0" by linarith
  then show ?thesis
  proof cases
    case 1
    then show ?thesis by (simp add: less_imp_le)
  next
    case 2
    then show ?thesis using rnd_pos_error [of x] by (simp add: rnd_def)
  next
    case 3
    then have "rnd x - x = - (rnd_pos (- x) - (- x))" "\<bar>x\<bar> = - x" by (simp_all add: rnd_def)
    then show ?thesis using rnd_pos_error [of "- x"] by (simp only: abs_minus_cancel)
  qed
qed

lemma ulp_normal:
  assumes "2 powi (- 1022) \<le> x"
  shows "ulp x \<le> x * 2 powi (- 52)"
proof -
  have pos: "0 < x" using assms powi_pos [of "- 1022"] by linarith
  have "- 1022 \<le> expo x" by (rule expo_ge [OF pos assms])
  then have "ulp x = 2 powi expo x * 2 powi (- 52)" by (simp only: powi_add [symmetric] ulp_def) simp
  also have "\<dots> \<le> x * 2 powi (- 52)"
    by (intro mult_right_mono expo_bounds(1) pos) simp
  finally show ?thesis .
qed

lemma rnd_relative_error:
  assumes "2 powi (- 1022) \<le> x"
  shows "\<bar>rnd x - x\<bar> \<le> x * 2 powi (- 53)"
proof -
  have pos: "0 < x" using assms powi_pos [of "- 1022"] by linarith
  have "\<bar>rnd x - x\<bar> \<le> ulp x / 2" using rnd_error [of x] pos by simp
  also have "\<dots> \<le> x * 2 powi (- 52) / 2" using ulp_normal [OF assms] by simp
  also have "\<dots> = x * 2 powi (- 53)" by simp
  finally show ?thesis .
qed

lemma to_double_Fin: "\<bar>x\<bar> \<le> 2 ^ 1023 \<Longrightarrow> to_double x = Fin (rnd x)"
proof -
  assume x: "\<bar>x\<bar> \<le> 2 ^ 1023"
  have e: "rnd (2 ^ 1023) = (2 ^ 1023 :: rat)" using rnd_powi [of 1023] by simp
  have "rnd x \<le> 2 ^ 1023" using x by (intro rnd_upper e) simp
  moreover have "rnd (- x) \<le> 2 ^ 1023" using x by (intro rnd_upper e) simp
  ultimately have "\<bar>rnd x\<bar> \<le> 2 ^ 1023" by simp
  moreover have "(2::rat) ^ 1023 < 2 ^ 1024" by (rule power_strict_increasing) simp_all
  ultimately have "\<bar>rnd x\<bar> < 2 ^ 1024" by (rule order_le_less_trans)
  then show ?thesis by (simp add: to_double_def Let_def not_le [symmetric])
qed

lemma d_of_u64_Fin: "d_of_u64 w = Fin (rnd (of_nat (unat w)))"
proof -
  have "(of_nat (unat w) :: rat) \<le> of_nat (2 ^ 64)"
    by (simp only: of_nat_le_iff) (simp add: less_imp_le)
  also have "(of_nat (2 ^ 64) :: rat) \<le> 2 ^ 1023"
    unfolding of_nat_power of_nat_numeral by (rule power_increasing) simp_all
  finally have "\<bar>of_nat (unat w) :: rat\<bar> \<le> 2 ^ 1023"
    by (simp only: abs_of_nat)
  then show ?thesis unfolding d_of_u64_def by (rule to_double_Fin)
qed

text \<open>Evaluating a rounding at a concrete value: the binade, and the nearest multiple of its
  spacing.\<close>

lemma rnd_eqI:
  assumes "2 powi e \<le> x" and "x < 2 powi (e + 1)" and "- 1022 \<le> e"
    and "\<bar>x - of_int n * 2 powi (e - 52)\<bar> * 2 < 2 powi (e - 52)"
  shows "rnd x = of_int n * 2 powi (e - 52)"
proof -
  let ?u = "(2::rat) powi (e - 52)"
  have pos: "0 < x" using assms(1) powi_pos [of e] by linarith
  have "expo x = e"
    by (rule antisym; (rule expo_le expo_ge)?) (use pos assms in auto)
  then have u: "ulp x = ?u" using assms(3) by (simp add: ulp_def)
  have "\<bar>x / ?u - of_int n\<bar> * ?u = \<bar>x - of_int n * ?u\<bar>"
    by (simp add: abs_mult_pos less_imp_le left_diff_distrib)
  then have "\<bar>x / ?u - of_int n\<bar> * ?u * 2 < ?u" using assms(4) by (simp only:)
  then have "\<bar>x / ?u - of_int n\<bar> * 2 * ?u < 1 * ?u" by (simp only: mult_ac mult_1)
  then have d: "\<bar>x / ?u - of_int n\<bar> * 2 < 1"
    by (simp only: mult_less_cancel_right_pos powi_pos)
  then have "round_half_even (x / ?u) = n" by (rule round_half_even_nearest)
  then have "rnd_pos x = of_int n * ?u" by (simp add: rnd_pos_def u)
  with pos show ?thesis by (simp add: rnd_pos_eq)
qed

text \<open>The error in terms of a power of two above the value.\<close>

lemma rnd_error_below:
  assumes "0 \<le> x" and "x \<le> 2 powi k" and "- 1022 \<le> k"
  shows "\<bar>rnd x - x\<bar> \<le> 2 powi (k - 53)"
proof (cases "x = 0")
  case False
  with assms(1) have pos: "0 < x" by simp
  have "expo x \<le> k"
    using assms(2) powi_less_iff [of k "k + 1"] by (intro expo_le [OF pos]) linarith
  then have "ulp x \<le> 2 powi (k - 52)" using assms(3) by (simp add: ulp_def powi_le_iff)
  then have "ulp x / 2 \<le> 2 powi (k - 53)"
    using powi_add [of "k - 53" 1] by simp
  with rnd_error [of x] pos show ?thesis by simp
qed simp

end
