(* ===== verification/Histogram.thy ===== *)
theory Histogram
  imports Buckets IEEE_Double "HOL-Library.Multiset"
begin

text \<open>
  The latency histogram of \<open>src/stats/histogram.hpp\<close> and \<open>histogram.cpp\<close>: the counters
  as the code keeps them (3,808 wrapping 64-bit slots, a total, an overflow counter and the
  exact maximum), \<open>record\<close>, \<open>percentile\<close> and \<open>merge\<close>.

  The abstract specification is the multiset of the recorded latencies: \<open>hist_of M\<close> is the
  histogram that holds exactly \<open>M\<close>. Recording and merging refine adding to and uniting
  multisets, with no bound on the number of samples (the counters wrap as the code's do),
  and \<open>percentile\<close> refines the order statistic of the requested rank.
\<close>

record histogram =
  h_slots :: "u64 list"
  h_count :: u64
  h_overflow :: u64
  h_max :: int

definition empty_histogram :: histogram where
  "empty_histogram =
     \<lparr>h_slots = replicate (nat kCount) 0, h_count = 0, h_overflow = 0, h_max = 0\<rparr>"

definition hist_record :: "histogram \<Rightarrow> nanos \<Rightarrow> histogram result" where
  "hist_record h ns =
     (if ns < 0 then Inl (Assertion ''negative latency: the caller mixed up two clocks'')
      else
        let h1 = h\<lparr>h_count := h_count h + 1\<rparr>;
            h2 = (if h_max h1 < ns then h1\<lparr>h_max := ns\<rparr> else h1)
        in if kMaxValue < ns then Inr (h2\<lparr>h_overflow := h_overflow h2 + 1\<rparr>)
           else let i = nat (index_of ns)
                in Inr (h2\<lparr>h_slots := (h_slots h2)[i := h_slots h2 ! i + 1]\<rparr>))"

definition hist_slot :: "histogram \<Rightarrow> nat \<Rightarrow> u64" where
  "hist_slot h i = h_slots h ! i"

text \<open>The rank asked for: computed in doubles, then clamped into \<open>[1, count]\<close>.\<close>

definition clamp_u64 :: "u64 \<Rightarrow> u64 \<Rightarrow> u64 \<Rightarrow> u64" where
  "clamp_u64 v lo hi = (if v < lo then lo else if hi < v then hi else v)"

definition percentile_rank :: "double \<Rightarrow> u64 \<Rightarrow> u64 result" where
  "percentile_rank p n =
     and_then (cast_u64 (d_ceil (d_mul (d_div p (Fin 100)) (d_of_u64 n))))
       (\<lambda>r. Inr (clamp_u64 r 1 n))"

text \<open>The loop over the slots, from slot \<open>i\<close> on, with \<open>running\<close> samples below it.\<close>

fun percentile_scan :: "u64 list \<Rightarrow> int \<Rightarrow> u64 \<Rightarrow> u64 \<Rightarrow> nanos option" where
  "percentile_scan [] i running target = None"
| "percentile_scan (s # ss) i running target =
     (let running = running + s
      in if target \<le> running then Some (slot_high i)
         else percentile_scan ss (i + 1) running target)"

definition percentile :: "histogram \<Rightarrow> double \<Rightarrow> nanos option result" where
  "percentile h p =
     (if \<not> (d_le (Fin 0) p \<and> d_le p (Fin 100))
      then Inl (Assertion ''percentile must be in [0, 100]'')
      else if h_count h = 0 then Inr None
      else and_then (percentile_rank p (h_count h))
        (\<lambda>target. case percentile_scan (h_slots h) 0 0 target of
            Some v \<Rightarrow> Inr (Some v)
          | None \<Rightarrow> Inr (Some (h_max h))))"

text \<open>\<open>merge\<close> asserts that the two histograms are different objects; the model's arguments
  are values, so \<open>hist_merge h h\<close> is the merge of two distinct histograms with equal
  contents.\<close>

definition hist_merge :: "histogram \<Rightarrow> histogram \<Rightarrow> histogram" where
  "hist_merge h other =
     \<lparr>h_slots = map2 (+) (h_slots h) (h_slots other),
      h_count = h_count h + h_count other,
      h_overflow = h_overflow h + h_overflow other,
      h_max = max (h_max h) (h_max other)\<rparr>"

subsection \<open>The abstract specification\<close>

definition slot_members :: "int multiset \<Rightarrow> nat \<Rightarrow> int multiset" where
  "slot_members M i = {#l \<in># M. l \<le> kMaxValue \<and> index_of l = int i#}"

definition hist_of :: "int multiset \<Rightarrow> histogram" where
  "hist_of M =
     \<lparr>h_slots = map (\<lambda>i. of_nat (size (slot_members M i))) [0..<nat kCount],
      h_count = of_nat (size M),
      h_overflow = of_nat (size {#l \<in># M. kMaxValue < l#}),
      h_max = Max (insert 0 (set_mset M))\<rparr>"

lemma mset_eq_map:
  "mset ys = image_mset f A \<Longrightarrow> \<exists>xs. ys = map f xs \<and> mset xs = A"
proof (induction ys arbitrary: A)
  case (Cons y ys)
  then obtain x where x: "x \<in># A" "y = f x"
    by (metis imageE list.set_intros(1) set_image_mset set_mset_mset)
  with Cons.prems have "mset ys = image_mset f (A - {#x#})"
    by (metis add_mset_remove_trivial image_mset_add_mset insert_DiffM mset.simps(2))
  from Cons.IH [OF this] obtain xs where "ys = map f xs" "mset xs = A - {#x#}" by blast
  with x have "y # ys = map f (x # xs) \<and> mset (x # xs) = A" by auto
  then show ?case by (rule exI)
qed simp

text \<open>What a component that collects latencies may rely on: a sink starts empty, holds the
  multiset of what was recorded into it, and merging two sinks unites what they hold.\<close>

locale sample_sink =
  fixes empty :: 'h
    and rec :: "'h \<Rightarrow> nanos \<Rightarrow> 'h result"
    and merge :: "'h \<Rightarrow> 'h \<Rightarrow> 'h"
    and total :: "'h \<Rightarrow> u64"
    and holding :: "int multiset \<Rightarrow> 'h"
  assumes holding_empty: "holding {#} = empty"
    and rec_holding: "0 \<le> l \<Longrightarrow> rec (holding M) l = Inr (holding (add_mset l M))"
    and merge_holding: "merge (holding M) (holding N) = holding (M + N)"
    and total_holding: "total (holding M) = of_nat (size M)"
begin

lemma rec_list_from:
  "\<forall>l \<in> set ls. 0 \<le> l \<Longrightarrow> fold_result rec (holding M) ls = Inr (holding (M + mset ls))"
  by (induction ls arbitrary: M) (simp_all add: rec_holding)

lemma rec_list: "\<forall>l \<in> set ls. 0 \<le> l \<Longrightarrow> fold_result rec empty ls = Inr (holding (mset ls))"
  using rec_list_from [of ls "{#}"] by (simp add: holding_empty)

lemma merge_list_from:
  "foldl merge (holding M) (map holding Ns) = holding (M + sum_list Ns)"
  by (induction Ns arbitrary: M) (simp_all add: merge_holding add.assoc)

lemma merge_list: "foldl merge empty (map holding Ns) = holding (sum_list Ns)"
  using merge_list_from [of "{#}"] by (simp add: holding_empty)

lemma merge_comm: "merge (holding M) (holding N) = merge (holding N) (holding M)"
  by (simp add: merge_holding add.commute)

lemma total_merge: "total (merge (holding M) (holding N)) = total (holding M) + total (holding N)"
  by (simp add: merge_holding total_holding)

lemma total_rec: "0 \<le> l \<Longrightarrow> rec (holding M) l = Inr h \<Longrightarrow> total h = total (holding M) + 1"
  by (auto simp: rec_holding total_holding add.commute)

end

lemma length_hist_of [simp]: "length (h_slots (hist_of M)) = 3808"
  by (simp add: hist_of_def kCount_eq)

lemma hist_of_empty: "hist_of {#} = empty_histogram"
  by (simp add: hist_of_def empty_histogram_def slot_members_def map_replicate_const)

lemma hist_of_slot:
  "i < 3808 \<Longrightarrow> h_slots (hist_of M) ! i = of_nat (size (slot_members M i))"
  by (simp add: hist_of_def kCount_eq)

lemma h_max_add:
  "h_max (hist_of (add_mset l M)) = (if h_max (hist_of M) < l then l else h_max (hist_of M))"
proof -
  have "Max (insert l (insert 0 (set_mset M))) = max l (Max (insert 0 (set_mset M)))"
    by (rule Max_insert) auto
  then have "h_max (hist_of (add_mset l M)) = max l (h_max (hist_of M))"
    by (simp only: hist_of_def histogram.simps set_mset_add_mset_insert insert_commute [of 0])
  then show ?thesis by (simp add: max_def)
qed

lemma hist_record_hist_of:
  assumes "0 \<le> l"
  shows "hist_record (hist_of M) l = Inr (hist_of (add_mset l M))"
proof (cases "kMaxValue < l")
  case True
  then have s: "slot_members (add_mset l M) i = slot_members M i" for i
    by (simp add: slot_members_def)
  have "h_slots (hist_of (add_mset l M)) = h_slots (hist_of M)" by (simp add: hist_of_def s)
  moreover note h_max_add [of l M]
  ultimately show ?thesis
    using assms True by (simp add: hist_record_def hist_of_def Let_def add.commute)
next
  case False
  have i: "nat (index_of l) < 3808" "0 \<le> index_of l"
    using index_of_lt_kCount [of l] index_of_nonneg [of l] False assms
    by (simp_all add: kCount_eq kMaxValue_def)
  have s: "slot_members (add_mset l M) j =
      (if j = nat (index_of l) then add_mset l (slot_members M j) else slot_members M j)" for j
    using False i by (auto simp: slot_members_def)
  have "h_slots (hist_of (add_mset l M)) =
      (h_slots (hist_of M))[nat (index_of l) := h_slots (hist_of M) ! nat (index_of l) + 1]"
    by (rule nth_equalityI) (simp_all add: hist_of_slot s nth_list_update i add.commute)
  moreover note h_max_add [of l M]
  ultimately show ?thesis
    using assms False by (simp add: hist_record_def Let_def hist_of_def add.commute)
qed

lemma hist_merge_hist_of: "hist_merge (hist_of M) (hist_of N) = hist_of (M + N)"
proof -
  have "h_slots (hist_merge (hist_of M) (hist_of N)) = h_slots (hist_of (M + N))"
    by (rule nth_equalityI)
      (simp_all add: hist_merge_def hist_of_slot slot_members_def)
  moreover have "h_max (hist_merge (hist_of M) (hist_of N)) = h_max (hist_of (M + N))"
    using Max_Un [of "insert 0 (set_mset M)" "insert 0 (set_mset N)"]
    by (simp add: hist_merge_def hist_of_def)
  ultimately show ?thesis by (simp add: hist_merge_def hist_of_def)
qed

interpretation hist: sample_sink empty_histogram hist_record hist_merge h_count hist_of
  by unfold_locales
    (simp_all add: hist_of_empty hist_record_hist_of hist_merge_hist_of, simp add: hist_of_def)

subsection \<open>The rank\<close>

lemma clamp_u64_bounds:
  "lo \<le> hi \<Longrightarrow> lo \<le> clamp_u64 v lo hi \<and> clamp_u64 v lo hi \<le> hi"
  by (auto simp: clamp_u64_def not_less)

lemma unat_clamp_u64:
  "unat (clamp_u64 v lo hi) = (if unat v < unat lo then unat lo else min (unat hi) (unat v))"
  by (auto simp: clamp_u64_def word_less_nat_alt min_def)

text \<open>The value whose ceiling is the rank: a rounded quotient times an exact count, rounded.\<close>

definition rank_product :: "rat \<Rightarrow> nat \<Rightarrow> rat" where
  "rank_product p n = rnd (rnd (p / 100) * rnd (of_nat n))"

lemma rank_factor: "0 \<le> p \<Longrightarrow> p \<le> 100 \<Longrightarrow> 0 \<le> rnd (p / 100) \<and> rnd (p / 100) \<le> 1"
  using rnd_upper [of "p / 100" 1] rnd_of_int [of 1] by simp

lemma rank_product_bounds:
  assumes "0 \<le> p" "p \<le> 100" "n \<le> 2 ^ 63"
  shows "0 \<le> rank_product p n" and "rank_product p n \<le> 2 ^ 63"
proof -
  have e: "rnd (2 ^ 63) = (2 ^ 63 :: rat)" using rnd_powi [of 63] by simp
  have "(of_nat n :: rat) \<le> of_nat (2 ^ 63)" using assms(3) by (simp only: of_nat_le_iff)
  then have n: "rnd (of_nat n) \<le> 2 ^ 63" by (intro rnd_upper e) simp
  have "rnd (p / 100) * rnd (of_nat n) \<le> 1 * 2 ^ 63"
    using rank_factor [OF assms(1,2)] n by (intro mult_mono) auto
  then show "rank_product p n \<le> 2 ^ 63" unfolding rank_product_def by (intro rnd_upper e) simp
  show "0 \<le> rank_product p n"
    unfolding rank_product_def using rank_factor [OF assms(1,2)] by simp
qed

lemma percentile_rank_eq:
  assumes "0 \<le> p" "p \<le> 100" "n \<le> 2 ^ 63"
  shows "percentile_rank (Fin p) (of_nat n) =
    Inr (clamp_u64 (word_of_int \<lceil>rank_product p n\<rceil>) 1 (of_nat n))"
proof -
  let ?y = "rank_product p n"
  note b = rank_product_bounds [OF assms]
  have un: "unat (of_nat n :: u64) = n" using assms(3) by (intro unat_u64_of_nat) simp
  have f: "rnd (p / 100) * rnd (of_nat n) \<le> 1 * 2 ^ 64"
    using rank_factor [OF assms(1,2)] rnd_upper [of "of_nat n" "2 ^ 64"] rnd_powi [of 64] assms(3)
    by (intro mult_mono) (auto simp: order_trans [of "of_nat n" "2 ^ 63"])
  have "to_double (p / 100) = Fin (rnd (p / 100))"
    using assms(1,2) by (intro to_double_Fin) simp
  moreover have "to_double (rnd (p / 100) * rnd (of_nat n)) = Fin ?y"
    unfolding rank_product_def
    using f rank_factor [OF assms(1,2)] by (intro to_double_Fin) (simp add: abs_mult)
  moreover have "0 \<le> \<lceil>?y\<rceil>" using b(1) by simp
  moreover have "\<lceil>?y\<rceil> \<le> 2 ^ 63" using b(2) by (simp add: ceiling_le_iff)
  ultimately show ?thesis
    by (simp add: percentile_rank_def d_of_u64_Fin un trunc_def)
qed

definition rank_nat :: "rat \<Rightarrow> nat \<Rightarrow> nat" where
  "rank_nat p n = max 1 (min n (nat \<lceil>rank_product p n\<rceil>))"

text \<open>The rank as a number: always that of an existing sample.\<close>

lemma percentile_rank_unat:
  assumes "0 \<le> p" "p \<le> 100" "0 < n" "n \<le> 2 ^ 63"
  shows "\<exists>t. percentile_rank (Fin p) (of_nat n) = Inr t \<and> unat t = rank_nat p n"
proof -
  let ?c = "\<lceil>rank_product p n\<rceil>"
  note b = rank_product_bounds [OF assms(1,2,4)]
  define m where "m = nat ?c"
  have c: "0 \<le> ?c" "?c \<le> 2 ^ 63" using b by (simp_all add: ceiling_le_iff)
  then have w: "unat (word_of_int ?c :: u64) = m"
    by (simp add: unat_eq_nat_uint uint_word_of_int m_def)
  have "unat (of_nat n :: u64) = n" using assms(4) by (intro unat_u64_of_nat) simp
  then have "unat (clamp_u64 (word_of_int ?c) 1 (of_nat n)) = (if m < 1 then 1 else min n m)"
    unfolding unat_clamp_u64 w by simp
  also have "\<dots> = max 1 (min n m)" using assms(3) by auto
  finally have "unat (clamp_u64 (word_of_int ?c) 1 (of_nat n)) = rank_nat p n"
    by (simp only: rank_nat_def m_def)
  then show ?thesis using percentile_rank_eq [OF assms(1,2,4)] by blast
qed

lemma rank_nat_bounds: "0 < n \<Longrightarrow> 1 \<le> rank_nat p n \<and> rank_nat p n \<le> n"
  by (auto simp: rank_nat_def)

lemma rank_nat_mono:
  assumes "p \<le> q"
  shows "rank_nat p n \<le> rank_nat q n"
proof -
  have "rnd (p / 100) \<le> rnd (q / 100)" using assms by (intro rnd_mono divide_right_mono) auto
  then have "rnd (p / 100) * rnd (of_nat n) \<le> rnd (q / 100) * rnd (of_nat n)"
    by (rule mult_right_mono) simp
  then have "rank_product p n \<le> rank_product q n"
    unfolding rank_product_def by (rule rnd_mono)
  then have "nat \<lceil>rank_product p n\<rceil> \<le> nat \<lceil>rank_product q n\<rceil>"
    by (intro nat_mono ceiling_mono)
  then show ?thesis by (auto simp: rank_nat_def)
qed

text \<open>How far the computed rank can be from the exact one.\<close>

lemma rank_product_error:
  assumes "0 \<le> p" "p \<le> 100" "n \<le> 2 ^ 52"
  shows "\<bar>rank_product p n - p / 100 * of_nat n\<bar> \<le> 1"
proof -
  define a where "a = rnd (p / 100)"
  have n: "rnd (of_nat n) = of_nat n" using assms(3) by (intro rnd_of_nat) simp
  have "(of_nat n :: rat) \<le> of_nat (2 ^ 52)" using assms(3) by (simp only: of_nat_le_iff)
  then have nle: "(of_nat n :: rat) \<le> 2 ^ 52" by simp
  have "\<bar>a - p / 100\<bar> \<le> 2 powi (0 - 53)"
    unfolding a_def using assms(1,2) by (intro rnd_error_below) auto
  then have "\<bar>a - p / 100\<bar> * of_nat n \<le> 2 powi (- 53) * 2 ^ 52"
    using nle by (intro mult_mono) auto
  then have e1: "\<bar>a * of_nat n - p / 100 * of_nat n\<bar> \<le> 1 / 2"
    by (simp only: left_diff_distrib [symmetric] abs_mult abs_of_nat) simp
  have a: "0 \<le> a" "a \<le> 1" using rank_factor [OF assms(1,2)] by (simp_all add: a_def)
  have "a * of_nat n \<le> 1 * 2 ^ 52" using a nle by (intro mult_mono) auto
  then have "\<bar>rnd (a * of_nat n) - a * of_nat n\<bar> \<le> 2 powi (52 - 53)"
    using a by (intro rnd_error_below) auto
  then have e2: "\<bar>rank_product p n - a * of_nat n\<bar> \<le> 1 / 2"
    by (simp add: rank_product_def n a_def)
  have "\<bar>rank_product p n - p / 100 * of_nat n\<bar>
      \<le> \<bar>rank_product p n - a * of_nat n\<bar> + \<bar>a * of_nat n - p / 100 * of_nat n\<bar>"
    using abs_triangle_ineq [of "rank_product p n - a * of_nat n" "a * of_nat n - p / 100 * of_nat n"]
    by simp
  with e1 e2 show ?thesis by linarith
qed

definition exact_rank :: "rat \<Rightarrow> nat \<Rightarrow> nat" where
  "exact_rank p n = max 1 (min n (nat \<lceil>p / 100 * of_nat n\<rceil>))"

lemma ceiling_near:
  assumes "\<bar>x - y\<bar> \<le> (1::rat)"
  shows "\<lceil>x\<rceil> \<le> \<lceil>y\<rceil> + 1" and "\<lceil>y\<rceil> \<le> \<lceil>x\<rceil> + 1"
proof -
  have "x \<le> y + 1" "y \<le> x + 1" using assms by (auto simp: abs_le_iff)
  then show "\<lceil>x\<rceil> \<le> \<lceil>y\<rceil> + 1" and "\<lceil>y\<rceil> \<le> \<lceil>x\<rceil> + 1"
    using ceiling_mono [of x "y + 1"] ceiling_mono [of y "x + 1"] by simp_all
qed

lemma rank_nat_near_exact:
  assumes "0 \<le> p" "p \<le> 100" "n \<le> 2 ^ 52"
  shows "rank_nat p n \<le> exact_rank p n + 1" and "exact_rank p n \<le> rank_nat p n + 1"
  using ceiling_near [OF rank_product_error [OF assms]]
  by (auto simp: rank_nat_def exact_rank_def)

subsection \<open>The slot scan finds the slot of the sample of that rank\<close>

lemma percentile_scan_finds:
  assumes "\<And>j. j < length ss \<Longrightarrow> t \<le> r + sum_list (take (Suc j) ss) \<longleftrightarrow> k \<le> i + int j"
    and "i \<le> k"
  shows "percentile_scan ss i r t = (if k < i + int (length ss) then Some (slot_high k) else None)"
  using assms
proof (induction ss arbitrary: i r)
  case (Cons s ss)
  have here: "t \<le> r + s \<longleftrightarrow> k \<le> i" using Cons.prems(1) [of 0] by simp
  show ?case
  proof (cases "k \<le> i")
    case True
    with Cons.prems(2) here show ?thesis by simp
  next
    case False
    have "percentile_scan ss (i + 1) (r + s) t =
        (if k < i + 1 + int (length ss) then Some (slot_high k) else None)"
    proof (rule Cons.IH)
      fix j
      assume "j < length ss"
      then show "t \<le> r + s + sum_list (take (Suc j) ss) \<longleftrightarrow> k \<le> i + 1 + int j"
        using Cons.prems(1) [of "Suc j"] by (simp add: add.assoc algebra_simps)
    qed (use False in simp)
    with False here show ?thesis by (simp add: add.assoc)
  qed
qed simp

lemma sorted_filter_takeWhile:
  assumes "sorted xs"
    and "\<And>x y. x \<in> set xs \<Longrightarrow> y \<in> set xs \<Longrightarrow> x \<le> y \<Longrightarrow> P y \<Longrightarrow> P x"
  shows "filter P xs = takeWhile P xs"
  using assms
proof (induction xs)
  case (Cons x xs)
  have IH: "filter P xs = takeWhile P xs"
  proof (rule Cons.IH)
    show "sorted xs" using Cons.prems(1) by simp
    fix a b
    assume "a \<in> set xs" "b \<in> set xs" "a \<le> b" "P b"
    then show "P a" by (intro Cons.prems(2) [of a b]) auto
  qed
  show ?case
  proof (cases "P x")
    case False
    have "\<not> P y" if "y \<in> set xs" for y
    proof
      assume "P y"
      moreover have "x \<le> y" using Cons.prems(1) that by simp
      ultimately have "P x" using that by (intro Cons.prems(2) [of x y]) auto
      with False show False by contradiction
    qed
    with False show ?thesis by (simp add: filter_empty_conv)
  qed (simp add: IH)
qed simp

lemma sorted_rank_iff:
  assumes "sorted xs" "1 \<le> t" "t \<le> length xs"
    and down: "\<And>x y. x \<in> set xs \<Longrightarrow> y \<in> set xs \<Longrightarrow> x \<le> y \<Longrightarrow> P y \<Longrightarrow> P x"
  shows "t \<le> length (filter P xs) \<longleftrightarrow> P (xs ! (t - 1))"
proof -
  have f: "filter P xs = takeWhile P xs"
    by (rule sorted_filter_takeWhile [OF assms(1)]) (rule down)
  have i: "t - 1 < length xs" using assms(2,3) by simp
  show ?thesis
  proof
    assume "t \<le> length (filter P xs)"
    then have "t - 1 < length (takeWhile P xs)" using f assms(2) by simp
    then show "P (xs ! (t - 1))" by (metis nth_mem set_takeWhileD takeWhile_nth)
  next
    assume p: "P (xs ! (t - 1))"
    let ?m = "length (takeWhile P xs)"
    have "t - 1 < ?m"
    proof (rule ccontr)
      assume "\<not> t - 1 < ?m"
      then have m: "?m \<le> t - 1" "?m < length xs" using i by simp_all
      then have "xs ! ?m \<le> xs ! (t - 1)" using assms(1) i by (intro sorted_nth_mono)
      then have "P (xs ! ?m)" using p m i by (intro down [of "xs ! ?m" "xs ! (t - 1)"]) auto
      moreover have "\<not> P (xs ! ?m)" using m(2) by (rule nth_length_takeWhile)
      ultimately show False by contradiction
    qed
    then show "t \<le> length (filter P xs)" unfolding f by simp
  qed
qed

definition below_slot :: "int multiset \<Rightarrow> nat \<Rightarrow> int multiset" where
  "below_slot M j = {#l \<in># M. l \<le> kMaxValue \<and> index_of l \<le> int j#}"

lemma size_below_slot_0:
  assumes "\<forall>l \<in># M. 0 \<le> l \<and> l < 2 ^ 63"
  shows "size (below_slot M 0) = size (slot_members M 0)"
proof -
  have "below_slot M 0 = slot_members M 0"
    unfolding below_slot_def slot_members_def
    by (rule filter_mset_cong) (use assms index_of_nonneg in \<open>fastforce intro: antisym\<close>)+
  then show ?thesis by simp
qed

lemma size_below_slot_Suc:
  "size (below_slot M (Suc j)) = size (below_slot M j) + size (slot_members M (Suc j))"
proof -
  have "below_slot M (Suc j) = below_slot M j + slot_members M (Suc j)"
    unfolding below_slot_def slot_members_def
    by (rule multiset_eqI) auto
  then show ?thesis by simp
qed

lemma sum_slots:
  assumes "\<forall>l \<in># M. 0 \<le> l \<and> l < 2 ^ 63" and "j < 3808"
  shows "sum_list (take (Suc j) (h_slots (hist_of M))) = of_nat (size (below_slot M j))"
  using assms(2)
proof (induction j)
  case 0
  then show ?case
    by (simp add: take_Suc_conv_app_nth hist_of_slot size_below_slot_0 [OF assms(1)])
next
  case (Suc j)
  then show ?case
    by (simp add: take_Suc_conv_app_nth [of "Suc j"] hist_of_slot size_below_slot_Suc)
qed

definition sample_of_rank :: "int multiset \<Rightarrow> nat \<Rightarrow> int" where
  "sample_of_rank M t = sorted_list_of_multiset M ! (t - 1)"

definition reported :: "int multiset \<Rightarrow> int \<Rightarrow> int" where
  "reported M s = (if s \<le> kMaxValue then slot_high (index_of s) else Max (insert 0 (set_mset M)))"

lemma sample_of_rank_in:
  "1 \<le> t \<Longrightarrow> t \<le> size M \<Longrightarrow> sample_of_rank M t \<in># M"
  using nth_mem [of "t - 1" "sorted_list_of_multiset M"]
  by (simp add: sample_of_rank_def size_mset [symmetric] del: size_mset nth_mem)

lemma below_slot_rank:
  assumes M: "\<forall>l \<in># M. 0 \<le> l \<and> l < 2 ^ 63" and t: "1 \<le> t" "t \<le> size M"
  defines "s \<equiv> sample_of_rank M t"
  shows "t \<le> size (below_slot M j) \<longleftrightarrow> s \<le> kMaxValue \<and> index_of s \<le> int j"
proof -
  let ?xs = "sorted_list_of_multiset M"
  let ?P = "\<lambda>l. l \<le> kMaxValue \<and> index_of l \<le> int j"
  have l: "length ?xs = size M" by (metis mset_sorted_list_of_multiset size_mset)
  have "size (below_slot M j) = length (filter ?P ?xs)"
    unfolding below_slot_def by (metis mset_filter mset_sorted_list_of_multiset size_mset)
  moreover have "t \<le> length (filter ?P ?xs) \<longleftrightarrow> ?P (?xs ! (t - 1))"
  proof (rule sorted_rank_iff)
    fix x y
    assume xy: "x \<in> set ?xs" "y \<in> set ?xs" "x \<le> y" "?P y"
    then have "index_of x \<le> index_of y" using M by (intro index_of_mono) auto
    with xy show "?P x" by auto
  qed (use t l in simp_all)
  ultimately show ?thesis by (simp only: s_def sample_of_rank_def)
qed

theorem percentile_hist_of:
  assumes M: "\<forall>l \<in># M. 0 \<le> l \<and> l < 2 ^ 63" and n: "M \<noteq> {#}" "size M \<le> 2 ^ 63"
    and p: "0 \<le> p" "p \<le> 100"
  shows "percentile (hist_of M) (Fin p) =
    Inr (Some (reported M (sample_of_rank M (rank_nat p (size M)))))"
proof -
  define N where "N = size M"
  have N: "0 < N" "N \<le> 2 ^ 63" using n by (simp_all add: N_def nonempty_has_size)
  obtain t where t: "percentile_rank (Fin p) (of_nat N) = Inr t" "unat t = rank_nat p N"
    using percentile_rank_unat [OF p N] by blast
  define s where "s = sample_of_rank M (rank_nat p N)"
  define k where "k = (if s \<le> kMaxValue then index_of s else 3808)"
  note r = rank_nat_bounds [OF N(1), of p]
  have s: "0 \<le> s" "s < 2 ^ 63"
    using sample_of_rank_in [of "rank_nat p N" M] r M by (auto simp: s_def N_def)
  have k: "0 \<le> k" "k < 3808 \<longleftrightarrow> s \<le> kMaxValue"
    using index_of_nonneg [OF s] index_of_lt_kCount [OF s(1)] by (auto simp: k_def kCount_eq)
  have "t \<le> 0 + sum_list (take (Suc j) (h_slots (hist_of M))) \<longleftrightarrow> k \<le> 0 + int j"
    if "j < length (h_slots (hist_of M))" for j
  proof -
    have j: "j < 3808" using that by simp
    have "size (below_slot M j) \<le> N" by (simp add: N_def below_slot_def size_filter_mset_lesseq)
    then have "unat (of_nat (size (below_slot M j)) :: u64) = size (below_slot M j)"
      using N(2) by (intro unat_u64_of_nat) simp
    then have "t \<le> of_nat (size (below_slot M j)) \<longleftrightarrow> rank_nat p N \<le> size (below_slot M j)"
      by (simp add: word_le_nat_alt t(2))
    also have "\<dots> \<longleftrightarrow> s \<le> kMaxValue \<and> index_of s \<le> int j"
      unfolding s_def using r by (intro below_slot_rank [OF M]) (simp_all add: N_def)
    also have "\<dots> \<longleftrightarrow> k \<le> int j" using j by (auto simp: k_def)
    finally show ?thesis using sum_slots [OF M j] by simp
  qed
  then have scan: "percentile_scan (h_slots (hist_of M)) 0 0 t =
      (if k < 0 + int (length (h_slots (hist_of M))) then Some (slot_high k) else None)"
    using k(1) by (rule percentile_scan_finds)
  have "unat (of_nat N :: u64) = N" using N(2) by (intro unat_u64_of_nat) simp
  then have "(of_nat N :: u64) \<noteq> 0" using N(1) by (metis less_irrefl unat_0)
  then have "percentile (hist_of M) (Fin p) =
      Inr (Some (if s \<le> kMaxValue then slot_high k else h_max (hist_of M)))"
    using p t(1) k(2)
    by (simp add: percentile_def scan N_def [symmetric] hist.total_holding)
  then show ?thesis by (auto simp: reported_def s_def k_def N_def hist_of_def)
qed

subsection \<open>Properties\<close>

lemma fold_record_hist:
  assumes "\<forall>l \<in> set ls. 0 \<le> l"
  shows "fold_result hist_record empty_histogram ls = Inr (hist_of (mset ls))"
  using assms by (rule hist.rec_list)

lemma fold_record_nonneg:
  "fold_result hist_record h ls = Inr h' \<Longrightarrow> \<forall>l \<in> set ls. 0 \<le> l"
  by (induction ls arbitrary: h) (auto simp: and_then_Inr_iff hist_record_def split: if_splits)

lemma fold_record_Inr:
  "fold_result hist_record empty_histogram ls = Inr h \<longleftrightarrow>
    (\<forall>l \<in> set ls. 0 \<le> l) \<and> h = hist_of (mset ls)"
  using fold_record_hist [of ls] fold_record_nonneg [of empty_histogram ls h] by auto

lemma reported_bounds:
  assumes "s \<in># M" and "0 \<le> s" and "s < 2 ^ 63"
  shows "s \<le> reported M s"
    and "s \<le> kMaxValue \<Longrightarrow> (reported M s - s) * 128 \<le> s"
  using slot_of_index(2) [OF assms(2,3)] slot_high_error [OF assms(2,3)] assms(1)
  by (auto simp: reported_def)

text \<open>C5: A reported percentile never under-reports and over-reports by at most 1/128. After
  any latencies have been recorded, \<open>percentile(p)\<close> returns a value, for the sample whose rank
  in the sorted latencies \<open>percentile\<close> computed: that value is at least the sample; if the
  sample is at most 60s it exceeds it by at most 1/128 of it; above 60s it is the exact maximum.\<close>

theorem percentile_never_under_reports:
  assumes "ls \<noteq> []" and "length ls \<le> 2 ^ 63" and "\<forall>l \<in> set ls. 0 \<le> l \<and> l < 2 ^ 63"
    and "0 \<le> p" and "p \<le> 100"
  shows "\<exists>h t v. fold_result hist_record empty_histogram ls = Inr h \<and>
      percentile_rank (Fin p) (h_count h) = Inr t \<and> 1 \<le> unat t \<and> unat t \<le> length ls \<and>
      percentile h (Fin p) = Inr (Some v) \<and>
      (let s = sort ls ! (unat t - 1)
       in s \<le> v \<and> (if s \<le> kMaxValue then (v - s) * 128 \<le> s else v = Max (set ls)))"
proof -
  let ?M = "mset ls"
  let ?r = "rank_nat p (length ls)"
  define s where "s = sample_of_rank ?M ?r"
  have h: "fold_result hist_record empty_histogram ls = Inr (hist_of ?M)"
    using assms(3) by (intro fold_record_hist) auto
  obtain t where t: "percentile_rank (Fin p) (of_nat (length ls)) = Inr t" "unat t = ?r"
    using percentile_rank_unat [of p "length ls"] assms by auto
  have r: "1 \<le> ?r" "?r \<le> length ls" using rank_nat_bounds [of "length ls" p] assms(1) by auto
  have pv: "percentile (hist_of ?M) (Fin p) = Inr (Some (reported ?M s))"
    unfolding s_def using assms percentile_hist_of [of ?M p] by simp
  have mem: "s \<in># ?M" unfolding s_def using r by (intro sample_of_rank_in) auto
  have s0: "0 \<le> s" "s < 2 ^ 63" using mem assms(3) by auto
  have "s = sort ls ! (unat t - 1)" by (simp add: s_def sample_of_rank_def t(2))
  moreover have "kMaxValue < s \<Longrightarrow> reported ?M s = Max (set ls)"
  proof -
    have "0 \<le> Max (set ls)" using assms(1,3) by (meson Max_in finite_set set_empty)
    then show "kMaxValue < s \<Longrightarrow> reported ?M s = Max (set ls)"
      using assms(1) by (simp add: reported_def)
  qed
  ultimately show ?thesis
    using h t r pv reported_bounds [OF mem s0] by (auto simp: hist.total_holding Let_def not_le)
qed

theorem percentile_never_under_reports_witness:
  "\<exists>h t v. fold_result hist_record empty_histogram [5, 70000000000, 1000] = Inr h \<and>
      percentile_rank (Fin 50) (h_count h) = Inr t \<and> 1 \<le> unat t \<and>
      unat t \<le> length [5, 70000000000, 1000 :: int] \<and> percentile h (Fin 50) = Inr (Some v) \<and>
      (let s = sort [5, 70000000000, 1000] ! (unat t - 1)
       in s \<le> v \<and> (if s \<le> kMaxValue then (v - s) * 128 \<le> s
                   else v = Max (set [5, 70000000000, 1000])))"
  by (rule percentile_never_under_reports) simp_all

text \<open>C30: The rank is computed in floating point (\<open>ceil(p / 100.0 * count)\<close>), and for up to
  2^52 samples it is always defined and within one of the exact rank
  \<open>ceil (p * count / 100)\<close>, in either direction.\<close>

theorem percentile_rank_accuracy:
  assumes "0 \<le> p" and "p \<le> 100" and "0 < n" and "n \<le> 2 ^ 52"
  shows "\<exists>t. percentile_rank (Fin p) (of_nat n) = Inr t \<and>
    unat t \<le> exact_rank p n + 1 \<and> exact_rank p n \<le> unat t + 1"
proof -
  obtain t where "percentile_rank (Fin p) (of_nat n) = Inr t" "unat t = rank_nat p n"
    using percentile_rank_unat [of p n] assms by auto
  with rank_nat_near_exact [OF assms(1,2,4)] show ?thesis by auto
qed

theorem percentile_rank_accuracy_witness:
  "\<exists>t. percentile_rank (Fin 99) (of_nat 200) = Inr t \<and>
    unat t \<le> exact_rank 99 200 + 1 \<and> exact_rank 99 200 \<le> unat t + 1"
  by (rule percentile_rank_accuracy) simp_all

text \<open>The bound of one is attained by the code's own p99.9: of 1000 samples,
  \<open>percentile(99.9)\<close> takes rank 1000, the maximum, where the exact rank is 999, because
  \<open>99.9 / 100.0\<close> rounds up.\<close>

theorem p999_of_1000_is_the_maximum:
  "percentile_rank (to_double (999 / 10)) 1000 = Inr 1000 \<and> exact_rank (999 / 10) 1000 = 999"
proof -
  let ?p = "rnd (999 / 10)"
  have p: "?p = of_int 7029837543348634 * 2 powi (6 - 52)"
    by (rule rnd_eqI) simp_all
  have f: "rnd (?p / 100) = of_int 8998192055486252 * 2 powi (- 1 - 52)"
    unfolding p by (rule rnd_eqI) simp_all
  have n: "rnd (of_nat 1000) = (1000 :: rat)" using rnd_of_nat [of 1000] by simp
  have "rank_product ?p 1000 = of_int 8787296929185793 * 2 powi (9 - 52)"
    unfolding rank_product_def n f by (rule rnd_eqI) simp_all
  then have c: "\<lceil>rank_product ?p 1000\<rceil> = 1000" by (simp add: ceiling_eq_iff)
  have "to_double (999 / 10) = Fin ?p" by (intro to_double_Fin) simp
  moreover have "percentile_rank (Fin ?p) (of_nat 1000) = Inr (clamp_u64 1000 1 1000)"
    using percentile_rank_eq [of ?p 1000] rnd_upper [of "999 / 10" 100] rnd_of_int [of 100]
    by (simp add: c)
  ultimately have "percentile_rank (to_double (999 / 10)) 1000 = Inr 1000"
    by (simp add: clamp_u64_def)
  moreover have "exact_rank (999 / 10) 1000 = 999" by (simp add: exact_rank_def)
  ultimately show ?thesis ..
qed

text \<open>C8: Splitting the samples over any number of per-thread histograms and merging these at
  the end gives exactly the histogram that recorded all samples itself, in whatever order the
  threads are merged; nothing is lost or double-counted.\<close>

theorem merge_equals_single_histogram:
  assumes "\<forall>ls \<in> set lss. \<forall>l \<in> set ls. 0 \<le> l"
  shows "\<exists>hs. list_all2 (\<lambda>ls h. fold_result hist_record empty_histogram ls = Inr h) lss hs \<and>
    fold_result hist_record empty_histogram (concat lss) = Inr (foldl hist_merge empty_histogram hs) \<and>
    (\<forall>hs'. mset hs' = mset hs \<longrightarrow>
      foldl hist_merge empty_histogram hs' = foldl hist_merge empty_histogram hs)"
proof (intro exI conjI allI impI)
  let ?hs = "map (\<lambda>ls. hist_of (mset ls)) lss"
  let ?Ns = "map mset lss"
  have sum: "sum_list ?Ns = mset (concat lss)" by (induction lss) simp_all
  have merged: "foldl hist_merge empty_histogram ?hs = hist_of (mset (concat lss))"
    using hist.merge_list [of ?Ns] by (simp add: sum comp_def)
  show "list_all2 (\<lambda>ls h. fold_result hist_record empty_histogram ls = Inr h) lss ?hs"
    using assms by (auto simp: list_all2_conv_all_nth fold_record_Inr)
  show "fold_result hist_record empty_histogram (concat lss) =
      Inr (foldl hist_merge empty_histogram ?hs)"
    using assms by (simp add: merged fold_record_Inr)
  fix hs'
  assume "mset hs' = mset ?hs"
  then obtain lss' where l: "hs' = map (\<lambda>ls. hist_of (mset ls)) lss'" "mset lss' = mset lss"
    using mset_eq_map [of hs' "\<lambda>ls. hist_of (mset ls)" "mset lss"] by auto
  have "sum_list (map mset lss') = sum_list ?Ns"
    using l(2) by (metis sum_mset_sum_list mset_map)
  then show "foldl hist_merge empty_histogram hs' = foldl hist_merge empty_histogram ?hs"
    using hist.merge_list [of "map mset lss'"] hist.merge_list [of ?Ns] by (simp add: l(1) comp_def)
qed

theorem merge_equals_single_histogram_witness:
  "\<exists>hs. list_all2 (\<lambda>ls h. fold_result hist_record empty_histogram ls = Inr h) [[7, 9], [], [7]] hs \<and>
    fold_result hist_record empty_histogram [7, 9, 7] = Inr (foldl hist_merge empty_histogram hs)"
proof -
  have "\<forall>ls \<in> set [[7, 9], [], [7 :: int]]. \<forall>l \<in> set ls. 0 \<le> l" by simp
  from merge_equals_single_histogram [OF this] show ?thesis by auto
qed

text \<open>While no sample is above 60s, the percentiles are monotone: a higher \<open>p\<close> never reports
  a lower latency.\<close>

theorem percentile_monotone:
  assumes "ls \<noteq> []" and "length ls \<le> 2 ^ 63" and "\<forall>l \<in> set ls. 0 \<le> l \<and> l \<le> kMaxValue"
    and "0 \<le> p" and "p \<le> q" and "q \<le> 100"
  shows "\<exists>h u v. fold_result hist_record empty_histogram ls = Inr h \<and>
    percentile h (Fin p) = Inr (Some u) \<and> percentile h (Fin q) = Inr (Some v) \<and> u \<le> v"
proof -
  let ?M = "mset ls"
  let ?s = "\<lambda>p. sample_of_rank ?M (rank_nat p (length ls))"
  have M: "\<forall>l \<in># ?M. 0 \<le> l \<and> l < 2 ^ 63" using assms(3) by (auto simp: kMaxValue_def)
  have h: "fold_result hist_record empty_histogram ls = Inr (hist_of ?M)"
    using assms(3) by (intro fold_record_hist) auto
  have r: "1 \<le> rank_nat x (length ls) \<and> rank_nat x (length ls) \<le> length ls" for x
    using assms(1) by (intro rank_nat_bounds) simp
  have mem: "?s x \<in> set ls" for x
    using sample_of_rank_in [of "rank_nat x (length ls)" ?M] r by simp
  have le: "?s p \<le> ?s q"
    unfolding sample_of_rank_def using rank_nat_mono [OF assms(5), of "length ls"] r [of q]
    by (intro sorted_nth_mono) auto
  then have "index_of (?s p) \<le> index_of (?s q)"
    using M mem by (intro index_of_mono) auto
  then have "reported ?M (?s p) \<le> reported ?M (?s q)"
    using mem assms(3) M index_of_nonneg [of "?s p"]
    by (auto simp: reported_def intro: slot_high_mono)
  then show ?thesis
    using h percentile_hist_of [OF M, of p] percentile_hist_of [OF M, of q] assms by auto
qed

theorem percentile_monotone_witness:
  "\<exists>h u v. fold_result hist_record empty_histogram [200, 100000, 3] = Inr h \<and>
    percentile h (Fin 50) = Inr (Some u) \<and> percentile h (Fin 90) = Inr (Some v) \<and> u \<le> v"
  by (rule percentile_monotone) (simp_all add: kMaxValue_def)

text \<open>With a sample above 60s the percentiles need not be monotone: the top slot's high edge
  lies above 60s, so of the two latencies 60s and 60s + 1ns the median is reported higher than
  the 100th percentile, which is the exact maximum.\<close>

theorem percentile_not_monotone_past_60s:
  "\<exists>h. fold_result hist_record empty_histogram [60000000000, 60000000001] = Inr h \<and>
    percentile h (Fin 50) = Inr (Some 60129542143) \<and>
    percentile h (Fin 100) = Inr (Some 60000000001)"
proof -
  let ?ls = "[60000000000, 60000000001] :: int list"
  let ?M = "mset ?ls"
  have h: "fold_result hist_record empty_histogram ?ls = Inr (hist_of ?M)"
    by (rule fold_record_hist) simp
  have p: "percentile (hist_of ?M) (Fin x) =
      Inr (Some (reported ?M (sort ?ls ! (rank_nat x 2 - 1))))" if "0 \<le> x" "x \<le> 100" for x
  proof -
    have size: "size ?M = 2" and sort: "sorted_list_of_multiset ?M = sort ?ls"
      by (simp_all only: size_mset sorted_list_of_multiset_mset) simp
    have "percentile (hist_of ?M) (Fin x) =
        Inr (Some (reported ?M (sample_of_rank ?M (rank_nat x (size ?M)))))"
      by (rule percentile_hist_of) (use that size in simp_all)
    then show ?thesis by (simp only: size sort sample_of_rank_def)
  qed
  have half: "rnd (1 / 2) = 1 / 2" using rnd_powi [of "- 1"] by simp
  have "rank_product 50 2 = 1" "rank_product 100 2 = 2"
    using rnd_of_nat [of 1] rnd_of_nat [of 2] by (simp_all add: rank_product_def half)
  then have r: "rank_nat 50 2 = 1" "rank_nat 100 2 = 2" by (simp_all add: rank_nat_def)
  have "index_of 60000000000 = 3807" using index_of_octave [of 28 60000000000] by simp
  then have "reported ?M 60000000000 = 60129542143"
    using slot_edges_at(2) [of 29 95] by (simp add: reported_def kMaxValue_def)
  moreover have "reported ?M 60000000001 = 60000000001"
    by (simp add: reported_def kMaxValue_def)
  ultimately show ?thesis
    using h p [of 50] p [of 100] unfolding r by simp
qed

end
