(* ===== verification/Time_Series.thy ===== *)
theory Time_Series
  imports Histogram Clock
begin

text \<open>
  Latency by second of the run, \<open>src/stats/timeseries.hpp\<close>: every worker owns a writer with one
  second's histogram, and hands it to the shared series when the second changes or the worker
  stops. A writer touches the shared series only inside \<open>absorb\<close>, under the lock, at most
  once per call, so a run of many workers is a sequence of whole calls, each by some worker:
  \<open>ts_run\<close>. The allocation that \<open>resize\<close> makes is taken to succeed.
\<close>

record writer =
  w_pending :: histogram
  w_current :: u64

record timeseries =
  ts_start :: instant
  ts_seconds :: "histogram list"

definition new_timeseries :: "instant \<Rightarrow> timeseries" where
  "new_timeseries start = \<lparr>ts_start = start, ts_seconds = []\<rparr>"

definition new_writer :: writer where
  "new_writer = \<lparr>w_pending = empty_histogram, w_current = 0\<rparr>"

definition second_of :: "timeseries \<Rightarrow> instant \<Rightarrow> u64 result" where
  "second_of ts t =
     and_then (between (ts_start ts) t) (\<lambda>since.
       Inr (if since \<le> 0 then 0 else word_of_int (since div 1000000000)))"

definition resize :: "histogram list \<Rightarrow> nat \<Rightarrow> histogram list" where
  "resize hs n = take n hs @ replicate (n - length hs) empty_histogram"

definition absorb :: "timeseries \<Rightarrow> u64 \<Rightarrow> histogram \<Rightarrow> timeseries" where
  "absorb ts second h =
     (let hs = (if length (ts_seconds ts) \<le> unat second
                then resize (ts_seconds ts) (unat (second + 1)) else ts_seconds ts)
      in ts\<lparr>ts_seconds := hs[unat second := hist_merge (hs ! unat second) h]\<rparr>)"

definition writer_flush :: "timeseries \<Rightarrow> writer \<Rightarrow> timeseries \<times> writer" where
  "writer_flush ts w =
     (if 0 < h_count (w_pending w)
      then (absorb ts (w_current w) (w_pending w), w\<lparr>w_pending := empty_histogram\<rparr>)
      else (ts, w))"

definition writer_record ::
  "timeseries \<Rightarrow> writer \<Rightarrow> instant \<Rightarrow> nanos \<Rightarrow> (timeseries \<times> writer) result" where
  "writer_record ts w t latency =
     and_then (second_of ts t) (\<lambda>second.
       let (ts', w') =
         (if second \<noteq> w_current w
          then case writer_flush ts w of (ts', w') \<Rightarrow> (ts', w'\<lparr>w_current := second\<rparr>)
          else (ts, w))
       in and_then (hist_record (w_pending w') latency) (\<lambda>h. Inr (ts', w'\<lparr>w_pending := h\<rparr>)))"

subsection \<open>Many workers\<close>

datatype ts_event = Record (ev_worker: nat) instant nanos | Flush (ev_worker: nat)

definition ts_step ::
  "timeseries \<times> writer list \<Rightarrow> ts_event \<Rightarrow> (timeseries \<times> writer list) result" where
  "ts_step st e =
     (case st of (ts, ws) \<Rightarrow>
       (case e of
          Record i t latency \<Rightarrow>
            and_then (writer_record ts (ws ! i) t latency) (\<lambda>(ts', w). Inr (ts', ws[i := w]))
        | Flush i \<Rightarrow> (case writer_flush ts (ws ! i) of (ts', w) \<Rightarrow> Inr (ts', ws[i := w]))))"

definition ts_run ::
  "instant \<Rightarrow> nat \<Rightarrow> ts_event list \<Rightarrow> (timeseries \<times> writer list) result" where
  "ts_run start workers evs =
     fold_result ts_step (new_timeseries start, replicate workers new_writer) evs"

subsection \<open>The abstract specification\<close>

text \<open>The second an instant belongs to, and the latencies a sequence of calls recorded in it.\<close>

definition the_second :: "instant \<Rightarrow> instant \<Rightarrow> nat" where
  "the_second start t = nat ((t - start) div 1000000000)"

fun recorded_in :: "instant \<Rightarrow> nat \<Rightarrow> ts_event \<Rightarrow> int multiset" where
  "recorded_in start k (Record i t latency) =
     (if the_second start t = k then {#latency#} else {#})"
| "recorded_in start k (Flush i) = {#}"

definition recorded :: "instant \<Rightarrow> nat \<Rightarrow> ts_event list \<Rightarrow> int multiset" where
  "recorded start k evs = sum_list (map (recorded_in start k) evs)"

fun event_ok :: "nat \<Rightarrow> ts_event \<Rightarrow> bool" where
  "event_ok workers (Record i t latency) \<longleftrightarrow>
     i < workers \<and> 0 \<le> latency \<and> 0 \<le> t \<and> t < 2 ^ 63"
| "event_ok workers (Flush i) \<longleftrightarrow> i < workers"

text \<open>A worker has stopped when the last of its calls, if any, is a flush.\<close>

definition settled :: "nat \<Rightarrow> ts_event list \<Rightarrow> bool" where
  "settled i evs \<longleftrightarrow>
     (let own = filter (\<lambda>e. ev_worker e = i) evs in own = [] \<or> last own = Flush i)"

lemma recorded_snoc: "recorded start k (evs @ [e]) = recorded start k evs + recorded_in start k e"
  by (simp add: recorded_def)

lemma settled_snoc:
  "settled i (evs @ [e]) \<longleftrightarrow> (if ev_worker e = i then e = Flush i else settled i evs)"
  by (simp add: settled_def Let_def)

lemma the_second_less: "0 \<le> start \<Longrightarrow> t < 2 ^ 63 \<Longrightarrow> the_second start t < 2 ^ 34"
proof -
  assume "0 \<le> start" "t < 2 ^ 63"
  then have "(t - start) div 1000000000 \<le> 2 ^ 63 div 1000000000" by (intro zdiv_mono1) simp_all
  then show ?thesis by (simp add: the_second_def)
qed

lemma second_of_eq:
  assumes "0 \<le> ts_start ts" "ts_start ts < 2 ^ 63" "0 \<le> t" "t < 2 ^ 63"
  shows "second_of ts t = Inr (of_nat (the_second (ts_start ts) t))"
proof -
  have "word_of_int ((t - ts_start ts) div 1000000000)
      = (of_nat (the_second (ts_start ts) t) :: u64)" if "0 < t - ts_start ts"
    using that by (simp add: the_second_def pos_imp_zdiv_nonneg_iff)
  moreover have "the_second (ts_start ts) t = 0" if "t - ts_start ts \<le> 0"
    using that by (simp add: the_second_def div_nonpos_pos_le0)
  ultimately show ?thesis
    using assms by (auto simp: second_of_def between_ok)
qed

subsection \<open>One call\<close>

definition holds :: "timeseries \<Rightarrow> instant \<Rightarrow> (nat \<Rightarrow> int multiset) \<Rightarrow> bool" where
  "holds ts start A \<longleftrightarrow> ts_start ts = start \<and>
     ts_seconds ts = map (\<lambda>k. hist_of (A k)) [0..<length (ts_seconds ts)] \<and>
     (\<forall>k \<ge> length (ts_seconds ts). A k = {#})"

lemma holds_nth:
  "holds ts start A \<Longrightarrow> k < length (ts_seconds ts) \<Longrightarrow> ts_seconds ts ! k = hist_of (A k)"
  unfolding holds_def by (metis add.left_neutral diff_zero length_upt nth_map_upt)

lemma holdsI:
  assumes "ts_start ts = start"
    and "\<And>k. k < length (ts_seconds ts) \<Longrightarrow> ts_seconds ts ! k = hist_of (A k)"
    and "\<And>k. length (ts_seconds ts) \<le> k \<Longrightarrow> A k = {#}"
  shows "holds ts start A"
  using assms by (auto simp: holds_def intro: nth_equalityI)

lemma holds_start: "holds ts start A \<Longrightarrow> ts_start ts = start"
  by (simp add: holds_def)

lemma resize_nth:
  "k < n \<Longrightarrow> length hs \<le> n \<Longrightarrow> resize hs n ! k = (if k < length hs then hs ! k else empty_histogram)"
  by (simp add: resize_def nth_append)

lemma length_resize [simp]: "length (resize hs n) = n"
  by (simp add: resize_def)

lemma absorb_holds:
  assumes "holds ts start A" and "k < 2 ^ 34"
  shows "holds (absorb ts (of_nat k) (hist_of M)) start (A(k := A k + M))"
proof (rule holdsI)
  have k: "unat (of_nat k :: u64) = k" using assms(2) by (intro unat_u64_of_nat) simp
  have "unat (of_nat (Suc k) :: u64) = Suc k" using assms(2) by (intro unat_u64_of_nat) simp
  then have Sk: "unat (of_nat k + 1 :: u64) = Suc k" by (simp add: add.commute)
  let ?hs = "if length (ts_seconds ts) \<le> k then resize (ts_seconds ts) (Suc k) else ts_seconds ts"
  have eq: "ts_seconds (absorb ts (of_nat k) (hist_of M)) = ?hs[k := hist_merge (?hs ! k) (hist_of M)]"
    by (simp add: absorb_def k Sk Let_def)
  have old: "?hs ! j = hist_of (A j)" if "j < length ?hs" for j
    using that holds_nth [OF assms(1), of j] assms(1)
    by (auto simp: resize_nth holds_def hist_of_empty split: if_splits)
  have len: "k < length ?hs" by simp
  show "ts_start (absorb ts (of_nat k) (hist_of M)) = start"
    using assms(1) by (simp add: absorb_def holds_def Let_def)
  show "ts_seconds (absorb ts (of_nat k) (hist_of M)) ! j = hist_of ((A(k := A k + M)) j)"
    if "j < length (ts_seconds (absorb ts (of_nat k) (hist_of M)))" for j
    using that len old [of j] old [of k]
    unfolding eq by (cases "j = k") (simp_all add: hist_merge_hist_of)
  show "(A(k := A k + M)) j = {#}"
    if "length (ts_seconds (absorb ts (of_nat k) (hist_of M))) \<le> j" for j
  proof -
    from that len have "length ?hs \<le> j" "j \<noteq> k" unfolding eq by auto
    then have "length (ts_seconds ts) \<le> j" by (simp split: if_splits)
    with assms(1) \<open>j \<noteq> k\<close> show ?thesis by (simp add: holds_def)
  qed
qed

definition holding_writer :: "int multiset \<Rightarrow> nat \<Rightarrow> writer" where
  "holding_writer M k = \<lparr>w_pending = hist_of M, w_current = of_nat k\<rparr>"

lemma flush_holds:
  assumes "holds ts start A" and "k < 2 ^ 34" and "size M < 2 ^ 64"
  shows "\<exists>ts'. writer_flush ts (holding_writer M k) = (ts', holding_writer {#} k) \<and>
    holds ts' start (A(k := A k + M))"
proof (cases "M = {#}")
  case True
  then show ?thesis
    using assms(1) by (simp add: writer_flush_def holding_writer_def hist.total_holding)
next
  case False
  have "unat (of_nat (size M) :: u64) = size M" using assms(3) by (rule unat_u64_of_nat)
  moreover have "size M \<noteq> 0" using False by simp
  ultimately have "(of_nat (size M) :: u64) \<noteq> 0" by (metis unat_0)
  then have "(0 :: u64) < of_nat (size M)" by (metis word_gt_0)
  then show ?thesis
    using absorb_holds [OF assms(1,2), of M]
    by (simp add: writer_flush_def holding_writer_def hist.total_holding hist_of_empty)
qed

lemma of_nat_eq_iff_small:
  "j < 2 ^ 34 \<Longrightarrow> k < 2 ^ 34 \<Longrightarrow> (of_nat j :: u64) = of_nat k \<longleftrightarrow> j = k"
proof -
  assume "j < 2 ^ 34" "k < 2 ^ 34"
  then have "unat (of_nat j :: u64) = j" "unat (of_nat k :: u64) = k"
    by (simp_all add: unat_u64_of_nat)
  then show "(of_nat j :: u64) = of_nat k \<longleftrightarrow> j = k" by metis
qed

lemma record_holds:
  assumes "holds ts start A" and "k < 2 ^ 34" and "size M < 2 ^ 64"
    and "0 \<le> start" "start < 2 ^ 63" "0 \<le> t" "t < 2 ^ 63" "0 \<le> l"
  defines "s \<equiv> the_second start t"
  shows "\<exists>ts'. writer_record ts (holding_writer M k) t l =
      Inr (ts', holding_writer (if s = k then add_mset l M else {#l#}) s) \<and>
    holds ts' start (if s = k then A else A(k := A k + M))"
proof -
  have s: "second_of ts t = Inr (of_nat s)" "s < 2 ^ 34"
    using assms(4-7) second_of_eq [of ts t] holds_start [OF assms(1)] the_second_less [of start t]
    by (simp_all add: s_def)
  show ?thesis
  proof (cases "s = k")
    case True
    with s assms(1,8) show ?thesis
      by (simp add: writer_record_def holding_writer_def hist.rec_holding)
  next
    case False
    from flush_holds [OF assms(1-3)] obtain ts' where f:
      "writer_flush ts (holding_writer M k) = (ts', holding_writer {#} k)"
      "holds ts' start (A(k := A k + M))" by blast
    have "(of_nat s :: u64) \<noteq> of_nat k" using False s(2) assms(2) by (simp add: of_nat_eq_iff_small)
    with f s False assms(8) show ?thesis
      by (simp add: writer_record_def holding_writer_def hist.rec_holding)
  qed
qed

subsection \<open>The invariant of a run\<close>

text \<open>What the series holds in second \<open>k\<close>, with what the writers whose current second is \<open>k\<close>
  still hold, is what was recorded in second \<open>k\<close>; the writer of a worker that has stopped
  holds nothing.\<close>

definition held :: "nat \<Rightarrow> (nat \<Rightarrow> nat) \<Rightarrow> (nat \<Rightarrow> int multiset) \<Rightarrow> nat \<Rightarrow> int multiset" where
  "held W c P k = (\<Sum>i < W. if c i = k then P i else {#})"

definition ts_inv ::
  "instant \<Rightarrow> nat \<Rightarrow> ts_event list \<Rightarrow> timeseries \<Rightarrow> writer list
    \<Rightarrow> (nat \<Rightarrow> int multiset) \<Rightarrow> (nat \<Rightarrow> int multiset) \<Rightarrow> (nat \<Rightarrow> nat) \<Rightarrow> bool" where
  "ts_inv start W evs ts ws A P c \<longleftrightarrow>
     holds ts start A \<and> ws = map (\<lambda>i. holding_writer (P i) (c i)) [0..<W] \<and>
     (\<forall>i. c i < 2 ^ 34 \<and> size (P i) \<le> length evs \<and> (settled i evs \<longrightarrow> P i = {#})) \<and>
     (\<forall>k. A k + held W c P k = recorded start k evs)"

lemma held_update:
  assumes "i < W"
  shows "held W (c(i := s)) (P(i := M)) k + (if c i = k then P i else {#}) =
    held W c P k + (if s = k then M else {#})"
proof -
  let ?f = "\<lambda>c P j. if c j = k then P j else ({#} :: int multiset)"
  let ?R = "{..<W} - {i}"
  have eq: "sum (?f (c(i := s)) (P(i := M))) ?R = sum (?f c P) ?R" by (rule sum.cong) auto
  have "held W c P k = ?f c P i + sum (?f c P) ?R" for c P
    unfolding held_def using assms by (intro sum.remove) simp_all
  from this [of c P] this [of "c(i := s)" "P(i := M)"] eq show ?thesis by simp
qed

lemma writers_update:
  "i < W \<Longrightarrow> (map (\<lambda>i. holding_writer (P i) (c i)) [0..<W])[i := holding_writer M s] =
    map (\<lambda>j. holding_writer ((P(i := M)) j) ((c(i := s)) j)) [0..<W]"
  by (rule nth_equalityI) (auto simp: nth_list_update)

lemma ts_inv_init:
  "ts_inv start W [] (new_timeseries start) (replicate W new_writer)
     (\<lambda>_. {#}) (\<lambda>_. {#}) (\<lambda>_. 0)"
  by (auto simp: ts_inv_def holds_def new_timeseries_def new_writer_def holding_writer_def
      hist_of_empty held_def recorded_def map_replicate_const)

lemma ts_inv_flush:
  assumes inv: "ts_inv start W evs ts ws A P c" and "i < W" and "length evs < 2 ^ 64"
  shows "\<exists>ts' ws'. ts_step (ts, ws) (Flush i) = Inr (ts', ws') \<and>
    ts_inv start W (evs @ [Flush i]) ts' ws' (A(c i := A (c i) + P i)) (P(i := {#})) c"
proof -
  have "size (P i) \<le> length evs" using inv unfolding ts_inv_def by blast
  then have P: "size (P i) < 2 ^ 64" using assms(3) by linarith
  have h: "holds ts start A" "c i < 2 ^ 34" using inv unfolding ts_inv_def by blast+
  have ws: "ws = map (\<lambda>i. holding_writer (P i) (c i)) [0..<W]" using inv unfolding ts_inv_def by blast
  from flush_holds [OF h P] obtain ts' where f:
    "writer_flush ts (holding_writer (P i) (c i)) = (ts', holding_writer {#} (c i))"
    "holds ts' start (A(c i := A (c i) + P i))" by blast
  have "(A(c i := A (c i) + P i)) k + held W c (P(i := {#})) k = A k + held W c P k" for k
    using held_update [OF assms(2), of c "c i" P "{#}" k] by (auto simp: ac_simps)
  with inv f(2) assms(2) show ?thesis
    using writers_update [OF assms(2), of P c "{#}" "c i"]
    by (auto simp: ts_step_def ws f(1) ts_inv_def settled_snoc recorded_snoc le_SucI)
qed

lemma ts_inv_record:
  assumes inv: "ts_inv start W evs ts ws A P c" and "i < W" and "length evs < 2 ^ 64"
    and t: "0 \<le> start" "start < 2 ^ 63" "0 \<le> t" "t < 2 ^ 63" "0 \<le> l"
  shows "\<exists>ts' ws' A' P' c'. ts_step (ts, ws) (Record i t l) = Inr (ts', ws') \<and>
    ts_inv start W (evs @ [Record i t l]) ts' ws' A' P' c'"
proof -
  define s where "s = the_second start t"
  define M where "M = (if s = c i then add_mset l (P i) else {#l#})"
  define A' where "A' = (if s = c i then A else A(c i := A (c i) + P i))"
  have size: "size (P i) \<le> length evs" using inv unfolding ts_inv_def by blast
  then have P: "size (P i) < 2 ^ 64" using assms(3) by linarith
  have h: "holds ts start A" "c i < 2 ^ 34" using inv unfolding ts_inv_def by blast+
  have ws: "ws = map (\<lambda>i. holding_writer (P i) (c i)) [0..<W]" using inv unfolding ts_inv_def by blast
  from record_holds [OF h P t] obtain ts' where f:
    "writer_record ts (holding_writer (P i) (c i)) t l = Inr (ts', holding_writer M s)"
    "holds ts' start A'" unfolding s_def M_def A'_def by blast
  have "A' k + held W (c(i := s)) (P(i := M)) k = A k + held W c P k + (if s = k then {#l#} else {#})" for k
    using held_update [OF assms(2), of c s P M k] by (auto simp: A'_def M_def ac_simps)
  moreover have "s < 2 ^ 34" using t(1,4) unfolding s_def by (rule the_second_less)
  moreover have "size M \<le> Suc (length evs)" using size by (simp add: M_def)
  ultimately have "ts_inv start W (evs @ [Record i t l]) ts' (ws[i := holding_writer M s]) A'
      (P(i := M)) (c(i := s))"
    using inv f(2) writers_update [OF assms(2), of P c M s]
    by (auto simp: ws ts_inv_def settled_snoc recorded_snoc s_def [symmetric] le_SucI)
  moreover have "ts_step (ts, ws) (Record i t l) = Inr (ts', ws[i := holding_writer M s])"
    using assms(2) by (simp add: ts_step_def ws f(1))
  ultimately show ?thesis by blast
qed

lemma ts_run_inv:
  assumes "\<forall>e \<in> set evs. event_ok W e" and "length evs \<le> 2 ^ 64"
    and "0 \<le> start" and "start < 2 ^ 63"
  shows "\<exists>ts ws A P c. ts_run start W evs = Inr (ts, ws) \<and> ts_inv start W evs ts ws A P c"
  using assms(1,2)
proof (induction evs rule: rev_induct)
  case Nil
  show ?case unfolding ts_run_def fold_result.simps using ts_inv_init by blast
next
  case (snoc e evs)
  then obtain ts ws A P c where run: "ts_run start W evs = Inr (ts, ws)"
    and inv: "ts_inv start W evs ts ws A P c" by auto
  have "\<exists>ts' ws' A' P' c'. ts_step (ts, ws) e = Inr (ts', ws') \<and>
      ts_inv start W (evs @ [e]) ts' ws' A' P' c'"
  proof (cases e)
    case (Record i t l)
    with snoc.prems show ?thesis using ts_inv_record [OF inv _ _ assms(3,4)] by auto
  next
    case (Flush i)
    with snoc.prems show ?thesis using ts_inv_flush [OF inv] by fastforce
  qed
  then obtain ts' ws' A' P' c' where "ts_step (ts, ws) e = Inr (ts', ws')"
    and "ts_inv start W (evs @ [e]) ts' ws' A' P' c'" by blast
  moreover from this(1) run have "ts_run start W (evs @ [e]) = Inr (ts', ws')"
    by (simp add: ts_run_def fold_result_append)
  ultimately show ?case by blast
qed

subsection \<open>Properties\<close>

lemma ts_run_exact:
  assumes "\<forall>e \<in> set evs. event_ok W e" and "length evs \<le> 2 ^ 64"
    and "0 \<le> start" and "start < 2 ^ 63" and "\<forall>i. settled i evs"
  shows "\<exists>ts ws. ts_run start W evs = Inr (ts, ws) \<and>
    ts_seconds ts = map (\<lambda>k. hist_of (recorded start k evs)) [0..<length (ts_seconds ts)] \<and>
    (\<forall>k \<ge> length (ts_seconds ts). recorded start k evs = {#}) \<and>
    (\<forall>w \<in> set ws. w_pending w = empty_histogram)"
proof -
  from ts_run_inv [OF assms(1-4)] obtain ts ws A P c where run: "ts_run start W evs = Inr (ts, ws)"
    and inv: "ts_inv start W evs ts ws A P c" by blast
  have P: "P i = {#}" for i using inv assms(5) unfolding ts_inv_def by blast
  have "held W c P k = {#}" for k unfolding held_def P by simp
  then have "A k = recorded start k evs" for k using inv by (auto simp: ts_inv_def)
  then have A: "A = (\<lambda>k. recorded start k evs)" by blast
  have "holds ts start A" using inv by (simp add: ts_inv_def)
  moreover have "\<forall>w \<in> set ws. w_pending w = empty_histogram"
    using inv by (auto simp: ts_inv_def holding_writer_def P hist_of_empty)
  ultimately show ?thesis using run by (auto simp: holds_def A)
qed

text \<open>C14: The series loses and misplaces nothing. However the calls of the workers interleave
  (fewer than 2^64 calls, latencies and clock readings not negative), no call fails; and once
  every worker has stopped with a flush, the histogram of each second is the histogram of exactly
  the latencies recorded with an instant in that second, by all workers together, and no
  latency belongs to a second past the end of the series.\<close>

theorem timeseries_exact:
  assumes "\<forall>e \<in> set evs. event_ok W e" and "length evs \<le> 2 ^ 64"
    and "0 \<le> start" and "start < 2 ^ 63" and "\<forall>i. settled i evs"
  shows "\<exists>ts ws. ts_run start W evs = Inr (ts, ws) \<and>
    ts_seconds ts = map (\<lambda>k. hist_of (recorded start k evs)) [0..<length (ts_seconds ts)] \<and>
    (\<forall>k \<ge> length (ts_seconds ts). recorded start k evs = {#}) \<and>
    (\<forall>w \<in> set ws. w_pending w = empty_histogram)"
  using assms by (rule ts_run_exact)

definition two_workers :: "ts_event list" where
  "two_workers = [Record 0 500 30, Record 1 1000000011 40, Record 0 1000000012 50, Flush 0, Flush 1]"

theorem timeseries_exact_witness:
  "\<exists>ts ws. ts_run 10 2 two_workers = Inr (ts, ws) \<and>
    ts_seconds ts = map (\<lambda>k. hist_of (recorded 10 k two_workers)) [0..<length (ts_seconds ts)]"
proof -
  have "\<forall>e \<in> set two_workers. event_ok 2 e" "length two_workers \<le> 2 ^ 64" "\<forall>i. settled i two_workers"
    by (simp_all add: two_workers_def settled_def Let_def)
  from timeseries_exact [OF this(1,2) _ _ this(3), of 10] show ?thesis by auto
qed

end
