(* ===== verification/Summary.thy ===== *)
theory Summary
  imports Histogram
begin

text \<open>
  The reportable shape of one run's distribution, \<open>src/stats/summary.hpp\<close> and
  \<open>summary.cpp\<close>: \<open>Summary::of\<close> and \<open>per_second\<close>.
\<close>

record summary =
  s_samples :: u64
  s_overflow :: u64
  s_duration :: nanos
  s_p50 :: nanos
  s_p90 :: nanos
  s_p99 :: nanos
  s_p999 :: nanos
  s_max :: nanos

text \<open>\<open>optional::value()\<close> throws on an empty optional.\<close>

fun optional_value :: "'a option \<Rightarrow> 'a result" where
  "optional_value None = Inl (StdException ''bad optional access'')"
| "optional_value (Some v) = Inr v"

definition percentile_value :: "histogram \<Rightarrow> double \<Rightarrow> nanos result" where
  "percentile_value h p = and_then (percentile h p) optional_value"

definition summary_of :: "histogram \<Rightarrow> nanos \<Rightarrow> summary option result" where
  "summary_of h duration =
     (if duration \<le> 0 then Inl (Assertion ''a run has a positive duration'')
      else if h_count h = 0 then Inr None
      else
        and_then (percentile_value h (Fin 50)) (\<lambda>p50.
        and_then (percentile_value h (Fin 90)) (\<lambda>p90.
        and_then (percentile_value h (Fin 99)) (\<lambda>p99.
        and_then (percentile_value h (to_double (999 / 10))) (\<lambda>p999.
          Inr (Some
            \<lparr>s_samples = h_count h, s_overflow = h_overflow h, s_duration = duration,
             s_p50 = p50, s_p90 = p90, s_p99 = p99, s_p999 = p999, s_max = h_max h\<rparr>))))))"

definition per_second :: "summary \<Rightarrow> double" where
  "per_second s =
     d_div (d_of_u64 (s_samples s)) (d_div (d_of_i64 (s_duration s)) (Fin 1000000000))"

definition percentiles_bounded :: "summary \<Rightarrow> bool" where
  "percentiles_bounded s \<longleftrightarrow> s_overflow s = 0"

subsection \<open>Properties\<close>

lemma p999_double: "to_double (999 / 10) = Fin (rnd (999 / 10))"
  by (intro to_double_Fin) simp

lemma p999_bounds: "99 \<le> rnd (999 / 10)" "rnd (999 / 10) \<le> 100"
  using rnd_lower [of 99 "999 / 10"] rnd_upper [of "999 / 10" 100] rnd_of_int [of 99] rnd_of_int [of 100]
  by simp_all

lemma percentile_value_hist_of:
  assumes "\<forall>l \<in># M. 0 \<le> l \<and> l < 2 ^ 63" and "M \<noteq> {#}" and "size M \<le> 2 ^ 63"
    and "0 \<le> p" and "p \<le> 100"
  shows "percentile_value (hist_of M) (Fin p) =
    Inr (reported M (sample_of_rank M (rank_nat p (size M))))"
  using percentile_hist_of [OF assms] by (simp add: percentile_value_def)

lemma summary_of_hist_of:
  assumes "\<forall>l \<in># M. 0 \<le> l \<and> l < 2 ^ 63" and "M \<noteq> {#}" and "size M \<le> 2 ^ 63" and "0 < d"
  defines "r \<equiv> \<lambda>p. reported M (sample_of_rank M (rank_nat p (size M)))"
  shows "summary_of (hist_of M) d = Inr (Some
    \<lparr>s_samples = of_nat (size M), s_overflow = h_overflow (hist_of M), s_duration = d,
     s_p50 = r 50, s_p90 = r 90, s_p99 = r 99, s_p999 = r (rnd (999 / 10)),
     s_max = h_max (hist_of M)\<rparr>)"
proof -
  have "unat (of_nat (size M) :: u64) = size M" using assms(3) by (intro unat_u64_of_nat) simp
  then have "(of_nat (size M) :: u64) \<noteq> 0"
    using assms(2) by (metis nonempty_has_size less_irrefl unat_0)
  then show ?thesis
    using assms(4) p999_bounds
    by (simp add: summary_of_def p999_double percentile_value_hist_of [OF assms(1-3)] r_def
        hist.total_holding)
qed

lemma summary_of_count:
  "summary_of h d = Inr (Some s) \<Longrightarrow> s_samples s = h_count h \<and> h_count h \<noteq> 0"
  by (auto simp: summary_of_def and_then_Inr_iff split: if_splits)

lemma summary_of_None: "summary_of h d = Inr None \<Longrightarrow> h_count h = 0"
  by (auto simp: summary_of_def and_then_Inr_iff split: if_splits)

lemma sorted_list_ranks:
  assumes "rank_nat p (size M) \<le> rank_nat q (size M)" and "M \<noteq> {#}"
  shows "sample_of_rank M (rank_nat p (size M)) \<le> sample_of_rank M (rank_nat q (size M))"
proof -
  have "rank_nat q (size M) - 1 < length (sorted_list_of_multiset M)"
    using rank_nat_bounds [of "size M" q] assms(2)
    by (metis (no_types) diff_less le_less_trans less_le_trans less_numeral_extra(1) mset_sorted_list_of_multiset
        nonempty_has_size order_less_le size_mset)
  then show ?thesis
    unfolding sample_of_rank_def using assms(1) by (intro sorted_nth_mono) auto
qed

text \<open>C35: A summary's ladder is in order and honest: with all samples at most 60s, at most 2^63 of
  them, and a positive duration, \<open>Summary::of\<close> returns the number of samples, percentiles with
  p50 \<open>\<le>\<close> p90 \<open>\<le>\<close> p99 \<open>\<le>\<close> p999, the exact maximum, and a p999 that exceeds the maximum by at
  most 1/128 of it; it is marked as bounded.\<close>

theorem summary_ladder:
  assumes "ls \<noteq> []" and "length ls \<le> 2 ^ 63" and "\<forall>l \<in> set ls. 0 \<le> l \<and> l \<le> kMaxValue"
    and "0 < d"
  shows "\<exists>h s. fold_result hist_record empty_histogram ls = Inr h \<and>
    summary_of h d = Inr (Some s) \<and> unat (s_samples s) = length ls \<and>
    s_p50 s \<le> s_p90 s \<and> s_p90 s \<le> s_p99 s \<and> s_p99 s \<le> s_p999 s \<and>
    s_max s = Max (set ls) \<and> (s_p999 s - s_max s) * 128 \<le> s_max s \<and>
    percentiles_bounded s"
proof -
  let ?M = "mset ls"
  define n where "n = size ?M"
  define r where "r = (\<lambda>p. reported ?M (sample_of_rank ?M (rank_nat p n)))"
  have M: "\<forall>l \<in># ?M. 0 \<le> l \<and> l < 2 ^ 63" using assms(3) by (auto simp: kMaxValue_def)
  have ne: "?M \<noteq> {#}" "size ?M \<le> 2 ^ 63" using assms(1,2) by simp_all
  have h: "fold_result hist_record empty_histogram ls = Inr (hist_of ?M)"
    using assms(3) by (intro fold_record_hist) auto
  have mem: "sample_of_rank ?M (rank_nat p n) \<in> set ls" for p
    using sample_of_rank_in [of "rank_nat p n" ?M] rank_nat_bounds [of n p] assms(1)
    by (simp add: n_def)
  have mono: "r p \<le> r q" if "p \<le> q" for p q
  proof -
    have "sample_of_rank ?M (rank_nat p n) \<le> sample_of_rank ?M (rank_nat q n)"
      unfolding n_def using rank_nat_mono [OF that] ne(1) by (intro sorted_list_ranks)
    then have "index_of (sample_of_rank ?M (rank_nat p n)) \<le> index_of (sample_of_rank ?M (rank_nat q n))"
      using M mem by (intro index_of_mono) auto
    then show ?thesis
      using mem assms(3) M index_of_nonneg [of "sample_of_rank ?M (rank_nat p n)"]
      by (auto simp: r_def reported_def intro: slot_high_mono)
  qed
  have "0 \<le> Max (set ls)" using assms(1,3) by (meson Max_in finite_set set_empty)
  then have max: "h_max (hist_of ?M) = Max (set ls)" using assms(1) by (simp add: hist_of_def)
  have none: "{#l \<in># ?M. kMaxValue < l#} = {#}"
    unfolding filter_mset_eq_mempty_iff using assms(3) by auto
  have o: "h_overflow (hist_of ?M) = 0"
    unfolding hist_of_def histogram.simps none by simp
  have top: "(r q - Max (set ls)) * 128 \<le> Max (set ls)" for q
  proof -
    let ?s = "sample_of_rank ?M (rank_nat q n)"
    have s: "?s \<le> Max (set ls)" "?s \<le> kMaxValue" "0 \<le> ?s" "?s < 2 ^ 63"
      using mem [of q] assms(3) M by auto
    then have "(r q - ?s) * 128 \<le> ?s"
      using slot_high_error [of ?s] by (simp add: r_def reported_def)
    with s(1) show ?thesis unfolding left_diff_distrib by linarith
  qed
  have len: "unat (of_nat (length ls) :: u64) = length ls"
    using assms(2) by (intro unat_u64_of_nat) simp
  show ?thesis
    using len h summary_of_hist_of [OF M ne assms(4)] mono [of 50 90] mono [of 90 99]
      mono [of 99 "rnd (999 / 10)"] p999_bounds top max o
    by (simp add: percentiles_bounded_def r_def n_def)
qed

theorem summary_ladder_witness:
  "\<exists>h s. fold_result hist_record empty_histogram [1500, 90, 2000000] = Inr h \<and>
    summary_of h 1000 = Inr (Some s) \<and>
    unat (s_samples s) = length [1500, 90, 2000000 :: int] \<and>
    s_p50 s \<le> s_p90 s \<and> s_p90 s \<le> s_p99 s \<and> s_p99 s \<le> s_p999 s \<and>
    s_max s = Max (set [1500, 90, 2000000]) \<and> (s_p999 s - s_max s) * 128 \<le> s_max s \<and>
    percentiles_bounded s"
  by (rule summary_ladder) (simp_all add: kMaxValue_def)

end
