(* ===== verification/Run_Result.thy ===== *)
theory Run_Result
  imports Summary
begin

text \<open>
  The six error counters and the result of one run, \<open>src/load/run_result.hpp\<close>:
  \<open>ErrorCounts\<close> with \<open>total\<close> and \<open>merge\<close>, \<open>RunResult\<close> with \<open>timed\<close>, \<open>untimed\<close> and
  \<open>consistent\<close>. The counters are 64-bit and wrap.
\<close>

record error_counts =
  e_connect :: u64
  e_write :: u64
  e_read :: u64
  e_timeout :: u64
  e_protocol :: u64
  e_rejected :: u64

definition no_errors :: error_counts where
  "no_errors =
     \<lparr>e_connect = 0, e_write = 0, e_read = 0, e_timeout = 0, e_protocol = 0, e_rejected = 0\<rparr>"

definition errors_total :: "error_counts \<Rightarrow> u64" where
  "errors_total e =
     e_connect e + e_write e + e_read e + e_timeout e + e_protocol e + e_rejected e"

definition errors_merge :: "error_counts \<Rightarrow> error_counts \<Rightarrow> error_counts" where
  "errors_merge e other =
     \<lparr>e_connect = e_connect e + e_connect other,
      e_write = e_write e + e_write other,
      e_read = e_read e + e_read other,
      e_timeout = e_timeout e + e_timeout other,
      e_protocol = e_protocol e + e_protocol other,
      e_rejected = e_rejected e + e_rejected other\<rparr>"

record run_result =
  r_attempted :: u64
  r_errors :: error_counts
  r_latency :: "summary option"
  r_duration :: nanos

definition timed :: "run_result \<Rightarrow> u64" where
  "timed r = (case r_latency r of Some s \<Rightarrow> s_samples s | None \<Rightarrow> 0)"

definition untimed :: "run_result \<Rightarrow> u64" where
  "untimed r =
     e_connect (r_errors r) + e_write (r_errors r) + e_read (r_errors r) + e_protocol (r_errors r)"

definition consistent :: "run_result \<Rightarrow> bool" where
  "consistent r \<longleftrightarrow> r_attempted r = timed r + untimed r"

text \<open>The failures that never reach the histogram, over the counters alone.\<close>

definition untimed_errors :: "error_counts \<Rightarrow> u64" where
  "untimed_errors e = e_connect e + e_write e + e_read e + e_protocol e"

lemma untimed_eq: "untimed r = untimed_errors (r_errors r)"
  by (simp add: untimed_def untimed_errors_def)

lemma untimed_errors_merge:
  "untimed_errors (errors_merge a b) = untimed_errors a + untimed_errors b"
  by (simp add: untimed_errors_def errors_merge_def ac_simps)

lemma untimed_errors_none [simp]: "untimed_errors no_errors = 0"
  by (simp add: untimed_errors_def no_errors_def)

lemma errors_total_merge: "errors_total (errors_merge a b) = errors_total a + errors_total b"
  by (simp add: errors_total_def errors_merge_def ac_simps)

lemma errors_merge_comm: "errors_merge a b = errors_merge b a"
  by (simp add: errors_merge_def ac_simps)

lemma errors_merge_assoc: "errors_merge (errors_merge a b) c = errors_merge a (errors_merge b c)"
  by (simp add: errors_merge_def ac_simps)

lemma errors_merge_none: "errors_merge no_errors e = e" "errors_merge e no_errors = e"
  by (simp_all add: errors_merge_def no_errors_def)

text \<open>The summary of a histogram carries its count, so \<open>timed\<close> is that count whether or not
  there is a summary.\<close>

lemma timed_of_summary:
  "summary_of h d = Inr l \<Longrightarrow> r_latency r = l \<Longrightarrow> timed r = h_count h"
  using summary_of_count [of h d] summary_of_None [of h d]
  by (cases l) (auto simp: timed_def)

end
