(* ===== verification/Worker.thy ===== *)
theory Worker
  imports Threads Time_Series Run_Result
begin

text \<open>
  One connection driven closed-loop, \<open>src/load/worker.hpp\<close> and \<open>worker.cpp\<close>: the worker's own counters,
  one turn of the loop of \<open>run\<close>, and \<open>run\<close> itself over the world of \<open>Effects\<close>. The shared time
  series is reached only through the worker's \<open>Writer\<close>; the model keeps the calls of
  \<open>Writer::record\<close> in the order the worker makes them, and \<open>Closed_Loop\<close> gives them, interleaved with
  those of the other workers, to \<open>Time_Series\<close>. The two buffers are allocated once and hold nothing
  from one request to the next: \<open>perform_request\<close> clears \<open>received\<close>.
\<close>

record worker_config =
  wc_connect_timeout :: millis
  wc_read_timeout :: millis
  wc_write_timeout :: millis
  wc_reconnect_delay :: millis
  wc_read_buffer_bytes :: nat

definition default_worker_config :: worker_config where
  "default_worker_config =
     \<lparr>wc_connect_timeout = 1000, wc_read_timeout = 1000, wc_write_timeout = 1000,
      wc_reconnect_delay = 100, wc_read_buffer_bytes = 16384\<rparr>"

record worker =
  wk_histogram :: histogram
  wk_series :: "(instant \<times> nanos) list option"
  wk_errors :: error_counts
  wk_attempted :: u64
  wk_opened :: u64

definition new_worker :: "bool \<Rightarrow> worker" where
  "new_worker series =
     \<lparr>wk_histogram = empty_histogram, wk_series = (if series then Some [] else None),
      wk_errors = no_errors, wk_attempted = 0, wk_opened = 0\<rparr>"

text \<open>The outcomes that reach the histogram, and \<open>series_->record\<close> for them.\<close>

definition reaches_histogram :: "outcome \<Rightarrow> bool" where
  "reaches_histogram out = (out = Succeeded \<or> out = Rejected \<or> out = Timed_Out)"

definition record_series :: "worker \<Rightarrow> exchange \<Rightarrow> ('addr, worker) op" where
  "record_series wk x =
     (case wk_series wk of
        None \<Rightarrow> return_op wk
      | Some calls \<Rightarrow>
          if reaches_histogram (x_outcome x)
          then op_then read_clock (\<lambda>t. return_op (wk\<lparr>wk_series := Some (calls @ [(t, x_elapsed x)])\<rparr>))
          else return_op wk)"

definition count_outcome :: "worker \<Rightarrow> exchange \<Rightarrow> worker result" where
  "count_outcome wk x =
     (let errors = wk_errors wk;
          timed = (\<lambda>errors'. and_then (hist_record (wk_histogram wk) (x_elapsed x)) (\<lambda>h.
            Inr (wk\<lparr>wk_errors := errors', wk_histogram := h\<rparr>)))
      in case x_outcome x of
           Succeeded \<Rightarrow> timed errors
         | Rejected \<Rightarrow> timed (errors\<lparr>e_rejected := e_rejected errors + 1\<rparr>)
         | Timed_Out \<Rightarrow> timed (errors\<lparr>e_timeout := e_timeout errors + 1\<rparr>)
         | Protocol_Error \<Rightarrow> Inr (wk\<lparr>wk_errors := errors\<lparr>e_protocol := e_protocol errors + 1\<rparr>\<rparr>)
         | Read_Failed \<Rightarrow> Inr (wk\<lparr>wk_errors := errors\<lparr>e_read := e_read errors + 1\<rparr>\<rparr>)
         | Write_Failed \<Rightarrow> Inr (wk\<lparr>wk_errors := errors\<lparr>e_write := e_write errors + 1\<rparr>\<rparr>))"

definition count_exchange :: "bool \<Rightarrow> worker \<Rightarrow> exchange \<Rightarrow> ('addr, worker) op" where
  "count_exchange measuring wk x =
     (if measuring
      then op_then (record_series (wk\<lparr>wk_attempted := wk_attempted wk + 1\<rparr>) x) (\<lambda>wk.
             lift (count_outcome wk x))
      else return_op wk)"

text \<open>The handler of a failed connect. The socket is engaged in it when the exception came from
  \<open>set_timeouts\<close>.\<close>

definition connect_failed ::
  "worker_config \<Rightarrow> bool \<Rightarrow> worker \<Rightarrow> nat option
    \<Rightarrow> ('addr, (worker \<times> nat option, worker) turn) op" where
  "connect_failed config measuring wk socket =
     op_then (log_action (Slept (wc_reconnect_delay config))) (\<lambda>_.
       return_op (Again
         (if measuring
          then wk\<lparr>wk_attempted := wk_attempted wk + 1,
                  wk_errors := (wk_errors wk)\<lparr>e_connect := e_connect (wk_errors wk) + 1\<rparr>\<rparr>
          else wk, socket)))"

definition one_request ::
  "worker_config \<Rightarrow> protocol \<Rightarrow> bool \<Rightarrow> worker \<Rightarrow> nat
    \<Rightarrow> ('addr, (worker \<times> nat option, worker) turn) op" where
  "one_request config protocol measuring wk fd =
     op_then (perform_request protocol (wc_read_buffer_bytes config)) (\<lambda>(x, received).
     op_then (count_exchange measuring wk x) (\<lambda>wk.
       if x_usable x then return_op (Again (wk, Some fd))
       else op_then (log_action (Closed fd)) (\<lambda>_. return_op (Again (wk, None)))))"

text \<open>What destroys the \<open>optional<Socket>\<close> when \<open>run\<close> returns.\<close>

definition drop_socket :: "nat option \<Rightarrow> ('addr, unit) op" where
  "drop_socket socket =
     (case socket of Some fd \<Rightarrow> log_action (Closed fd) | None \<Rightarrow> return_op ())"

text \<open>The turn that has no socket yet: connect, set the timeouts, and go on to the request.\<close>

definition connect_first ::
  "worker_config \<Rightarrow> protocol \<Rightarrow> 'addr list \<Rightarrow> bool \<Rightarrow> worker
    \<Rightarrow> ('addr, (worker \<times> nat option, worker) turn) op" where
  "connect_first config protocol addresses measuring wk =
     op_then (attempt_io (connect_any addresses (wc_connect_timeout config))) (\<lambda>c. case c of
         Inl e \<Rightarrow> connect_failed config measuring wk None
       | Inr fd \<Rightarrow>
           op_then (attempt_io (set_timeouts (wc_read_timeout config) (wc_write_timeout config)))
             (\<lambda>s. case s of
                 Inl e \<Rightarrow> connect_failed config measuring wk (Some fd)
               | Inr _ \<Rightarrow>
                   one_request config protocol measuring (wk\<lparr>wk_opened := wk_opened wk + 1\<rparr>) fd))"

definition worker_turn ::
  "worker_config \<Rightarrow> protocol \<Rightarrow> 'addr list \<Rightarrow> instant \<Rightarrow> instant \<Rightarrow> worker \<times> nat option
    \<Rightarrow> ('addr, (worker \<times> nat option, worker) turn) op" where
  "worker_turn config protocol addresses record_from deadline st =
     (case st of (wk, socket) \<Rightarrow>
       op_then read_clock (\<lambda>t.
         if deadline \<le> t then op_then (drop_socket socket) (\<lambda>_. return_op (Exit wk))
         else
           let measuring = record_from \<le> t in
           case socket of
             Some fd \<Rightarrow> one_request config protocol measuring wk fd
           | None \<Rightarrow> connect_first config protocol addresses measuring wk))"

definition worker_run ::
  "worker_config \<Rightarrow> protocol \<Rightarrow> 'addr list \<Rightarrow> instant \<Rightarrow> instant \<Rightarrow> worker \<Rightarrow> ('addr, worker) op" where
  "worker_run config protocol addresses record_from deadline wk =
     iterate (worker_turn config protocol addresses record_from deadline) (wk, None)"

subsection \<open>Every turn makes a system call\<close>

lemma well_behaved_count [behaved]: "well_behaved (count_exchange measuring wk x)"
  unfolding count_exchange_def record_series_def by (auto intro!: behaved split: option.split)

lemma hungry_one_request: "hungry (one_request config protocol measuring wk fd)"
  unfolding one_request_def
  by (intro hungry_first [OF hungry_perform]) (auto intro!: behaved)

lemma well_behaved_one_request [behaved]: "well_behaved (one_request config protocol measuring wk fd)"
  unfolding one_request_def by (auto intro!: behaved)

lemma well_behaved_connect_failed [behaved]: "well_behaved (connect_failed config measuring wk socket)"
  unfolding connect_failed_def by (intro behaved)

lemma hungry_connect_first: "hungry (connect_first config protocol addresses measuring wk)"
  unfolding connect_first_def
  by (intro hungry_first [OF hungry_attempt [OF hungry_connect_any]])
    (auto intro!: behaved split: sum.split)

lemma consumes_worker: "consumes (worker_turn config protocol addresses record_from deadline)"
  unfolding consumes_def
proof (intro allI impI)
  fix st w st' w'
  assume turn: "worker_turn config protocol addresses record_from deadline st w = (Inr (Again st'), w')"
  obtain wk socket where st: "st = (wk, socket)" by fastforce
  let ?t = "w_clock w (w_reads w)" and ?v = "w\<lparr>w_reads := Suc (w_reads w)\<rparr>"
  from turn have "\<not> deadline \<le> ?t"
    by (auto simp: worker_turn_def st op_then_def op_simps drop_socket_def split: option.splits)
  with turn have "(case socket of
        Some fd \<Rightarrow> one_request config protocol (record_from \<le> ?t) wk fd
      | None \<Rightarrow> connect_first config protocol addresses (record_from \<le> ?t) wk) ?v = (Inr (Again st'), w')"
    by (simp add: worker_turn_def st op_then_def op_simps Let_def)
  then have "length (w_kernel w') < length (w_kernel ?v)"
    by (cases socket) (auto dest: hungryD [OF hungry_one_request] hungryD [OF hungry_connect_first])
  then show "length (w_kernel w') < length (w_kernel w)" by simp
qed

subsection \<open>The accounts of a worker\<close>

text \<open>\<open>M\<close> are the latencies the worker has timed.\<close>

definition worker_ok :: "clock \<Rightarrow> instant \<Rightarrow> int multiset \<Rightarrow> worker \<Rightarrow> bool" where
  "worker_ok C record_from M wk \<longleftrightarrow>
     wk_histogram wk = hist_of M \<and> (\<forall>l \<in># M. 0 \<le> l) \<and>
     wk_attempted wk = of_nat (size M) + untimed_errors (wk_errors wk) \<and>
     (\<exists>k \<le> size M. e_timeout (wk_errors wk) + e_rejected (wk_errors wk) = of_nat k) \<and>
     (case wk_series wk of
        None \<Rightarrow> True
      | Some calls \<Rightarrow> image_mset snd (mset calls) = M \<and>
          (\<forall>(t, l) \<in> set calls. record_from \<le> t \<and> (\<exists>i. t = C i)))"

definition counted :: "clock \<Rightarrow> instant \<Rightarrow> bool \<Rightarrow> worker \<Rightarrow> bool" where
  "counted C record_from series wk \<longleftrightarrow>
     (wk_series wk \<noteq> None) = series \<and> (\<exists>M. worker_ok C record_from M wk)"

lemma counted_new: "counted C record_from series (new_worker series)"
  unfolding counted_def
  by (intro conjI exI [of _ "{#}"])
    (simp_all add: worker_ok_def new_worker_def hist_of_empty untimed_errors_def no_errors_def)

lemma counted_opened: "counted C record_from series wk \<Longrightarrow> counted C record_from series (wk\<lparr>wk_opened := n\<rparr>)"
  by (simp add: counted_def worker_ok_def)

lemma counted_connect_error:
  "counted C record_from series wk \<Longrightarrow> counted C record_from series
    (wk\<lparr>wk_attempted := wk_attempted wk + 1,
        wk_errors := (wk_errors wk)\<lparr>e_connect := e_connect (wk_errors wk) + 1\<rparr>\<rparr>)"
  by (auto simp: counted_def worker_ok_def untimed_errors_def ac_simps)

lemma count_outcome_ok:
  assumes M: "worker_ok C record_from M wk" and l: "0 \<le> x_elapsed x" and "record_from \<le> C i"
    and wk1: "wk1 = wk\<lparr>wk_attempted := wk_attempted wk + 1, wk_series := map_option (\<lambda>calls.
      if reaches_histogram (x_outcome x) then calls @ [(C i, x_elapsed x)] else calls) (wk_series wk)\<rparr>"
    and wk': "count_outcome wk1 x = Inr wk'"
    and "(wk_series wk \<noteq> None) = series"
  shows "counted C record_from series wk'"
proof -
  let ?M = "add_mset (x_elapsed x) M"
  from M obtain n where n: "n \<le> size M" "e_timeout (wk_errors wk) + e_rejected (wk_errors wk) = of_nat n"
    by (auto simp: worker_ok_def)
  have k: "\<exists>k \<le> Suc (size M). of_nat n = (of_nat k :: u64)" "\<exists>k \<le> Suc (size M). 1 + of_nat n = (of_nat k :: u64)"
    "\<exists>k \<le> size M. of_nat n = (of_nat k :: u64)"
    using n(1) le_SucI [of n "size M"] by (blast, intro exI [of _ "Suc n"], simp, blast)
  have calls: "case wk_series wk' of None \<Rightarrow> True | Some calls \<Rightarrow>
      image_mset snd (mset calls) = (if reaches_histogram (x_outcome x) then ?M else M) \<and>
      (\<forall>(t, l) \<in> set calls. record_from \<le> t \<and> (\<exists>i. t = C i))"
    using M assms(3) wk'
    by (cases "x_outcome x"; cases "wk_series wk")
      (auto simp: wk1 count_outcome_def worker_ok_def reaches_histogram_def Let_def and_then_Inr_iff)
  have rest: "wk_histogram wk' = hist_of (if reaches_histogram (x_outcome x) then ?M else M)"
    "wk_attempted wk' = of_nat (size (if reaches_histogram (x_outcome x) then ?M else M)) +
      untimed_errors (wk_errors wk')"
    using M l wk'
    by (cases "x_outcome x"; simp add: wk1 count_outcome_def worker_ok_def reaches_histogram_def Let_def
        hist.rec_holding untimed_errors_def; auto)+
  have errors: "\<exists>k \<le> size (if reaches_histogram (x_outcome x) then ?M else M).
      e_timeout (wk_errors wk') + e_rejected (wk_errors wk') = of_nat k"
    using n k wk'
    by (cases "x_outcome x")
      (auto simp: wk1 count_outcome_def reaches_histogram_def Let_def and_then_Inr_iff add.commute
        add.left_commute)
  have "worker_ok C record_from (if reaches_histogram (x_outcome x) then ?M else M) wk'"
    using calls rest errors M l unfolding worker_ok_def by auto
  moreover have "(wk_series wk' \<noteq> None) = series"
    using wk' assms(6) by (cases "x_outcome x") (auto simp: wk1 count_outcome_def Let_def and_then_Inr_iff)
  ultimately show ?thesis unfolding counted_def by blast
qed

lemma triple_count_exchange:
  assumes "clock_ok C" and "record_from \<le> C k \<or> \<not> measuring" and "exchange_sound p x received"
    and ok: "counted C record_from series wk"
  shows "triple (here C (Suc k) L socket) (count_exchange measuring wk x)
    (\<lambda>wk' v. here C (Suc k) L socket v \<and> counted C record_from series wk') E"
proof (cases measuring)
  case False
  with ok show ?thesis by (auto simp: count_exchange_def intro: triple_return)
next
  case True
  with assms(2) have late: "record_from \<le> C i" if "k \<le> i" for i
    using clock_ok_mono [OF assms(1) that] by simp
  from ok obtain M where M: "worker_ok C record_from M wk" and some: "(wk_series wk \<noteq> None) = series"
    by (auto simp: counted_def)
  have l: "0 \<le> x_elapsed x" using assms(3) by (simp add: exchange_sound_def)
  let ?wk = "wk\<lparr>wk_attempted := wk_attempted wk + 1\<rparr>"
  define new where "new = (\<lambda>(t :: instant) calls. if reaches_histogram (x_outcome x) then calls @ [(t, x_elapsed x)] else calls)"
  let ?R = "\<lambda>wk' v. here C (Suc k) L socket v \<and>
    (\<exists>i > k. wk' = ?wk\<lparr>wk_series := map_option (new (C i)) (wk_series wk)\<rparr>)"
  have "triple (here C (Suc k) L socket) (record_series ?wk x) ?R E"
  proof (cases "wk_series wk")
    case None
    then show ?thesis by (auto simp: record_series_def intro!: triple_return)
  next
    case (Some calls)
    show ?thesis
    proof (cases "reaches_histogram (x_outcome x)")
      case True
      have "triple (here C (Suc k) L socket)
          (op_then read_clock (\<lambda>t. return_op (?wk\<lparr>wk_series := Some (calls @ [(t, x_elapsed x)])\<rparr>))) ?R E"
      proof (rule triple_then [OF triple_clock_here], rule triple_return, elim exE conjE)
        fix t v i assume "Suc k \<le> i" "t = C i" "here C (Suc i) L socket v"
        then show "?R (?wk\<lparr>wk_series := Some (calls @ [(t, x_elapsed x)])\<rparr>) v"
          using Some True by (auto simp: new_def intro: here_later intro!: exI [of _ i])
      qed
      with Some True show ?thesis by (simp add: record_series_def)
    next
      case False
      with Some show ?thesis by (auto simp: record_series_def new_def intro!: triple_return)
    qed
  qed
  moreover have "triple (?R wk1) (lift (count_outcome wk1 x))
      (\<lambda>wk' v. here C (Suc k) L socket v \<and> counted C record_from series wk') E" for wk1
  proof (rule triple_lift, elim conjE exE)
    fix v i assume v: "here C (Suc k) L socket v" and i: "k < i"
      and wk1: "wk1 = ?wk\<lparr>wk_series := map_option (new (C i)) (wk_series wk)\<rparr>"
    have "counted C record_from series wk'" if "count_outcome wk1 x = Inr wk'" for wk'
      using count_outcome_ok [OF M l _ wk1 [unfolded new_def] that some] late i by simp
    moreover have "\<exists>wk'. count_outcome wk1 x = Inr wk'"
      using M l by (cases "x_outcome x")
        (auto simp: wk1 count_outcome_def worker_ok_def hist.rec_holding Let_def)
    ultimately show "\<exists>wk'. count_outcome wk1 x = Inr wk' \<and> here C (Suc k) L socket v \<and> counted C record_from series wk'"
      using v by blast
  qed
  ultimately show ?thesis using True unfolding count_exchange_def by (auto intro: triple_then)
qed

text \<open>What a run relies on: a clock with room for the connect timeout, an address, a buffer, and a
  protocol with the framing contract.\<close>

definition setup_ok :: "clock \<Rightarrow> worker_config \<Rightarrow> protocol \<Rightarrow> 'addr list \<Rightarrow> bool" where
  "setup_ok C config protocol addresses \<longleftrightarrow>
     timeout_fits C (wc_connect_timeout config) \<and> 0 < wc_read_buffer_bytes config \<and>
     protocol_ok protocol \<and> addresses \<noteq> []"

lemma triple_connect_failed:
  assumes "counted C record_from series wk"
  shows "triple (here C n L socket) (connect_failed config measuring wk socket)
    (\<lambda>t v. \<exists>wk' s'. t = Again (wk', s') \<and> here C n L s' v \<and> counted C record_from series wk') (\<lambda>e v. e = Blocked)"
  unfolding connect_failed_def
  by (intro triple_then [OF triple_log_here] triple_return)
    (use assms counted_connect_error in auto)

lemma triple_one_request:
  assumes C: "setup_ok C config protocol addresses" and "record_from \<le> C k \<or> \<not> measuring"
    and ok: "counted C record_from series wk"
  shows "triple (here C (Suc k) L (Some fd)) (one_request config protocol measuring wk fd)
    (\<lambda>t v. \<exists>wk' s'. t = Again (wk', s') \<and> here C (Suc k) L s' v \<and> counted C record_from series wk') (\<lambda>e v. e = Blocked)"
proof -
  from C have c: "clock_ok C" "0 < wc_read_buffer_bytes config" "protocol_ok protocol"
    by (auto simp: setup_ok_def timeout_fits_def)
  show ?thesis unfolding one_request_def
  proof (rule triple_then [OF triple_perform [OF c]])
    fix z :: "exchange \<times> string"
    obtain x received where z: "z = (x, received)" by fastforce
    show "triple ((case z of (x, received) \<Rightarrow> \<lambda>v. here C (Suc k) L (Some fd) v \<and> exchange_sound protocol x received))
      ((case z of (x, received) \<Rightarrow>
         op_then (count_exchange measuring wk x) (\<lambda>wk.
           if x_usable x then return_op (Again (wk, Some fd))
           else op_then (log_action (Closed fd)) (\<lambda>_. return_op (Again (wk, None))))))
      (\<lambda>t v. \<exists>wk' s'. t = Again (wk', s') \<and> here C (Suc k) L s' v \<and> counted C record_from series wk')
      (\<lambda>e v. e = Blocked)"
    proof (cases "exchange_sound protocol x received")
      case False
      then show ?thesis by (simp add: z triple_def)
    next
      case True
      have step: "triple (\<lambda>v. here C (Suc k) L (Some fd) v \<and> counted C record_from series wk')
          (if x_usable x then return_op (Again (wk', Some fd))
           else op_then (log_action (Closed fd)) (\<lambda>_. return_op (Again (wk', None))))
          (\<lambda>t v. \<exists>wk' s'. t = Again (wk', s') \<and> here C (Suc k) L s' v \<and> counted C record_from series wk')
          (\<lambda>e v. e = Blocked)" for wk'
      proof (cases "counted C record_from series wk'")
        case True
        then show ?thesis
          by (auto intro!: triple_return triple_then [OF triple_close])
      qed (simp add: triple_def)
      show ?thesis using True
        by (simp add: z triple_then [OF triple_count_exchange [OF c(1) assms(2) True ok] step])
    qed
  qed
qed

definition worker_at ::
  "clock \<Rightarrow> instant \<Rightarrow> bool \<Rightarrow> 'addr action list \<Rightarrow> worker \<times> nat option \<Rightarrow> 'addr world \<Rightarrow> bool" where
  "worker_at C record_from series L st v \<longleftrightarrow> (case st of (wk, socket) \<Rightarrow>
     here C 0 L socket v \<and> counted C record_from series wk)"

lemma triple_connect_first:
  assumes C: "setup_ok C config protocol addresses" and "record_from \<le> C k \<or> \<not> measuring"
    and ok: "counted C record_from series wk"
  shows "triple (here C (Suc k) L None) (connect_first config protocol addresses measuring wk)
    (\<lambda>t v. \<exists>wk' s'. t = Again (wk', s') \<and> here C (Suc k) L s' v \<and> counted C record_from series wk') (\<lambda>e v. e = Blocked)"
proof -
  have fits: "timeout_fits C (wc_connect_timeout config)" "addresses \<noteq> []"
    using C by (auto simp: setup_ok_def)
  note request = triple_one_request [OF C assms(2) counted_opened [OF ok]]
  note failed = triple_connect_failed [OF ok]
  have "triple (here C (Suc k) L (Some fd))
      (op_then (attempt_io (set_timeouts (wc_read_timeout config) (wc_write_timeout config)))
         (\<lambda>s. case s of
             Inl e \<Rightarrow> connect_failed config measuring wk (Some fd)
           | Inr _ \<Rightarrow> one_request config protocol measuring (wk\<lparr>wk_opened := wk_opened wk + 1\<rparr>) fd))
      (\<lambda>t v. \<exists>wk' s'. t = Again (wk', s') \<and> here C (Suc k) L s' v \<and> counted C record_from series wk') (\<lambda>e v. e = Blocked)" for fd
    by (rule triple_then [OF triple_set_timeouts]) (use request failed in \<open>auto split: sum.split\<close>)
  with failed show ?thesis
    unfolding connect_first_def
    by (intro triple_then [OF triple_connect_any [OF fits]]) (auto split: sum.split)
qed

lemma triple_worker_turn:
  assumes C: "setup_ok C config protocol addresses"
  shows "triple (worker_at C record_from series L st)
    (worker_turn config protocol addresses record_from deadline st)
    (\<lambda>t. case t of Again st' \<Rightarrow> worker_at C record_from series L st'
       | Exit wk \<Rightarrow> (\<lambda>v. here C 0 L None v \<and> counted C record_from series wk))
    (\<lambda>e v. e = Blocked)"
    (is "triple _ _ ?Q _")
proof (cases "counted C record_from series (fst st)")
  case False
  then show ?thesis by (simp add: worker_at_def triple_def split_beta)
next
  case ok: True
  obtain wk socket where st: "st = (wk, socket)" by fastforce
  let ?rest = "\<lambda>t. if deadline \<le> t then op_then (drop_socket socket) (\<lambda>_. return_op (Exit wk))
    else case socket of
        Some fd \<Rightarrow> one_request config protocol (record_from \<le> t) wk fd
      | None \<Rightarrow> connect_first config protocol addresses (record_from \<le> t) wk"
  have main: "triple (here C (Suc k) L socket) (?rest (C k)) ?Q (\<lambda>e v. e = Blocked)" for k
  proof (cases "deadline \<le> C k")
    case True
    have "triple (here C (Suc k) L socket) (drop_socket socket) (\<lambda>_. here C (Suc k) L None) (\<lambda>e v. e = Blocked)"
      by (cases socket) (auto simp: drop_socket_def intro: triple_close triple_return)
    then show ?thesis using True ok
      by (auto simp: st intro!: triple_then triple_return intro: here_later)
  next
    case False
    have "triple (here C (Suc k) L socket) (?rest (C k))
        (\<lambda>t v. \<exists>wk' s'. t = Again (wk', s') \<and> here C (Suc k) L s' v \<and> counted C record_from series wk') (\<lambda>e v. e = Blocked)"
      using False ok
      by (cases socket) (simp_all add: st triple_one_request [OF C] triple_connect_first [OF C])
    then show ?thesis
      by (rule triple_weaken) (auto simp: worker_at_def intro: here_later)
  qed
  have "triple (here C 0 L socket) (op_then read_clock ?rest) ?Q (\<lambda>e v. e = Blocked)"
    by (rule triple_then [OF triple_clock_here]) (use main in \<open>fastforce simp: triple_def\<close>)
  moreover have "worker_at C record_from series L st = here C 0 L socket"
    using ok by (simp add: st worker_at_def fun_eq_iff)
  moreover have "worker_turn config protocol addresses record_from deadline st = op_then read_clock ?rest"
    unfolding st worker_turn_def Let_def by simp
  ultimately show ?thesis by simp
qed

lemma triple_worker_run:
  assumes "setup_ok C config protocol addresses" and "counted C record_from series wk"
  shows "triple (here C 0 L None) (worker_run config protocol addresses record_from deadline wk)
    (\<lambda>wk' v. here C 0 L None v \<and> counted C record_from series wk') (\<lambda>e v. e = Blocked)"
  unfolding worker_run_def
  by (rule triple_weaken [OF triple_iterate [where I = "worker_at C record_from series L",
        OF consumes_worker triple_worker_turn [OF assms(1)]]])
    (use assms(2) in \<open>auto simp: worker_at_def\<close>)

subsection \<open>Properties\<close>


lemmas run_simps = worker_run_def worker_turn_def connect_first_def one_request_def connect_failed_def
  count_exchange_def record_series_def count_outcome_def reaches_histogram_def drop_socket_def
  new_worker_def default_worker_config_def perform_request_def attempt_io_def catching_def iterate_def
  quiet_world_def op_then_def write_all_def write_turn_def exchange_turn_def read_some_def read_turn_def
  syscall_def op_simps raw_echo_def raw_consume_def raw_succeeded_def Let_def elapsed_since_def between_def
  int64_ok_def connect_any_def connect_def connect_owned_def finish_connect_def checked_call_def adopt_def
  owning_def disable_sigpipe_def set_nonblocking_def set_timeouts_def fresh_exchange_def

definition accepted :: "sysret list" where
  "accepted = [Done 5 '''', Done 0 '''', Done 0 '''', Done 0 '''', Done 0 '''', Done 0 '''', Done 0 '''']"

definition accepted_log :: "string action list" where
  "accepted_log = [Opened 5, No_Sigpipe 5, Nonblocking 5 True, Connecting ''::1'', Nonblocking 5 False]"

lemma test_clock_eval_more [simp]:
  "test_clock (Suc (Suc (Suc 0))) = 3" "test_clock (Suc (Suc (Suc (Suc 0)))) = 4"
  by (simp_all add: test_clock_def)

lemma echo_setup: "setup_ok test_clock default_worker_config (raw_echo ''ab'') [''::1'']"
proof -
  have "make_raw_echo 2 = Inr ''ab''"
    by (simp add: make_raw_echo_def raw_payload_def upt_rec char_of_def bit_iff_odd)
  then have "protocol_ok (raw_echo ''ab'')" by (rule raw_echo_ok)
  moreover have "test_clock i + 1000 * 1000000 < 2 ^ 63" for i
    by (simp add: test_clock_def)
  ultimately show ?thesis
    by (simp add: setup_ok_def timeout_fits_def clock_ok_test default_worker_config_def)
qed

lemma echo_run:
  "worker_run default_worker_config (raw_echo ''ab'') [''::1''] 0 4 (new_worker True)
      (quiet_world (accepted @ [Done 0 '''', Done 0 '''', Done 2 '''', Done 2 ''ab''])) =
    (Inr \<lparr>wk_histogram = hist_of {#1#}, wk_series = Some [(3, 1)], wk_errors = no_errors,
        wk_attempted = 1, wk_opened = 1\<rparr>,
     (quiet_world [])\<lparr>w_reads := 5, w_log := accepted_log @ [Sent ''ab'', Closed 5]\<rparr>)"
  by (simp add: run_simps accepted_def accepted_log_def hist_of_empty [symmetric] hist.rec_holding)


text \<open>A connection whose timeouts could not be set is used all the same. When \<open>setsockopt\<close> fails after a
  successful connect, the handler counts a connect error and sleeps, but the \<open>optional\<close> already
  holds the socket: the next turn sends its request on it with no read or write timeout, and
  \<open>connections_opened\<close> never counts it.\<close>

theorem untimed_connection_is_used:
  "worker_run default_worker_config (raw_echo ''ab'') [''::1''] 0 4 (new_worker False)
      (quiet_world (accepted @ [Fail (Errno 22), Done 2 '''', Done 2 ''ab''])) =
    (Inr \<lparr>wk_histogram = hist_of {#1#}, wk_series = None, wk_errors = no_errors\<lparr>e_connect := 1\<rparr>,
        wk_attempted = 2, wk_opened = 0\<rparr>,
     (quiet_world [])\<lparr>w_reads := 5, w_log := accepted_log @ [Slept 100, Sent ''ab'', Closed 5]\<rparr>)"
  by (simp add: run_simps accepted_def accepted_log_def hist_of_empty [symmetric] hist.rec_holding no_errors_def)

end
