(* ===== verification/Endpoint.thy ===== *)
theory Endpoint
  imports Strings
begin

text \<open>
  A host and port, \<open>src/core/endpoint.hpp\<close> and \<open>endpoint.cpp\<close>: the validating constructor
  \<open>make_endpoint\<close>, the hand-rolled \<open>parse_port\<close> (its accumulator is a \<open>uint32_t\<close>), the strict
  \<open>Endpoint::parse\<close>, \<open>is_ipv6\<close> and \<open>str\<close>. The specification is \<open>denotes\<close>: the grammar of the
  two textual forms.
\<close>

record endpoint =
  ep_host :: string
  ep_port :: u16

definition reject :: "string \<Rightarrow> string \<Rightarrow> 'a result" where
  "reject text why = Inl (InvalidEndpoint (''cannot parse endpoint '' @ in_quotes text @ '': '' @ why))"

text \<open>A character between apostrophes.\<close>

definition in_apostrophes :: "char \<Rightarrow> string" where
  "in_apostrophes c = [CHR 0x27, c, CHR 0x27]"

fun port_digits :: "string \<Rightarrow> 32 word \<Rightarrow> string \<Rightarrow> 32 word result" where
  "port_digits whole port [] = Inr port"
| "port_digits whole port (c # s) =
     (if \<not> is_digit c then reject whole (''port must be decimal digits, found '' @ in_apostrophes c)
      else let port = port * 10 + of_nat (digit_val c)
           in if 65535 < port then reject whole ''port must be at most 65535'' else port_digits whole port s)"

definition parse_port :: "string \<Rightarrow> string \<Rightarrow> u16 result" where
  "parse_port text whole =
     (if text = [] then reject whole ''port is missing''
      else and_then (port_digits whole 0 text) (\<lambda>port. Inr (ucast port)))"

definition make_endpoint :: "string \<Rightarrow> u16 \<Rightarrow> endpoint result" where
  "make_endpoint host port =
     (if host = [] then Inl (InvalidEndpoint ''endpoint host must not be empty'')
      else if find_char (CHR ''['') host \<noteq> None \<or> find_char (CHR '']'') host \<noteq> None
      then Inl (InvalidEndpoint (''endpoint host must not contain brackets, got '' @ in_quotes host @
        '' '' @ em_dash @ '' use Endpoint::parse for '' @ in_quotes ''[::1]:8080'' @ '' form''))
      else if port = 0 then Inl (InvalidEndpoint (''endpoint port must not be zero, for host '' @ host))
      else Inr \<lparr>ep_host = host, ep_port = port\<rparr>)"

definition split_host_port :: "string \<Rightarrow> (string \<times> string) result" where
  "split_host_port text =
     (case text of
        [] \<Rightarrow> reject text ''empty''
      | first # _ \<Rightarrow>
          if first = CHR ''['' then
            (case find_char (CHR '']'') text of
               None \<Rightarrow> reject text (''unclosed '' @ in_apostrophes (CHR ''['') @ '' in IPv6 address'')
             | Some close \<Rightarrow>
                 let host = take (close - 1) (drop 1 text); rest = drop (close + 1) text
                 in if rest = [] \<or> hd rest \<noteq> CHR '':''
                    then reject text (''bracketed IPv6 address must be followed by '' @ in_quotes '':port'')
                    else if find_char (CHR '':'') host = None
                    then reject text (''brackets are for IPv6 addresses, which contain '' @ in_apostrophes (CHR '':''))
                    else Inr (host, drop 1 rest))
          else
            (case rfind_char (CHR '':'') text of
               None \<Rightarrow> reject text (''expected '' @ in_quotes ''host:port'')
             | Some colon \<Rightarrow>
                 let host = take colon text; port = drop (colon + 1) text
                 in if find_char (CHR '':'') host \<noteq> None
                    then reject text (''IPv6 addresses must be bracketed, as '' @ in_quotes ''[::1]:8080'')
                    else Inr (host, port)))"

definition invalid_host_char :: "char \<Rightarrow> bool" where
  "invalid_host_char c \<longleftrightarrow>
     c = CHR '' '' \<or> c = CHR 0x09 \<or> c = CHR ''/'' \<or> c = CHR 0x5C \<or> c = CHR ''@'' \<or> c = CHR ''?''"

definition endpoint_parse :: "string \<Rightarrow> endpoint result" where
  "endpoint_parse text =
     and_then (split_host_port text) (\<lambda>(host, port).
       (case List.find invalid_host_char host of
          Some c \<Rightarrow> reject text (''host contains an invalid character '' @ in_apostrophes c)
        | None \<Rightarrow> and_then (parse_port port text) (\<lambda>p. make_endpoint host p)))"

definition is_ipv6 :: "endpoint \<Rightarrow> bool" where
  "is_ipv6 e \<longleftrightarrow> find_char (CHR '':'') (ep_host e) \<noteq> None"

definition endpoint_str :: "endpoint \<Rightarrow> string" where
  "endpoint_str e =
     (if is_ipv6 e
      then ''['' @ ep_host e @ '']:'' @ string_of_nat (unat (ep_port e))
      else ep_host e @ '':'' @ string_of_nat (unat (ep_port e)))"

subsection \<open>Ports\<close>

definition port_text :: "string \<Rightarrow> u16 \<Rightarrow> bool" where
  "port_text s p \<longleftrightarrow> s \<noteq> [] \<and> (\<forall>c \<in> set s. is_digit c) \<and> dec_value 0 s = unat p"

lemma port_digits_step:
  assumes "unat (p :: 32 word) \<le> 65535" and "d \<le> 9"
  shows "unat (p * 10 + of_nat d) = unat p * 10 + d"
proof -
  have "unat (of_nat d :: 32 word) = d" using assms(2) by (simp add: unat_of_nat)
  then show ?thesis using assms by (simp add: unat_word_ariths)
qed

lemma port_digits_iff:
  assumes "unat p \<le> 65535"
  shows "port_digits whole p s = Inr q \<longleftrightarrow>
    (\<forall>c \<in> set s. is_digit c) \<and> dec_value (unat p) s \<le> 65535 \<and> unat q = dec_value (unat p) s"
  using assms
proof (induction s arbitrary: p)
  case Nil
  then show ?case by (auto simp: word_unat_eq_iff)
next
  case (Cons c s)
  let ?q = "p * 10 + of_nat (digit_val c)"
  show ?case
  proof (cases "is_digit c")
    case True
    then have q: "unat ?q = unat p * 10 + digit_val c"
      using Cons.prems by (intro port_digits_step) simp_all
    have "65535 < ?q \<longleftrightarrow> 65535 < unat ?q" by (simp add: word_less_nat_alt)
    with q True Cons.IH [of ?q] dec_value_ge [of "unat ?q" s] show ?thesis
      by (auto simp: reject_def Let_def)
  qed (simp add: reject_def)
qed

lemma unat_u16_le: "unat (p :: u16) \<le> 65535"
proof -
  have "unat p < 2 ^ LENGTH(16)" by (rule unsigned_less)
  then show ?thesis by simp
qed

lemma parse_port_iff: "parse_port s whole = Inr p \<longleftrightarrow> port_text s p"
proof -
  have c: "unat (ucast q :: u16) = unat q" if "unat (q :: 32 word) \<le> 65535" for q
    using that by (simp add: unsigned_ucast_eq take_bit_nat_eq_self)
  have "unat (ucast p :: 32 word) = unat p"
    using unat_u16_le [of p] by (simp add: unsigned_ucast_eq take_bit_nat_eq_self)
  then have u: "\<exists>q :: 32 word. unat q = unat p" by blast
  show ?thesis
  proof
    assume "parse_port s whole = Inr p"
    then obtain q where "s \<noteq> []" "port_digits whole 0 s = Inr q" "p = ucast q"
      by (auto simp: parse_port_def reject_def and_then_Inr_iff split: if_splits)
    then show "port_text s p" using c [of q] port_digits_iff [of 0 whole s q] by (simp add: port_text_def)
  next
    assume *: "port_text s p"
    from u obtain q :: "32 word" where q: "unat q = unat p" by blast
    then have "p = ucast q" using c [of q] unat_u16_le [of p] by (simp add: word_unat_eq_iff)
    then show "parse_port s whole = Inr p"
      using * q port_digits_iff [of 0 whole s q] unat_u16_le [of p] by (simp add: parse_port_def port_text_def)
  qed
qed

subsection \<open>What the two textual forms denote\<close>

text \<open>The characters that no host has: brackets, blank, tab, slash, backslash, at and question mark.\<close>

definition host_ok :: "string \<Rightarrow> bool" where
  "host_ok h \<longleftrightarrow> h \<noteq> [] \<and>
     set h \<inter> {CHR ''['', CHR '']'', CHR '' '', CHR 0x09, CHR ''/'', CHR 0x5C, CHR ''@'', CHR ''?''} = {}"

lemma host_ok_iff: "host_ok h \<longleftrightarrow> h \<noteq> [] \<and>
    (\<forall>c \<in> set h. c \<noteq> CHR ''['' \<and> c \<noteq> CHR '']'' \<and> \<not> invalid_host_char c)"
  by (auto simp: host_ok_def invalid_host_char_def)

definition denotes :: "string \<Rightarrow> endpoint \<Rightarrow> bool" where
  "denotes text e \<longleftrightarrow>
     host_ok (ep_host e) \<and> ep_port e \<noteq> 0 \<and>
     (\<exists>port. port_text port (ep_port e) \<and>
       text = (if CHR '':'' \<in> set (ep_host e) then ''['' @ ep_host e @ '']:'' @ port
               else ep_host e @ '':'' @ port))"

lemma make_endpoint_iff:
  "make_endpoint h p = Inr e \<longleftrightarrow>
     h \<noteq> [] \<and> CHR ''['' \<notin> set h \<and> CHR '']'' \<notin> set h \<and> p \<noteq> 0 \<and> e = \<lparr>ep_host = h, ep_port = p\<rparr>"
  by (auto simp: make_endpoint_def find_char_None)

lemma reject_not_Inr [simp]: "reject t why \<noteq> Inr x"
  by (simp add: reject_def)

lemma split_bracket_eq:
  "split_host_port (CHR ''['' # s) =
     (case find_char (CHR '']'') s of
        None \<Rightarrow> reject (CHR ''['' # s) (''unclosed '' @ in_apostrophes (CHR ''['') @ '' in IPv6 address'')
      | Some close \<Rightarrow>
          if drop (Suc close) s = [] \<or> hd (drop (Suc close) s) \<noteq> CHR '':''
          then reject (CHR ''['' # s) (''bracketed IPv6 address must be followed by '' @ in_quotes '':port'')
          else if CHR '':'' \<notin> set (take close s) then reject (CHR ''['' # s)
            (''brackets are for IPv6 addresses, which contain '' @ in_apostrophes (CHR '':''))
          else Inr (take close s, drop (Suc (Suc close)) s))"
proof -
  have f: "find_char (CHR '']'') (CHR ''['' # s) = map_option Suc (find_char (CHR '']'') s)" by simp
  show ?thesis
    unfolding split_host_port_def Let_def find_char_None list.case f
    by (cases "find_char (CHR '']'') s") simp_all
qed

lemma split_colon_eq:
  "s \<noteq> [] \<Longrightarrow> hd s \<noteq> CHR ''['' \<Longrightarrow> split_host_port s =
     (case rfind_char (CHR '':'') s of
        None \<Rightarrow> reject s (''expected '' @ in_quotes ''host:port'')
      | Some colon \<Rightarrow>
          if CHR '':'' \<in> set (take colon s) then reject s (''IPv6 addresses must be bracketed, as '' @ in_quotes ''[::1]:8080'')
          else Inr (take colon s, drop (Suc colon) s))"
  unfolding split_host_port_def Let_def find_char_None
  by (cases "rfind_char (CHR '':'') s"; cases s) (simp_all del: rfind_char.simps)

lemma split_bracketed:
  assumes "split_host_port (CHR ''['' # s) = Inr (h, p)"
  shows "s = h @ '']:'' @ p \<and> CHR '':'' \<in> set h"
proof -
  from assms obtain close where c: "find_char (CHR '']'') s = Some close"
    unfolding split_bracket_eq by (cases "find_char (CHR '']'') s") simp_all
  let ?r = "drop (Suc close) s"
  from assms c have r: "?r \<noteq> []" "hd ?r = CHR '':''" "h = take close s" "CHR '':'' \<in> set h"
      "p = drop (Suc (Suc close)) s"
    unfolding split_bracket_eq by (simp_all split: if_splits)
  then have "?r = CHR '':'' # p" by (cases ?r) (simp_all add: drop_Suc [of "Suc close"] tl_drop [symmetric])
  moreover have "s = take close s @ CHR '']'' # ?r" using find_char_Some [OF c] by simp
  ultimately show ?thesis using r(3,4) by simp
qed

lemma split_unbracketed:
  assumes "split_host_port s = Inr (h, p)" and "s \<noteq> []" and "hd s \<noteq> CHR ''[''"
  shows "s = h @ '':'' @ p \<and> CHR '':'' \<notin> set h"
proof -
  note eq = split_colon_eq [OF assms(2,3)]
  from assms(1) obtain c where c: "rfind_char (CHR '':'') s = Some c"
    unfolding eq by (cases "rfind_char (CHR '':'') s") simp_all
  with assms(1) have "h = take c s" "p = drop (Suc c) s" "CHR '':'' \<notin> set h"
    unfolding eq by (simp_all split: if_splits)
  with rfind_char_Some [OF c] show ?thesis by simp
qed

lemma split_of_bracketed:
  "CHR '']'' \<notin> set h \<Longrightarrow> CHR '':'' \<in> set h \<Longrightarrow>
    split_host_port (''['' @ h @ '']:'' @ p) = Inr (h, p)"
  using find_char_append [of "CHR '']''" h "CHR '':'' # p"] by (simp add: split_bracket_eq)

lemma split_of_unbracketed:
  "h \<noteq> [] \<Longrightarrow> CHR ''['' \<notin> set h \<Longrightarrow> CHR '':'' \<notin> set h \<Longrightarrow> CHR '':'' \<notin> set p \<Longrightarrow>
    split_host_port (h @ '':'' @ p) = Inr (h, p)"
proof -
  assume h: "h \<noteq> []" "CHR ''['' \<notin> set h" "CHR '':'' \<notin> set h" "CHR '':'' \<notin> set p"
  then have "hd (h @ '':'' @ p) \<noteq> CHR ''[''" using hd_in_set [of h] by (metis hd_append2)
  then show "split_host_port (h @ '':'' @ p) = Inr (h, p)"
    using h rfind_char_append [of "CHR '':''" p h] split_colon_eq [of "h @ '':'' @ p"] by simp
qed

lemma port_text_no_colon: "port_text p n \<Longrightarrow> CHR '':'' \<notin> set p"
  by (auto simp: port_text_def is_digit_def)

lemma string_of_nat_no_colon: "CHR '':'' \<notin> set (string_of_nat n)"
  using string_of_nat_digits [of n] by (auto simp: is_digit_def)

lemma endpoint_parse_Inr:
  "endpoint_parse text = Inr e \<longleftrightarrow>
     (\<exists>port. split_host_port text = Inr (ep_host e, port) \<and> host_ok (ep_host e) \<and>
        port_text port (ep_port e) \<and> ep_port e \<noteq> 0)" (is "?l \<longleftrightarrow> ?r")
proof
  assume ?l
  then obtain h port p where "split_host_port text = Inr (h, port)" "List.find invalid_host_char h = None"
    "parse_port port text = Inr p" "make_endpoint h p = Inr e"
    unfolding endpoint_parse_def and_then_Inr_iff by (auto simp: and_then_Inr_iff split: option.splits)
  then show ?r
    unfolding parse_port_iff make_endpoint_iff
    by (intro exI [of _ port]) (auto simp: host_ok_iff find_None_iff)
next
  assume ?r
  then obtain port where "split_host_port text = Inr (ep_host e, port)" "host_ok (ep_host e)"
    "parse_port port text = Inr (ep_port e)" "ep_port e \<noteq> 0" unfolding parse_port_iff by blast
  moreover from this have "make_endpoint (ep_host e) (ep_port e) = Inr e"
    unfolding make_endpoint_iff by (auto simp: host_ok_iff)
  moreover have "List.find invalid_host_char (ep_host e) = None"
    using \<open>host_ok (ep_host e)\<close> by (auto simp: host_ok_iff find_None_iff)
  ultimately show ?l by (simp add: endpoint_parse_def)
qed

lemma port_text_string_of_nat: "port_text (string_of_nat (unat p)) p"
  by (simp add: port_text_def string_of_nat_digits)

subsection \<open>Properties\<close>

text \<open>C31: \<open>Endpoint::parse\<close> accepts exactly the texts of its grammar: \<open>host:port\<close> where the host
  has no colon, or \<open>[host]:port\<close> where it has one; the host is not empty and holds no bracket
  and no blank, tab, slash, backslash, at or question mark; the port is a decimal number, with any
  leading zeros, from 1 to 65535. The endpoint it returns has that host and that port.\<close>

theorem endpoint_parse_iff:
  "endpoint_parse text = Inr e \<longleftrightarrow> denotes text e"
proof
  assume "endpoint_parse text = Inr e"
  then obtain port where p: "split_host_port text = Inr (ep_host e, port)" "host_ok (ep_host e)"
    "port_text port (ep_port e)" "ep_port e \<noteq> 0" unfolding endpoint_parse_Inr by blast
  then have "text \<noteq> []" by (auto simp: split_host_port_def)
  with p(1) split_bracketed [of "tl text" "ep_host e" port] split_unbracketed [of "text" "ep_host e" port]
  have "text = (if CHR '':'' \<in> set (ep_host e) then ''['' @ ep_host e @ '']:'' @ port
      else ep_host e @ '':'' @ port)"
    by (cases "text"; cases "hd text = CHR ''[''") auto
  with p show "denotes text e" unfolding denotes_def by blast
next
  assume "denotes text e"
  then obtain port where p: "host_ok (ep_host e)" "ep_port e \<noteq> 0" "port_text port (ep_port e)"
    "text = (if CHR '':'' \<in> set (ep_host e) then ''['' @ ep_host e @ '']:'' @ port
               else ep_host e @ '':'' @ port)" unfolding denotes_def by blast
  have "ep_host e \<noteq> []" "CHR ''['' \<notin> set (ep_host e)" "CHR '']'' \<notin> set (ep_host e)"
    using p(1) by (auto simp: host_ok_iff)
  then have "split_host_port text = Inr (ep_host e, port)"
    using p(4) port_text_no_colon [OF p(3)] split_of_bracketed split_of_unbracketed
    by (cases "CHR '':'' \<in> set (ep_host e)") simp_all
  with p show "endpoint_parse text = Inr e" unfolding endpoint_parse_Inr by blast
qed

text \<open>What \<open>str\<close> stamps into the CSV header reproduces the run: for every endpoint that
  \<open>parse\<close> returned, IPv6 or not, \<open>parse\<close> of its \<open>str\<close> is that endpoint again.\<close>

theorem endpoint_roundtrip:
  assumes "endpoint_parse text = Inr e"
  shows "endpoint_parse (endpoint_str e) = Inr e"
proof -
  from assms have e: "host_ok (ep_host e)" "ep_port e \<noteq> 0" unfolding endpoint_parse_Inr by blast+
  have "split_host_port (endpoint_str e) = Inr (ep_host e, string_of_nat (unat (ep_port e)))"
    using e(1) string_of_nat_no_colon split_of_bracketed [of "ep_host e" "string_of_nat (unat (ep_port e))"]
      split_of_unbracketed [of "ep_host e" "string_of_nat (unat (ep_port e))"]
    by (auto simp: endpoint_str_def is_ipv6_def find_char_None host_ok_iff)
  with e port_text_string_of_nat show ?thesis unfolding endpoint_parse_Inr by blast
qed

text \<open>The two forms, read.\<close>

lemma parse_loopback: "endpoint_parse ''[::1]:08080'' = Inr \<lparr>ep_host = ''::1'', ep_port = 8080\<rparr>"
  unfolding endpoint_parse_Inr
proof (intro exI [of _ "''08080''"] conjI)
  show "split_host_port ''[::1]:08080'' = Inr (ep_host \<lparr>ep_host = ''::1'', ep_port = 8080\<rparr>, ''08080'')"
    by (simp add: split_bracket_eq)
  show "port_text ''08080'' (ep_port \<lparr>ep_host = ''::1'', ep_port = 8080\<rparr>)"
    by (simp add: port_text_def is_digit_def digit_val_def)
qed (simp_all add: host_ok_iff invalid_host_char_def)

theorem endpoint_roundtrip_witness:
  "endpoint_parse (endpoint_str \<lparr>ep_host = ''::1'', ep_port = 8080\<rparr>)
     = Inr \<lparr>ep_host = ''::1'', ep_port = 8080\<rparr>"
  by (rule endpoint_roundtrip [OF parse_loopback])

text \<open>The round trip that the header promises of every endpoint holds only for parsed ones: the
  constructor accepts hosts that \<open>parse\<close> rejects. An endpoint built with the host
  \<open>a b\<close> has a \<open>str\<close> that does not parse.\<close>

theorem constructed_endpoint_may_not_roundtrip:
  "\<exists>e. make_endpoint ''a b'' 80 = Inr e \<and>
     endpoint_parse (endpoint_str e) =
       reject ''a b:80'' (''host contains an invalid character '' @ in_apostrophes (CHR '' ''))"
proof (intro exI conjI)
  show "make_endpoint ''a b'' 80 = Inr \<lparr>ep_host = ''a b'', ep_port = 80\<rparr>"
    by (simp add: make_endpoint_def)
  have "split_host_port (''a b'' @ '':'' @ string_of_nat (unat (80 :: u16)))
      = Inr (''a b'', string_of_nat (unat (80 :: u16)))"
    by (intro split_of_unbracketed) (simp_all add: string_of_nat_no_colon)
  moreover have "string_of_nat (unat (80 :: u16)) = ''80''" by code_simp
  ultimately show "endpoint_parse (endpoint_str \<lparr>ep_host = ''a b'', ep_port = 80\<rparr>)
      = reject ''a b:80'' (''host contains an invalid character '' @ in_apostrophes (CHR '' ''))"
    by (simp add: endpoint_parse_def endpoint_str_def is_ipv6_def invalid_host_char_def)
qed

end
