(* ===== verification/Closed_Loop.thy ===== *)
theory Closed_Loop
  imports Worker Endpoint
begin

text \<open>
  A closed-loop run, \<open>src/load/closed_loop.hpp\<close> and \<open>closed_loop.cpp\<close>: resolve, start the workers, wait for
  them, merge. What the run meets is the record \<open>setting\<close>: the worlds of the threads the system can
  start (creating one more fails), the clock of the main thread, and the order in which
  the calls of all workers on the shared time series take place. Name resolution is a parameter.
\<close>

record plan =
  pl_target :: endpoint
  pl_connections :: nat
  pl_duration :: millis
  pl_warmup :: millis
  pl_worker :: worker_config
  pl_timeseries :: bool

record closed_loop_run =
  cl_result :: run_result
  cl_histogram :: histogram
  cl_requested :: nat
  cl_started :: nat
  cl_opened :: u64
  cl_resolution :: nanos
  cl_per_second :: "histogram list"

record 'addr setting =
  st_threads :: "'addr world list"
  st_clock :: clock
  st_calls :: "ts_event list"

text \<open>\<open>worker->finish()\<close> of the workers in turn, after all their own calls.\<close>

definition finishing :: "nat \<Rightarrow> ts_event list" where
  "finishing n = map Flush [0..<n]"

definition merge_worker ::
  "histogram \<times> error_counts \<times> u64 \<times> u64 \<Rightarrow> worker \<Rightarrow> histogram \<times> error_counts \<times> u64 \<times> u64" where
  "merge_worker acc wk =
     (case acc of (h, errors, attempted, connects) \<Rightarrow>
       (hist_merge h (wk_histogram wk), errors_merge errors (wk_errors wk),
        attempted + wk_attempted wk, connects + wk_opened wk))"

text \<open>Every thread runs its worker; the main thread joins them all.\<close>

definition drive ::
  "worker_config \<Rightarrow> protocol \<Rightarrow> bool \<Rightarrow> 'addr list \<Rightarrow> instant \<Rightarrow> instant \<Rightarrow> 'addr world list
    \<Rightarrow> worker list result" where
  "drive config protocol series addresses record_from deadline threads =
     join_all (map (\<lambda>w. fst (worker_run config protocol addresses record_from deadline (new_worker series) w))
       threads)"

definition run_closed_loop ::
  "(endpoint \<Rightarrow> 'addr list result) \<Rightarrow> protocol \<Rightarrow> plan \<Rightarrow> 'addr setting \<Rightarrow> closed_loop_run result" where
  "run_closed_loop resolve protocol plan env =
     and_then (resolve (pl_target plan)) (\<lambda>addresses.
     let started = st_clock env 0 in
     and_then (add_millis started (pl_warmup plan)) (\<lambda>record_from.
     and_then (add_millis record_from (pl_duration plan)) (\<lambda>deadline.
     let threads = spawn (pl_connections plan) (st_threads env) in
     and_then (unjoined threads (measured_resolution (st_clock env) 1)) (\<lambda>(resolution, _).
     and_then (drive (pl_worker plan) protocol (pl_timeseries plan) addresses record_from deadline threads)
       (\<lambda>workers.
     and_then (if pl_timeseries plan
               then ts_run record_from (length workers) (st_calls env @ finishing (length workers))
               else Inr (new_timeseries record_from, [])) (\<lambda>(series, _).
     case foldl merge_worker (empty_histogram, no_errors, 0, 0) workers of
       (h, errors, attempted, connects) \<Rightarrow>
     and_then (nanos_of_millis (pl_duration plan)) (\<lambda>duration.
     and_then (summary_of h duration) (\<lambda>latency.
       Inr \<lparr>cl_result = \<lparr>r_attempted = attempted, r_errors = errors, r_latency = latency,
              r_duration = duration\<rparr>,
            cl_histogram = h, cl_requested = pl_connections plan, cl_started = length threads,
            cl_opened = connects, cl_resolution = resolution, cl_per_second = ts_seconds series\<rparr>))))))))"

text \<open>The order of the calls is one in which every worker makes its own calls in its own order.\<close>

definition calls_of :: "nat \<Rightarrow> ts_event list \<Rightarrow> ts_event list" where
  "calls_of i calls = filter (\<lambda>e. ev_worker e = i) calls"

definition own_calls :: "nat \<Rightarrow> worker \<Rightarrow> ts_event list" where
  "own_calls i wk = (case wk_series wk of None \<Rightarrow> [] | Some cs \<Rightarrow> map (\<lambda>(t, l). Record i t l) cs)"

definition interleaves :: "ts_event list \<Rightarrow> worker list \<Rightarrow> bool" where
  "interleaves calls workers \<longleftrightarrow>
     (\<forall>e \<in> set calls. ev_worker e < length workers) \<and>
     (\<forall>i < length workers. calls_of i calls = own_calls i (workers ! i))"

subsection \<open>Merging\<close>

lemma in_sum_list: "x \<in># sum_list Ms \<longleftrightarrow> (\<exists>M \<in> set Ms. x \<in># M)"
  by (induction Ms) auto

lemma merge_worker_eq:
  "merge_worker (h, errors, attempted, connects) wk =
    (hist_merge h (wk_histogram wk), errors_merge errors (wk_errors wk),
     attempted + wk_attempted wk, connects + wk_opened wk)"
  by (simp add: merge_worker_def)

lemma merge_workers:
  assumes "\<forall>wk \<in> set workers. wk_histogram wk = hist_of (M wk) \<and>
      wk_attempted wk = of_nat (size (M wk)) + untimed_errors (wk_errors wk)"
    and "attempted = of_nat (size N) + untimed_errors errors"
  shows "\<exists>errors' attempted' connects'.
    foldl merge_worker (hist_of N, errors, attempted, connects) workers =
      (hist_of (N + sum_list (map M workers)), errors', attempted', connects') \<and>
    attempted' = of_nat (size (N + sum_list (map M workers))) + untimed_errors errors'"
  using assms
proof (induction workers arbitrary: N errors attempted connects)
  case (Cons wk workers)
  have "attempted + wk_attempted wk = of_nat (size (N + M wk)) + untimed_errors (errors_merge errors (wk_errors wk))"
    using Cons.prems by (simp add: untimed_errors_merge ac_simps)
  from Cons.IH [OF _ this, of "connects + wk_opened wk"] Cons.prems(1) obtain errors' attempted' connects' where
    "foldl merge_worker (hist_of (N + M wk), errors_merge errors (wk_errors wk), attempted + wk_attempted wk,
       connects + wk_opened wk) workers =
      (hist_of (N + M wk + sum_list (map M workers)), errors', attempted', connects')"
    "attempted' = of_nat (size (N + M wk + sum_list (map M workers))) + untimed_errors errors'"
    by auto
  moreover have "wk_histogram wk = hist_of (M wk)" using Cons.prems(1) by simp
  ultimately show ?case
    by (intro exI [of _ errors'] exI [of _ attempted'] exI [of _ connects'])
      (simp only: foldl_Cons merge_worker_eq hist_merge_hist_of list.map sum_list.Cons add.assoc simp_thms)
qed simp

subsection \<open>The series and the run-wide histogram\<close>

fun latency_of :: "ts_event \<Rightarrow> int multiset" where
  "latency_of (Record i t l) = {#l#}"
| "latency_of (Flush i) = {#}"

definition latencies :: "ts_event list \<Rightarrow> int multiset" where
  "latencies evs = sum_list (map latency_of evs)"

lemma latencies_simps [simp]:
  "latencies [] = {#}" "latencies (e # evs) = latency_of e + latencies evs"
  "latencies (evs @ evs') = latencies evs + latencies evs'"
  by (simp_all add: latencies_def)

lemma latencies_finishing [simp]: "latencies (finishing n) = {#}"
  by (simp add: latencies_def finishing_def comp_def)

text \<open>The seconds partition the latencies.\<close>

lemma recorded_partition:
  assumes "\<forall>k \<ge> N. recorded start k evs = {#}"
  shows "(\<Sum>k < N. recorded start k evs) = latencies evs"
  using assms
proof (induction evs)
  case (Cons e evs)
  then have "\<forall>k \<ge> N. recorded_in start k e = {#}" "\<forall>k \<ge> N. recorded start k evs = {#}"
    by (auto simp: recorded_def)
  moreover from this(1) have "(\<Sum>k < N. recorded_in start k e) = latency_of e"
  proof (cases e)
    case (Record i t l)
    with \<open>\<forall>k \<ge> N. recorded_in start k e = {#}\<close> have "the_second start t < N"
      by (metis add_mset_eq_singleton_iff empty_not_add_mset not_le recorded_in.simps(1))
    with Record show ?thesis by (simp add: sum.delta')
  qed simp
  ultimately show ?case
    using Cons.IH by (simp add: recorded_def sum.distrib)
qed (simp add: recorded_def)

text \<open>So do the workers.\<close>

lemma calls_partition:
  assumes "\<forall>e \<in> set calls. ev_worker e < n"
  shows "(\<Sum>i < n. latencies (calls_of i calls)) = latencies calls"
  using assms
proof (induction calls)
  case (Cons e calls)
  have "latencies (calls_of i (e # calls)) =
      (if ev_worker e = i then latency_of e else {#}) + latencies (calls_of i calls)" for i
    by (simp add: calls_of_def)
  with Cons show ?case by (simp add: sum.distrib sum.delta')
qed (simp add: calls_of_def)

lemma latencies_own: "latencies (own_calls i wk) =
    (case wk_series wk of None \<Rightarrow> {#} | Some cs \<Rightarrow> image_mset snd (mset cs))"
proof -
  have "latencies (map (\<lambda>(t, l). Record i t l) cs) = image_mset snd (mset cs)" for cs
    by (induction cs) auto
  then show ?thesis by (simp add: own_calls_def split: option.split)
qed

lemma settled_finishing: "\<forall>e \<in> set calls. ev_worker e < n \<Longrightarrow> settled i (calls @ finishing n)"
proof -
  assume n: "\<forall>e \<in> set calls. ev_worker e < n"
  have "filter (\<lambda>e. ev_worker e = i) (finishing n) = (if i < n then [Flush i] else [])"
    by (induction n) (auto simp: finishing_def)
  moreover have "filter (\<lambda>e. ev_worker e = i) calls = []" if "\<not> i < n"
    using n that by (auto simp: filter_empty_conv)
  ultimately show ?thesis by (simp add: settled_def Let_def)
qed

text \<open>The per-second histograms of a run with a series merge to its run-wide histogram.\<close>

lemma series_total:
  assumes workers: "\<forall>wk \<in> set workers. \<exists>C. clock_ok C \<and> wk_series wk \<noteq> None \<and> worker_ok C start (M wk) wk"
    and calls: "interleaves calls workers" and small: "length calls + length workers \<le> 2 ^ 64"
    and start: "0 \<le> start" "start < 2 ^ 63"
  shows "\<exists>ts ws. ts_run start (length workers) (calls @ finishing (length workers)) = Inr (ts, ws) \<and>
    foldl hist_merge empty_histogram (ts_seconds ts) = hist_of (sum_list (map M workers))"
proof -
  let ?n = "length workers"
  let ?evs = "calls @ finishing ?n"
  have bound: "\<forall>e \<in> set calls. ev_worker e < ?n" using calls by (simp add: interleaves_def)
  have own: "calls_of i calls = own_calls i (workers ! i)" if "i < ?n" for i
    using calls that by (simp add: interleaves_def)
  have "event_ok ?n e" if "e \<in> set calls" for e
  proof -
    let ?wk = "workers ! ev_worker e"
    from bound that have i: "ev_worker e < ?n" by simp
    from workers nth_mem [OF i] obtain C where C: "clock_ok C" "worker_ok C start (M ?wk) ?wk" by blast
    from that have "e \<in> set (calls_of (ev_worker e) calls)" by (simp add: calls_of_def)
    then have "e \<in> set (own_calls (ev_worker e) ?wk)" by (simp add: own [OF i])
    then obtain cs t l where cs: "wk_series ?wk = Some cs" "(t, l) \<in> set cs" "e = Record (ev_worker e) t l"
      by (cases "wk_series ?wk") (fastforce simp: own_calls_def)+
    with C(2) have M: "image_mset snd (mset cs) = M ?wk" and t: "\<exists>j. t = C j" and l: "\<forall>l \<in># M ?wk. 0 \<le> l"
      by (auto simp: worker_ok_def)
    from cs(2) have "l \<in># image_mset snd (mset cs)" by force
    with M l have "0 \<le> l" by simp
    with t C(1) i clock_ok_range [OF C(1)] show ?thesis by (subst cs(3)) auto
  qed
  then have "\<forall>e \<in> set ?evs. event_ok ?n e" by (auto simp: finishing_def)
  from ts_run_exact [OF this _ start] small settled_finishing [OF bound] obtain ts ws where
    run: "ts_run start ?n ?evs = Inr (ts, ws)" and
    secs: "ts_seconds ts = map (\<lambda>k. hist_of (recorded start k ?evs)) [0..<length (ts_seconds ts)]" and
    past: "\<forall>k \<ge> length (ts_seconds ts). recorded start k ?evs = {#}"
    by (auto simp: finishing_def)
  let ?N = "length (ts_seconds ts)"
  have "foldl hist_merge empty_histogram (ts_seconds ts) = hist_of (\<Sum>k \<leftarrow> [0..<?N]. recorded start k ?evs)"
    using hist.merge_list [of "map (\<lambda>k. recorded start k ?evs) [0..<?N]"] secs by (simp add: comp_def)
  also have "(\<Sum>k \<leftarrow> [0..<?N]. recorded start k ?evs) = latencies calls"
    using recorded_partition [OF past] by (simp add: interv_sum_list_conv_sum_set_nat atLeast0LessThan)
  also have "\<dots> = (\<Sum>i < ?n. M (workers ! i))"
    unfolding calls_partition [OF bound, symmetric]
  proof (rule sum.cong)
    fix i assume "i \<in> {..<?n}"
    then have i: "i < ?n" by simp
    from workers nth_mem [OF i] show "latencies (calls_of i calls) = M (workers ! i)"
      by (auto simp: own [OF i] latencies_own worker_ok_def)
  qed simp
  also have "\<dots> = sum_list (map M workers)"
    by (simp add: sum_list_sum_nth atLeast0LessThan)
  finally show ?thesis using run by blast
qed

subsection \<open>Properties\<close>

lemma drive_workers:
  assumes "\<forall>w \<in> set threads. setup_ok (w_clock w) config protocol addresses"
    and "drive config protocol series addresses record_from deadline threads = Inr workers"
  shows "length workers = length threads \<and> (\<forall>wk \<in> set workers. \<exists>C M. clock_ok C \<and>
    (wk_series wk \<noteq> None) = series \<and> worker_ok C record_from M wk)"
proof -
  let ?run = "\<lambda>w. worker_run config protocol addresses record_from deadline (new_worker series) w"
  from assms(2) have rs: "map (\<lambda>w. fst (?run w)) threads = map Inr workers"
    by (simp add: drive_def join_all_Inr)
  have "\<exists>C M. clock_ok C \<and> (wk_series wk \<noteq> None) = series \<and> worker_ok C record_from M wk"
    if "wk \<in> set workers" for wk
  proof -
    from that have "Inr wk \<in> set (map (\<lambda>w. fst (?run w)) threads)" unfolding rs by simp
    then obtain w where "w \<in> set threads" "fst (?run w) = Inr wk" by auto
    then obtain v where w: "w \<in> set threads" "?run w = (Inr wk, v)" by (metis prod.collapse)
    with assms(1) have C: "setup_ok (w_clock w) config protocol addresses" by blast
    have "here (w_clock w) 0 (w_log w) None w" by (simp add: here_def)
    from tripleD [OF triple_worker_run [OF C counted_new] this w(2)] C show ?thesis
      by (auto simp: counted_def setup_ok_def timeout_fits_def)
  qed
  then show ?thesis using arg_cong [OF rs, of length] by auto
qed

lemma closed_loop_accounts:
  assumes "resolve (pl_target plan) = Inr addresses" and "clock_ok (st_clock env)" and "0 \<le> pl_warmup plan"
    and threads: "\<forall>w \<in> set (st_threads env). setup_ok (w_clock w) (pl_worker plan) protocol addresses"
    and "add_millis (st_clock env 0) (pl_warmup plan) = Inr record_from"
    and "add_millis record_from (pl_duration plan) = Inr deadline"
    and drive: "drive (pl_worker plan) protocol (pl_timeseries plan) addresses record_from deadline
      (spawn (pl_connections plan) (st_threads env)) = Inr workers"
    and calls: "interleaves (st_calls env) workers" "length (st_calls env) + length workers \<le> 2 ^ 64"
    and run: "run_closed_loop resolve protocol plan env = Inr run"
  shows "consistent (cl_result run) \<and> cl_started run \<le> cl_requested run \<and>
    (\<exists>M. cl_histogram run = hist_of M \<and> (\<forall>l \<in># M. 0 \<le> l)) \<and>
    (if pl_timeseries plan then foldl hist_merge empty_histogram (cl_per_second run) = cl_histogram run
     else cl_per_second run = [])"
proof -
  let ?threads = "spawn (pl_connections plan) (st_threads env)"
  have "\<forall>w \<in> set ?threads. setup_ok (w_clock w) (pl_worker plan) protocol addresses"
    using threads set_spawn [of "pl_connections plan" "st_threads env"] by auto
  from drive_workers [OF this drive] obtain C M where W: "length workers = length ?threads"
    "\<forall>wk \<in> set workers. clock_ok (C wk) \<and> (wk_series wk \<noteq> None) = pl_timeseries plan \<and>
      worker_ok (C wk) record_from (M wk) wk"
    by metis
  let ?M = "sum_list (map M workers)"
  have "(0 :: u64) = of_nat (size ({#} :: int multiset)) + untimed_errors no_errors" by simp
  moreover have "\<forall>wk \<in> set workers. wk_histogram wk = hist_of (M wk) \<and>
      wk_attempted wk = of_nat (size (M wk)) + untimed_errors (wk_errors wk)"
    using W(2) by (simp add: worker_ok_def)
  ultimately obtain errors attempted connects where
    "foldl merge_worker (hist_of {#}, no_errors, 0, 0) workers = (hist_of ({#} + ?M), errors, attempted, connects)"
    "attempted = of_nat (size ({#} + ?M)) + untimed_errors errors"
    using merge_workers [of workers M 0 "{#}" no_errors 0] by blast
  then have merged:
    "foldl merge_worker (empty_histogram, no_errors, 0, 0) workers = (hist_of ?M, errors, attempted, connects)"
    "attempted = of_nat (size ?M) + untimed_errors errors"
    by (simp_all only: hist_of_empty add_0)
  have from_range: "0 \<le> record_from" "record_from < 2 ^ 63"
    using assms(3,5) clock_ok_range [OF assms(2), of 0]
    by (auto simp: add_millis_def and_then_Inr_iff nanos_of_millis_def add_nanos_def int64_ok_def split: if_splits)
  from run assms(1,5,6) drive merged(1) obtain series ws duration latency resolution i where R:
    "(if pl_timeseries plan
      then ts_run record_from (length workers) (st_calls env @ finishing (length workers))
      else Inr (new_timeseries record_from, [])) = Inr (series, ws)"
    "summary_of (hist_of ?M) duration = Inr latency"
    "run = \<lparr>cl_result = \<lparr>r_attempted = attempted, r_errors = errors, r_latency = latency,
              r_duration = duration\<rparr>,
            cl_histogram = hist_of ?M, cl_requested = pl_connections plan, cl_started = length ?threads,
            cl_opened = connects, cl_resolution = resolution, cl_per_second = ts_seconds series\<rparr>"
    unfolding run_closed_loop_def Let_def
    by (simp add: and_then_Inr_iff split_beta) (metis prod.collapse)
  have "consistent (cl_result run)"
    using R(2,3) merged(2) timed_of_summary [OF R(2), of "cl_result run"]
    by (simp add: consistent_def untimed_eq hist.total_holding)
  moreover have "cl_started run \<le> cl_requested run"
    using R(3) length_spawn by simp
  moreover have "\<forall>l \<in># ?M. 0 \<le> l"
    using W(2) by (auto simp: worker_ok_def in_sum_list)
  moreover have "if pl_timeseries plan then foldl hist_merge empty_histogram (cl_per_second run) = cl_histogram run
     else cl_per_second run = []"
  proof (cases "pl_timeseries plan")
    case True
    then have "\<forall>wk \<in> set workers. \<exists>C. clock_ok C \<and> wk_series wk \<noteq> None \<and> worker_ok C record_from (M wk) wk"
      using W(2) by auto
    from series_total [OF this calls from_range] R True show ?thesis by auto
  qed (use R in \<open>auto simp: new_timeseries_def\<close>)
  moreover have "cl_histogram run = hist_of ?M" using R(3) by simp
  ultimately show ?thesis by blast
qed

text \<open>C3: A closed-loop run that ends adds up. Whatever each thread met, with as many threads as the
  system could start and at most as many as were asked for: every attempt counted by any worker is
  in the merged histogram or in one of the four untimed errors (\<open>RunResult::consistent\<close>), the
  histogram holds latencies that are not negative, and when a series was kept, its per-second
  histograms merge to the run-wide one, in whatever order the workers' calls on the shared series
  took place.\<close>

theorem closed_loop_consistent:
  assumes "resolve (pl_target plan) = Inr addresses" and "clock_ok (st_clock env)" and "0 \<le> pl_warmup plan"
    and threads: "\<forall>w \<in> set (st_threads env). setup_ok (w_clock w) (pl_worker plan) protocol addresses"
    and "add_millis (st_clock env 0) (pl_warmup plan) = Inr record_from"
    and "add_millis record_from (pl_duration plan) = Inr deadline"
    and drive: "drive (pl_worker plan) protocol (pl_timeseries plan) addresses record_from deadline
      (spawn (pl_connections plan) (st_threads env)) = Inr workers"
    and calls: "interleaves (st_calls env) workers" "length (st_calls env) + length workers \<le> 2 ^ 64"
    and run: "run_closed_loop resolve protocol plan env = Inr run"
  shows "consistent (cl_result run) \<and> cl_started run \<le> cl_requested run \<and>
    (\<exists>M. cl_histogram run = hist_of M \<and> (\<forall>l \<in># M. 0 \<le> l)) \<and>
    (if pl_timeseries plan then foldl hist_merge empty_histogram (cl_per_second run) = cl_histogram run
     else cl_per_second run = [])"
  using assms by (rule closed_loop_accounts)

text \<open>A run of one connection for one millisecond, with a series, against a target that echoes.\<close>

definition brisk_clock :: clock where
  "brisk_clock i = int (min i 1000000000) * 500000"

lemma brisk_clock_eval [simp]:
  "brisk_clock 0 = 0" "brisk_clock (Suc 0) = 500000" "brisk_clock (Suc (Suc 0)) = 1000000"
  "brisk_clock (Suc (Suc (Suc 0))) = 1500000" "brisk_clock (Suc (Suc (Suc (Suc 0)))) = 2000000"
  by (simp_all add: brisk_clock_def)

definition brisk_world :: "sysret list \<Rightarrow> 'addr world" where
  "brisk_world script = \<lparr>w_clock = brisk_clock, w_reads = 0, w_kernel = script, w_log = [],
     w_strerror = test_strerror, w_name = (\<lambda>_. ''[::1]:7777'')\<rparr>"

definition echo_script :: "sysret list" where
  "echo_script = accepted @ [Done 0 '''', Done 0 '''', Done 2 '''', Done 2 ''ab'']"

definition echo_plan :: plan where
  "echo_plan = \<lparr>pl_target = \<lparr>ep_host = ''127.0.0.1'', ep_port = 8080\<rparr>, pl_connections = 3, pl_duration = 1, pl_warmup = 0,
     pl_worker = default_worker_config, pl_timeseries = True\<rparr>"

definition echo_setting :: "'addr setting" where
  "echo_setting = \<lparr>st_threads = [brisk_world echo_script], st_clock = brisk_clock,
     st_calls = [Record 0 1500000 500000]\<rparr>"

definition echo_worker :: worker where
  "echo_worker = \<lparr>wk_histogram = hist_of {#500000#}, wk_series = Some [(1500000, 500000)],
     wk_errors = no_errors, wk_attempted = 1, wk_opened = 1\<rparr>"

lemma brisk_run:
  "fst (worker_run default_worker_config (raw_echo ''ab'') [a] 0 1000000 (new_worker True)
      (brisk_world echo_script)) = Inr echo_worker"
  by (simp add: run_simps accepted_def echo_script_def brisk_world_def echo_worker_def
      hist_of_empty [symmetric] hist.rec_holding)

lemma brisk_setup: "setup_ok brisk_clock default_worker_config (raw_echo ''ab'') [a]"
proof -
  have "brisk_clock i + 1000 * 1000000 < 2 ^ 63" for i
    by (simp add: brisk_clock_def)
  moreover have "clock_ok brisk_clock"
    by (auto simp: clock_ok_def mono_def brisk_clock_def)
  ultimately show ?thesis
    using echo_setup by (simp add: setup_ok_def timeout_fits_def default_worker_config_def)
qed

lemma brisk_resolution: "\<exists>d i. measured_resolution brisk_clock 1 = Inr (d, i)"
proof -
  have "clock_ok brisk_clock" using brisk_setup by (simp add: setup_ok_def timeout_fits_def)
  moreover have "advances brisk_clock 900000000"
    by (auto simp: advances_def brisk_clock_def kMaxSpins_def intro!: exI [of _ 0])
  moreover have "Suc 1 + 5 * (kMaxSpins + 2) \<le> 900000000" by (simp add: kMaxSpins_def)
  ultimately show ?thesis
    using resolution_attempts_ok [of brisk_clock 900000000 "Suc 1" 5 nanos_max]
    by (auto simp: measured_resolution_def now_def)
qed

lemma echo_drive:
  "drive default_worker_config (raw_echo ''ab'') True [a] 0 1000000 [brisk_world echo_script] =
    Inr [echo_worker]"
  by (simp add: drive_def brisk_run)

lemma echo_interleaves: "interleaves [Record 0 1500000 500000] [echo_worker]"
  by (simp add: interleaves_def calls_of_def own_calls_def echo_worker_def)

lemma echo_worker_ok: "worker_ok brisk_clock 0 {#500000#} echo_worker"
proof -
  have "\<exists>i. 1500000 = brisk_clock i" by (rule exI [of _ "Suc (Suc (Suc 0))"]) simp
  then show ?thesis
    by (auto simp: worker_ok_def echo_worker_def untimed_errors_def no_errors_def intro: exI [of _ 0])
qed

lemma echo_closed_loop: "\<exists>run. run_closed_loop (\<lambda>_. Inr [a]) (raw_echo ''ab'') echo_plan echo_setting = Inr run"
proof -
  obtain d i where d: "measured_resolution brisk_clock 1 = Inr (d, i)" using brisk_resolution by blast
  have c: "clock_ok brisk_clock" using brisk_setup by (simp add: setup_ok_def timeout_fits_def)
  have "\<exists>ts ws. ts_run 0 (length [echo_worker]) ([Record 0 1500000 500000] @ finishing (length [echo_worker])) = Inr (ts, ws)"
    using series_total [of "[echo_worker]" 0 "\<lambda>_. {#500000#}", OF _ echo_interleaves] c echo_worker_ok
    by (auto simp: echo_worker_def)
  then obtain ts ws where ts: "ts_run 0 1 ([Record 0 1500000 500000] @ finishing 1) = Inr (ts, ws)" by auto
  obtain l where l: "summary_of (hist_of {#500000#}) 1000000 = Inr l"
    using summary_of_hist_of [of "{#500000#}" 1000000] by auto
  have m: "foldl merge_worker (empty_histogram, no_errors, 0, 0) [echo_worker] = (hist_of {#500000#}, no_errors, 1, 1)"
    using hist_merge_hist_of [of "{#}" "{#500000#}"]
    by (simp add: merge_worker_def echo_worker_def hist_of_empty [symmetric] errors_merge_none)
  show ?thesis
    using d ts l m
    by (simp add: echo_drive run_closed_loop_def echo_plan_def echo_setting_def add_millis_def nanos_of_millis_def
        add_nanos_def int64_ok_def numeral_3_eq_3)
qed

lemma echo_hypotheses:
  "clock_ok (st_clock echo_setting)" "0 \<le> pl_warmup echo_plan"
  "\<forall>w \<in> set (st_threads echo_setting). setup_ok (w_clock w) (pl_worker echo_plan) (raw_echo ''ab'') [a]"
  "add_millis (st_clock echo_setting 0) (pl_warmup echo_plan) = Inr 0"
  "add_millis 0 (pl_duration echo_plan) = Inr 1000000"
  "drive (pl_worker echo_plan) (raw_echo ''ab'') (pl_timeseries echo_plan) [a] 0 1000000
      (spawn (pl_connections echo_plan) (st_threads echo_setting)) = Inr [echo_worker]"
  "interleaves (st_calls echo_setting) [echo_worker]"
  "length (st_calls echo_setting) + length [echo_worker] \<le> 2 ^ 64"
proof -
  show "clock_ok (st_clock echo_setting)"
    using brisk_setup by (simp add: echo_setting_def setup_ok_def timeout_fits_def)
  show "\<forall>w \<in> set (st_threads echo_setting). setup_ok (w_clock w) (pl_worker echo_plan) (raw_echo ''ab'') [a]"
    using brisk_setup by (simp add: echo_setting_def echo_plan_def brisk_world_def)
  show "add_millis (st_clock echo_setting 0) (pl_warmup echo_plan) = Inr 0"
    "add_millis 0 (pl_duration echo_plan) = Inr 1000000" "0 \<le> pl_warmup echo_plan"
    by (simp_all add: echo_setting_def echo_plan_def add_millis_def nanos_of_millis_def add_nanos_def int64_ok_def)
  show "drive (pl_worker echo_plan) (raw_echo ''ab'') (pl_timeseries echo_plan) [a] 0 1000000
      (spawn (pl_connections echo_plan) (st_threads echo_setting)) = Inr [echo_worker]"
    using echo_drive by (simp add: echo_plan_def echo_setting_def numeral_3_eq_3)
  show "interleaves (st_calls echo_setting) [echo_worker]"
    "length (st_calls echo_setting) + length [echo_worker] \<le> 2 ^ 64"
    using echo_interleaves by (simp_all add: echo_setting_def)
qed

theorem closed_loop_consistent_witness:
  "\<exists>run. run_closed_loop (\<lambda>_. Inr [''::1'']) (raw_echo ''ab'') echo_plan echo_setting = Inr run \<and>
    consistent (cl_result run) \<and> cl_started run \<le> cl_requested run \<and>
    foldl hist_merge empty_histogram (cl_per_second run) = cl_histogram run"
proof -
  from echo_closed_loop obtain run where
    run: "run_closed_loop (\<lambda>_. Inr [''::1'']) (raw_echo ''ab'') echo_plan echo_setting = Inr run" ..
  have "pl_timeseries echo_plan" by (simp add: echo_plan_def)
  with closed_loop_consistent [of "\<lambda>_. Inr [''::1'']", OF _ echo_hypotheses run] run show ?thesis by auto
qed

end
