(* ===== verification/Streams.thy ===== *)
theory Streams
  imports Strings IEEE_Double
begin

text \<open>
  What \<open>std::istringstream >> value\<close> makes of a whole string, for the two types the code reads that
  way: \<open>double\<close> (\<open>Flags::real\<close> and the fault knobs) and \<open>long long\<close> (the fault knobs). Leading blanks are
  skipped, and the code accepts the value only when the extraction has reached the end. The
  decimal floating-point literals are read, each rounded to the nearest double; the other spellings a
  library may accept (hexadecimal floats) are rejected.
\<close>

definition is_space :: "char \<Rightarrow> bool" where
  "is_space c \<longleftrightarrow> c = CHR '' '' \<or> 9 \<le> (of_char c :: nat) \<and> (of_char c :: nat) \<le> 13"

definition read_sign :: "string \<Rightarrow> bool \<times> string" where
  "read_sign s =
     (case s of
        c # t \<Rightarrow> if c = CHR ''-'' then (True, t) else if c = CHR ''+'' then (False, t) else (False, s)
      | [] \<Rightarrow> (False, []))"

definition digits_of :: "string \<Rightarrow> string \<times> string" where
  "digits_of s = (takeWhile is_digit s, dropWhile is_digit s)"

definition read_exponent :: "string \<Rightarrow> int option" where
  "read_exponent s =
     (case s of
        [] \<Rightarrow> Some 0
      | c # t \<Rightarrow>
          if c = CHR ''e'' \<or> c = CHR ''E'' then
            (case read_sign t of (negative, t1) \<Rightarrow>
              (case digits_of t1 of (ds, t2) \<Rightarrow>
                if ds = [] \<or> t2 \<noteq> [] then None
                else Some (if negative then - int (dec_value 0 ds) else int (dec_value 0 ds))))
          else None)"

definition read_decimal :: "string \<Rightarrow> rat option" where
  "read_decimal s =
     (case read_sign (dropWhile is_space s) of (negative, s1) \<Rightarrow>
       (case digits_of s1 of (whole, s2) \<Rightarrow>
         (case (case s2 of c # t \<Rightarrow> if c = CHR ''.'' then digits_of t else ([], s2) | [] \<Rightarrow> ([], []))
          of (fraction, s3) \<Rightarrow>
            if whole = [] \<and> fraction = [] then None
            else (case read_exponent s3 of
                None \<Rightarrow> None
              | Some e \<Rightarrow>
                  let v = of_nat (dec_value 0 (whole @ fraction)) * 10 powi (e - int (length fraction))
                  in Some (if negative then - v else v)))))"

text \<open>The same for a signed 64-bit integer: a value out of its range fails.\<close>

definition read_int64 :: "string \<Rightarrow> int option" where
  "read_int64 s =
     (case read_sign (dropWhile is_space s) of (negative, s1) \<Rightarrow>
       (case digits_of s1 of (ds, rest) \<Rightarrow>
         let v = (if negative then - int (dec_value 0 ds) else int (dec_value 0 ds)) in
         if ds = [] \<or> rest \<noteq> [] \<or> \<not> int64_ok v then None else Some v))"

subsection \<open>What a plain number reads as\<close>

lemma takeWhile_digits:
  "\<forall>c \<in> set s. is_digit c \<Longrightarrow> \<not> (\<exists>c t'. t = c # t' \<and> is_digit c) \<Longrightarrow> digits_of (s @ t) = (s, t)"
  by (cases t) (auto simp: digits_of_def takeWhile_append2 dropWhile_append2)

lemma read_decimal_plain:
  assumes "\<forall>c \<in> set w. is_digit c" and "\<forall>c \<in> set f. is_digit c" and "w \<noteq> []"
  shows "read_decimal (w @ ''.'' @ f) =
    Some (of_nat (dec_value 0 (w @ f)) * 10 powi (- int (length f)))"
proof -
  obtain c t where w: "w = c # t" using assms(3) by (cases w) auto
  then have c: "is_digit c" using assms(1) by simp
  then have n: "\<not> is_space c" "c \<noteq> CHR ''-''" "c \<noteq> CHR ''+''"
    by (auto simp: is_digit_def is_space_def)
  have d: "digits_of (w @ ''.'' @ f) = (w, ''.'' @ f)"
    by (rule takeWhile_digits) (use assms(1) in \<open>auto simp: is_digit_def\<close>)
  have e: "digits_of f = (f, [])" using takeWhile_digits [of f "[]"] assms(2) by simp
  have s: "read_sign (dropWhile is_space (w @ ''.'' @ f)) = (False, w @ ''.'' @ f)"
    using n by (simp add: w read_sign_def)
  show ?thesis
    unfolding read_decimal_def s prod.case d using assms(3) by (simp add: e read_exponent_def)
qed

lemma read_int64_plain:
  assumes "\<forall>c \<in> set w. is_digit c" and "w \<noteq> []" and "dec_value 0 w < 2 ^ 63"
  shows "read_int64 w = Some (int (dec_value 0 w))"
proof -
  obtain c t where w: "w = c # t" using assms(2) by (cases w) auto
  then have "is_digit c" using assms(1) by simp
  then have n: "\<not> is_space c" "c \<noteq> CHR ''-''" "c \<noteq> CHR ''+''"
    by (auto simp: is_digit_def is_space_def)
  have d: "digits_of w = (w, [])" using takeWhile_digits [of w "[]"] assms(1) by simp
  have s: "read_sign (dropWhile is_space w) = (False, w)" using n by (simp add: w read_sign_def)
  have "int (dec_value 0 w) < 2 ^ 63" using assms(3) by (metis of_nat_less_iff of_nat_numeral of_nat_power)
  then show ?thesis using assms(2) by (auto simp: read_int64_def s d int64_ok_def)
qed

text \<open>\<open>strtoull(s, nullptr, 10)\<close>: leading blanks and a sign are accepted, what follows the digits is ignored, a
  number that does not fit saturates and a negative one wraps.\<close>

definition strtoull10 :: "string \<Rightarrow> u64" where
  "strtoull10 s =
     (case read_sign (dropWhile is_space s) of (negative, rest) \<Rightarrow>
        let v = int (dec_value 0 (takeWhile is_digit rest)) in
        if 2 ^ 64 \<le> v then - 1 else of_int (if negative then - v else v))"

text \<open>A text right-aligned in a field of \<open>n\<close> columns, as \<open>printf\<close> does it with a width.\<close>

definition right_aligned :: "nat \<Rightarrow> string \<Rightarrow> string" where
  "right_aligned n s = replicate (n - length s) (CHR '' '') @ s"

end
