(* ===== verification/Decimal.thy ===== *)
theory Decimal
  imports Streams
begin

text \<open>
  What the standard library prints for a double, in the two formats the code uses: fixed notation with a
  number of decimals (\<open>fixed << setprecision(n)\<close> and \<open>printf\<close> of \<open>%.nf\<close>), and the default format of an
  output stream, six significant digits without trailing zeros (\<open>%g\<close>). Both print the exact value of the
  double rounded once, ties to even. The lemmas say what \<open>read_decimal\<close> of \<open>Streams\<close>, the reader of the
  command line, finds in the text.
\<close>

text \<open>The last \<open>n\<close> decimal digits of \<open>k\<close>.\<close>

fun padded :: "nat \<Rightarrow> nat \<Rightarrow> string" where
  "padded 0 k = []"
| "padded (Suc n) k = padded n (k div 10) @ [digit_char (k mod 10)]"

definition scaled :: "nat \<Rightarrow> nat \<Rightarrow> string" where
  "scaled n m =
     string_of_nat (m div 10 ^ n) @ (if n = 0 then [] else CHR ''.'' # padded n (m mod 10 ^ n))"

definition minus_if :: "bool \<Rightarrow> string" where
  "minus_if negative = (if negative then ''-'' else [])"

fun print_fixed :: "nat \<Rightarrow> double \<Rightarrow> string" where
  "print_fixed n (Fin a) = minus_if (a < 0) @ scaled n (nat (round_half_even (\<bar>a\<bar> * 10 ^ n)))"
| "print_fixed n (Infinity s) = minus_if s @ ''inf''"
| "print_fixed n NaN = ''nan''"

text \<open>The decimal exponent of a positive number, and its six significant digits with their exponent.\<close>

definition dec_expo :: "rat \<Rightarrow> int" where
  "dec_expo a =
     (if 1 \<le> a then int (floorlog 10 (nat \<lfloor>a\<rfloor>)) - 1 else - int (floorlog 10 (nat (\<lceil>1 / a\<rceil> - 1))))"

definition six_digits :: "rat \<Rightarrow> nat \<times> int" where
  "six_digits a =
     (let x = dec_expo a; m = nat (round_half_even (a * 10 powi (5 - x)))
      in if m = 1000000 then (100000, x + 1) else (m, x))"

definition strip_zeros :: "string \<Rightarrow> string" where
  "strip_zeros s = rev (dropWhile (\<lambda>c. c = CHR ''0'') (rev s))"

definition with_point :: "string \<Rightarrow> string \<Rightarrow> string" where
  "with_point whole fraction =
     whole @ (if strip_zeros fraction = [] then [] else CHR ''.'' # strip_zeros fraction)"

definition print_exponent :: "int \<Rightarrow> string" where
  "print_exponent x =
     ''e'' @ (if x < 0 then ''-'' else ''+'') @ (if \<bar>x\<bar> < 10 then ''0'' else []) @ string_of_nat (nat \<bar>x\<bar>)"

definition general_pos :: "rat \<Rightarrow> string" where
  "general_pos a =
     (let (m, x) = six_digits a; ds = string_of_nat m in
      if 0 \<le> x \<and> x < 6 then with_point (take (nat x + 1) ds) (drop (nat x + 1) ds)
      else if - 4 \<le> x \<and> x < 0 then with_point ''0'' (replicate (nat (- x - 1)) (CHR ''0'') @ ds)
      else with_point (take 1 ds) (drop 1 ds) @ print_exponent x)"

fun print_general :: "double \<Rightarrow> string" where
  "print_general (Fin a) = (if a = 0 then ''0'' else minus_if (a < 0) @ general_pos \<bar>a\<bar>)"
| "print_general (Infinity s) = minus_if s @ ''inf''"
| "print_general NaN = ''nan''"

subsection \<open>Digits\<close>

lemma length_padded [simp]: "length (padded n k) = n"
  by (induction n k rule: padded.induct) simp_all

lemma padded_digits: "\<forall>c \<in> set (padded n k). is_digit c"
  by (induction n k rule: padded.induct) auto

lemma dec_value_append: "dec_value acc (s @ t) = dec_value (dec_value acc s) t"
  by (simp add: dec_value_def)

lemma dec_value_padded: "dec_value acc (padded n k) = acc * 10 ^ n + k mod 10 ^ n"
proof (induction n k arbitrary: acc rule: padded.induct)
  case (2 n k)
  have "k mod (10 * 10 ^ n) = 10 * (k div 10 mod 10 ^ n) + k mod 10" by (rule mod_mult2_eq)
  with 2 show ?case by simp
qed simp

lemma dec_value_zeros: "dec_value acc (replicate k (CHR ''0'')) = acc * 10 ^ k"
  by (induction k arbitrary: acc) (simp_all add: digit_val_def)

lemma strip_zeros_split: "\<exists>k. s = strip_zeros s @ replicate k (CHR ''0'')"
proof -
  let ?z = "takeWhile (\<lambda>c. c = CHR ''0'') (rev s)"
  have "?z = replicate (length ?z) (CHR ''0'')"
    by (rule replicate_eqI) (auto dest: set_takeWhileD)
  moreover have "s = strip_zeros s @ rev ?z"
    unfolding strip_zeros_def by (metis rev_append rev_rev_ident takeWhile_dropWhile_id)
  ultimately show ?thesis by (metis rev_replicate)
qed

lemma strip_zeros_digits: "\<forall>c \<in> set s. is_digit c \<Longrightarrow> \<forall>c \<in> set (strip_zeros s). is_digit c"
  unfolding strip_zeros_def by (auto dest: set_dropWhileD)

lemma strip_zeros_value:
  "of_nat (dec_value acc (strip_zeros s)) * 10 powi (e - int (length (strip_zeros s))) =
    (of_nat (dec_value acc s) * 10 powi (e - int (length s)) :: rat)"
proof -
  obtain k where k: "s = strip_zeros s @ replicate k (CHR ''0'')" using strip_zeros_split by blast
  then have "dec_value acc s = dec_value acc (strip_zeros s) * 10 ^ k"
    by (metis dec_value_append dec_value_zeros)
  moreover have "int (length s) = int (length (strip_zeros s)) + int k"
    using arg_cong [OF k, of length] by simp
  ultimately show ?thesis
    by (simp add: power_int_diff power_int_add)
qed

subsection \<open>Reading a printed number back\<close>

lemma read_decimal_digits:
  assumes "\<forall>c \<in> set w. is_digit c" and "\<forall>c \<in> set f. is_digit c" and "w \<noteq> []"
    and "rest = [] \<or> hd rest = CHR ''e''" and "read_exponent rest = Some e"
  shows "read_decimal (with_point w f @ rest) =
    Some (of_nat (dec_value 0 (w @ f)) * 10 powi (e - int (length f)))"
proof -
  let ?f = "strip_zeros f"
  let ?s = "with_point w f @ rest"
  obtain c t where w: "w = c # t" using assms(3) by (cases w) auto
  then have c: "is_digit c" using assms(1) by simp
  then have n: "\<not> is_space c" "c \<noteq> CHR ''-''" "c \<noteq> CHR ''+''"
    by (auto simp: is_digit_def is_space_def)
  have s: "read_sign (dropWhile is_space ?s) = (False, ?s)"
    using n by (simp add: w with_point_def read_sign_def)
  have f: "\<forall>c \<in> set ?f. is_digit c" using assms(2) by (rule strip_zeros_digits)
  have r: "\<not> (\<exists>c t'. rest = c # t' \<and> is_digit c)" "\<not> (\<exists>t'. rest = CHR ''.'' # t')"
    using assms(4) by (auto simp: is_digit_def)
  have "read_decimal ?s = Some (of_nat (dec_value 0 (w @ ?f)) * 10 powi (e - int (length ?f)))"
  proof (cases "?f = []")
    case True
    then have d: "digits_of ?s = (w, rest)"
      using takeWhile_digits [OF assms(1) r(1)] by (simp add: with_point_def)
    have "(case rest of c # t \<Rightarrow> if c = CHR ''.'' then digits_of t else ([], rest) | [] \<Rightarrow> ([], [])) = ([], rest)"
      using r(2) by (auto split: list.splits)
    then show ?thesis unfolding read_decimal_def s prod.case d using assms(3,5) True by simp
  next
    case False
    have d: "digits_of ?s = (w, CHR ''.'' # ?f @ rest)"
      using takeWhile_digits [OF assms(1), of "CHR ''.'' # ?f @ rest"] False
      by (simp add: with_point_def is_digit_def)
    have "digits_of (?f @ rest) = (?f, rest)" using takeWhile_digits [OF f r(1)] .
    then show ?thesis unfolding read_decimal_def s prod.case d using assms(3,5) by simp
  qed
  then show ?thesis using strip_zeros_value [of "dec_value 0 w" f e] by (simp add: dec_value_append)
qed

lemma read_print_exponent: "read_exponent (print_exponent x) = Some x"
proof -
  define ds where "ds = (if \<bar>x\<bar> < 10 then ''0'' else []) @ string_of_nat (nat \<bar>x\<bar>)"
  have d: "\<forall>c \<in> set ds. is_digit c" using string_of_nat_digits by (auto simp: is_digit_def ds_def)
  have v: "dec_value 0 ds = nat \<bar>x\<bar>" by (simp add: digit_val_def ds_def)
  have "ds \<noteq> []" by (simp add: ds_def)
  have "read_sign ((if x < 0 then ''-'' else ''+'') @ ds) = (x < 0, ds)" by (simp add: read_sign_def)
  moreover have "print_exponent x = CHR ''e'' # (if x < 0 then ''-'' else ''+'') @ ds"
    by (simp add: print_exponent_def ds_def)
  ultimately show ?thesis
    using takeWhile_digits [OF d, of "[]"] v \<open>ds \<noteq> []\<close> by (simp add: read_exponent_def)
qed

subsection \<open>Six significant digits\<close>

lemma pow10_pos [simp]: "0 < (10::rat) powi k"
  by simp

lemma dec_expo_bounds:
  assumes "0 < a"
  shows "10 powi dec_expo a \<le> a" and "a < 10 powi (dec_expo a + 1)"
proof -
  have "10 powi dec_expo a \<le> a \<and> a < 10 powi (dec_expo a + 1)"
  proof (cases "1 \<le> a")
    case True
    define n where "n = nat \<lfloor>a\<rfloor>"
    have n: "0 < n" "of_nat n \<le> a" "a < of_nat (n + 1)" using True unfolding n_def by linarith+
    define k where "k = floorlog 10 n - 1"
    have f: "floorlog 10 n = Suc k" using n(1) floorlog_eq_zero_iff [of 10 n] by (simp add: k_def)
    then have x: "dec_expo a = int k" using True by (simp add: dec_expo_def n_def)
    from floorlog_bounds [of n 10] n(1) f have "10 ^ k \<le> n" "n + 1 \<le> 10 ^ Suc k" by auto
    then have "(10::rat) ^ k \<le> of_nat n" "of_nat (n + 1) \<le> (10::rat) ^ Suc k"
      by (metis of_nat_le_iff of_nat_numeral of_nat_power)+
    then have "10 ^ k \<le> a" "a < 10 ^ Suc k" using n(2,3) by (blast intro: order_trans less_le_trans)+
    then show ?thesis unfolding x by (simp add: power_int_add)
  next
    case False
    define n where "n = nat (\<lceil>1 / a\<rceil> - 1)"
    have "1 < 1 / a" using False assms by (simp add: less_divide_eq)
    then have n: "0 < n" "of_nat n < 1 / a" "1 / a \<le> of_nat (n + 1)" unfolding n_def by linarith+
    define k where "k = floorlog 10 n"
    have x: "dec_expo a = - int k" using False by (simp add: dec_expo_def n_def k_def)
    have "0 < k" using n(1) floorlog_eq_zero_iff [of 10 n] by (simp add: k_def)
    from floorlog_bounds [of n 10] n(1) have "10 ^ (k - 1) \<le> n" "n + 1 \<le> 10 ^ k" by (auto simp: k_def)
    then have "(10::rat) ^ (k - 1) \<le> of_nat n" "of_nat (n + 1) \<le> (10::rat) ^ k"
      by (metis of_nat_le_iff of_nat_numeral of_nat_power)+
    with n have "10 ^ (k - 1) < 1 / a" "1 / a \<le> 10 ^ k" by linarith+
    then have "a * 10 ^ (k - 1) < 1" "1 \<le> a * 10 ^ k" using assms by (simp_all add: field_simps)
    moreover obtain j where j: "k = Suc j" using \<open>0 < k\<close> by (cases k) simp_all
    moreover have p: "(10::rat) powi (- int i) = 1 / 10 ^ i" for i
      by (simp only: power_int_minus power_int_of_nat inverse_eq_divide)
    have "dec_expo a + 1 = - int j" unfolding x j by simp
    then have "10 powi dec_expo a = (1 / 10 ^ k :: rat)" "10 powi (dec_expo a + 1) = (1 / 10 ^ j :: rat)"
      using p x by metis+
    ultimately show ?thesis by (simp add: less_divide_eq divide_le_eq)
  qed
  then show "10 powi dec_expo a \<le> a" "a < 10 powi (dec_expo a + 1)" by simp_all
qed

lemma dec_expo_eqI:
  assumes "10 powi x \<le> a" and "a < 10 powi (x + 1)"
  shows "dec_expo a = x"
proof -
  have "0 < a" using assms(1) pow10_pos [of x] by linarith
  from dec_expo_bounds [OF this] assms
  have "(10::rat) powi dec_expo a < 10 powi (x + 1)" "(10::rat) powi x < 10 powi (dec_expo a + 1)" by linarith+
  then have "\<not> x + 1 \<le> dec_expo a" "\<not> dec_expo a + 1 \<le> x"
    using power_int_increasing [of "x + 1" "dec_expo a" "10::rat"] power_int_increasing [of "dec_expo a + 1" x "10::rat"]
    by auto
  then show ?thesis by simp
qed

lemma six_digits:
  assumes "0 < a" and "six_digits a = (m, x)"
  shows "100000 \<le> m" and "m < 1000000" and "\<bar>of_nat m * 10 powi (x - 5) - a\<bar> \<le> a / 200000"
proof -
  define y where "y = dec_expo a"
  define b where "b = a * 10 powi (5 - y)"
  have p: "(10::rat) powi (5 - y) * 10 powi y = 100000" "(10::rat) powi (5 - y) * 10 powi (y - 5) = 1"
    by (simp_all flip: power_int_add)
  have "10 powi (5 - y) * 10 powi y \<le> b" "b < 10 powi (5 - y) * 10 powi (y + 1)"
    using dec_expo_bounds [OF assms(1)] by (simp_all add: b_def y_def)
  then have b: "of_int 100000 \<le> b" "b \<le> of_int 1000000" using p(1) by (simp_all add: power_int_add)
  have ab: "a = b * 10 powi (y - 5)" using p(2) by (simp add: b_def mult.assoc)
  define r where "r = round_half_even b"
  have r: "100000 \<le> r" "r \<le> 1000000"
    using round_half_even_mono [OF b(1)] round_half_even_mono [OF b(2)] unfolding r_def round_half_even_of_int by simp_all
  have err: "\<bar>of_int r - b\<bar> \<le> b / 200000"
    using round_half_even_error [of b] b(1) unfolding r_def by simp
  have "\<bar>of_int r * 10 powi (y - 5) - a\<bar> = \<bar>of_int r - b\<bar> * 10 powi (y - 5)"
    unfolding ab by (simp add: abs_mult flip: left_diff_distrib)
  also have "\<dots> \<le> b / 200000 * 10 powi (y - 5)" using err by (intro mult_right_mono) simp_all
  finally have e: "\<bar>of_int r * 10 powi (y - 5) - a\<bar> \<le> a / 200000" unfolding ab by simp
  have s: "six_digits a = (if r = 1000000 then (100000, y + 1) else (nat r, y))"
    using r(1) by (simp add: six_digits_def y_def [symmetric] b_def [symmetric] r_def [symmetric] nat_eq_iff)
  show "100000 \<le> m" "m < 1000000" using assms(2) s r by (auto split: if_splits)
  show "\<bar>of_nat m * 10 powi (x - 5) - a\<bar> \<le> a / 200000"
  proof (cases "r = 1000000")
    case True
    have "(100000::rat) * 10 powi (y + 1 - 5) = 1000000 * 10 powi (y - 5)"
      by (simp add: power_int_diff power_int_add)
    with True assms(2) s e show ?thesis by simp
  next
    case False
    with assms(2) s e r(1) show ?thesis by auto
  qed
qed

lemma string_of_nat_padded:
  "10 ^ n \<le> m \<Longrightarrow> m < 10 ^ Suc n \<Longrightarrow> string_of_nat m = padded (Suc n) m"
proof (induction n arbitrary: m)
  case 0
  then show ?case by (simp add: string_of_nat.simps [of m])
next
  case (Suc n)
  then have "10 ^ n \<le> m div 10" "m div 10 < 10 ^ Suc n" by auto
  with Suc.IH have "string_of_nat (m div 10) = padded (Suc n) (m div 10)" .
  moreover have "10 \<le> m" using Suc.prems(1) one_le_power [of "10::nat" n] unfolding power_Suc by linarith
  then have "\<not> m < 10" by simp
  ultimately show ?case by (simp add: string_of_nat.simps [of m])
qed

text \<open>A number that six digits can write is not changed.\<close>

lemma six_digits_exact:
  assumes "0 < a" and "six_digits a = (m, x)" and "a * 10 powi (5 - dec_expo a) = of_int k"
  shows "of_nat m * 10 powi (x - 5) = a"
proof -
  define y where "y = dec_expo a"
  have p: "(10::rat) powi (5 - y) * 10 powi (y - 5) = 1" by (simp flip: power_int_add)
  then have a: "a = of_int k * 10 powi (y - 5)"
    using assms(3) by (simp add: y_def [symmetric] mult.assoc flip: assms(3))
  have "0 < a * 10 powi (5 - dec_expo a)" using assms(1) by simp
  then have "0 < k" unfolding assms(3) by simp
  have "six_digits a = (if k = 1000000 then (100000, y + 1) else (nat k, y))"
    using \<open>0 < k\<close> assms(3) by (simp add: six_digits_def y_def nat_eq_iff)
  moreover have "(100000::rat) * 10 powi (y + 1 - 5) = 1000000 * 10 powi (y - 5)"
    by (simp add: power_int_diff power_int_add)
  ultimately show ?thesis using assms(2) a \<open>0 < k\<close> by (auto split: if_splits)
qed

lemma whole_six_digits:
  assumes "0 < n" and "n < 1000000"
  shows "\<exists>k. (of_nat n :: rat) * 10 powi (5 - dec_expo (of_nat n)) = of_int k"
proof -
  let ?x = "dec_expo (of_nat n)"
  have "(10::rat) powi ?x \<le> of_nat n" using dec_expo_bounds(1) assms(1) by simp
  also have "of_nat n < (10::rat) powi 6" using assms(2) by (simp add: power_int_def)
  finally have "(10::rat) powi ?x < 10 powi 6" .
  then have "?x < 6" using power_int_increasing [of 6 ?x "10::rat"] by (meson linorder_not_less numeral_le_iff one_le_numeral)
  then have "(10::rat) powi (5 - ?x) = of_int (10 ^ nat (5 - ?x))" by (simp add: power_int_def)
  then show ?thesis by (intro exI [of _ "int n * 10 ^ nat (5 - ?x)"]) simp
qed

lemma general_pos_value:
  assumes "0 < a" and mx: "six_digits a = (m, x)"
  shows "read_decimal (general_pos a) = Some (of_nat m * 10 powi (x - 5))"
proof -
  note six = six_digits [OF assms]
  define ds where "ds = string_of_nat m"
  have len: "length ds = 6" using six(1,2) string_of_nat_padded [of 5 m] by (simp add: ds_def)
  then have "ds \<noteq> []" by auto
  have dig: "\<forall>c \<in> set (take k ds). is_digit c" "\<forall>c \<in> set (drop k ds). is_digit c" for k
    using string_of_nat_digits [of m] unfolding ds_def by (auto dest: in_set_takeD in_set_dropD)
  have zero: "is_digit (CHR ''0'')" "digit_val (CHR ''0'') = 0" by (simp_all add: is_digit_def digit_val_def)
  have val: "dec_value 0 ds = m" by (simp add: ds_def)
  show ?thesis
  proof (cases "0 \<le> x \<and> x < 6")
    case True
    then have "- int (5 - nat x) = x - 5" by auto
    then have "read_decimal (with_point (take (nat x + 1) ds) (drop (nat x + 1) ds) @ []) =
        Some (of_nat m * 10 powi (x - 5))"
      using read_decimal_digits [OF dig(1) [of "nat x + 1"] dig(2) [of "nat x + 1"], of "[]" 0] len val \<open>ds \<noteq> []\<close>
      using True by (simp add: read_exponent_def)
    then show ?thesis using True by (simp add: general_pos_def mx Let_def ds_def)
  next
    case other: False
    show ?thesis
    proof (cases "- 4 \<le> x \<and> x < 0")
      case True
      let ?f = "replicate (nat (- x - 1)) (CHR ''0'') @ ds"
      have "dec_value 0 (''0'' @ ?f) = m" using val by (simp add: dec_value_append dec_value_zeros zero)
      moreover have "\<forall>c \<in> set ?f. is_digit c" using dig(1) [of 6] len zero by auto
      ultimately have "read_decimal (with_point ''0'' ?f @ []) = Some (of_nat m * 10 powi (x - 5))"
        using read_decimal_digits [of "''0''" ?f "[]" 0] zero len True by (simp add: read_exponent_def)
      then show ?thesis using True by (simp add: general_pos_def mx Let_def ds_def)
    next
      case False
      have "hd (print_exponent x) = CHR ''e''" by (simp add: print_exponent_def)
      then have "read_decimal (with_point (take 1 ds) (drop 1 ds) @ print_exponent x) =
          Some (of_nat m * 10 powi (x - 5))"
        using read_decimal_digits [OF dig(1) [of 1] dig(2) [of 1], of "print_exponent x" x] len val \<open>ds \<noteq> []\<close>
          \<open>hd (print_exponent x) = CHR ''e''\<close>
        by (simp add: read_print_exponent)
      then show ?thesis using False other by (auto simp: general_pos_def mx Let_def ds_def)
    qed
  qed
qed

lemma print_general_reads:
  assumes "0 < a"
  shows "\<exists>v. read_decimal (print_general (Fin a)) = Some v \<and> \<bar>v - a\<bar> \<le> a / 200000 \<and>
    ((\<exists>n < 1000000. a = of_nat n) \<longrightarrow> v = a)"
proof -
  obtain m x where mx: "six_digits a = (m, x)" by fastforce
  have "of_nat m * 10 powi (x - 5) = a" if "n < 1000000" "a = of_nat n" for n
    using six_digits_exact [OF assms mx] whole_six_digits [of n] that assms by auto
  with six_digits(3) [OF assms mx] general_pos_value [OF assms mx] assms show ?thesis
    by (auto simp: minus_if_def)
qed

lemma print_fixed_reads:
  assumes "0 \<le> a" and "0 < n"
  shows "\<exists>v. read_decimal (print_fixed n (Fin a)) = Some v \<and> \<bar>v - a\<bar> * 10 ^ n \<le> 1 / 2"
proof -
  define r where "r = round_half_even (a * 10 ^ n)"
  have "0 \<le> r" using round_half_even_mono [of "of_int 0" "a * 10 ^ n"] assms(1)
    unfolding r_def round_half_even_of_int by simp
  define m where "m = nat r"
  have rm: "(of_int r :: rat) = of_nat m" using \<open>0 \<le> r\<close> by (simp add: m_def)
  let ?v = "of_nat m * 10 powi (- int n) :: rat"
  have v: "?v * 10 ^ n = of_nat m" by (simp add: power_int_minus)
  have "dec_value 0 (string_of_nat (m div 10 ^ n) @ padded n (m mod 10 ^ n)) = m"
    unfolding dec_value_append dec_value_padded
    by (simp only: dec_value_string_of_nat mod_mod_trivial div_mult_mod_eq)
  then have "read_decimal (scaled n m) = Some ?v"
    using read_decimal_plain [OF string_of_nat_digits padded_digits, of "m div 10 ^ n" n "m mod 10 ^ n"] assms(2)
    by (simp add: scaled_def)
  moreover have "\<bar>?v - a\<bar> * 10 ^ n = \<bar>(?v - a) * 10 ^ n\<bar>" by (simp add: abs_mult)
  then have "\<bar>?v - a\<bar> * 10 ^ n = \<bar>of_nat m - a * 10 ^ n\<bar>" unfolding left_diff_distrib v .
  moreover have "\<bar>of_nat m - a * 10 ^ n\<bar> \<le> 1 / 2"
    using round_half_even_error [of "a * 10 ^ n"] unfolding r_def [symmetric] rm .
  moreover have "print_fixed n (Fin a) = scaled n m" using assms(1) by (simp add: minus_if_def r_def m_def)
  ultimately show ?thesis by (intro exI [of _ ?v]) (simp only:)
qed

end
