(* ===== verification/Units.thy ===== *)
theory Units
  imports Decimal
begin

text \<open>
  The offered load, \<open>src/core/units.hpp\<close> and \<open>units.cpp\<close>: \<open>Rate::per_second\<close>, \<open>interval\<close>,
  \<open>due_at\<close> and \<open>str\<close>. A rate is the double it holds; \<open>rate_ok\<close> is the class invariant that
  \<open>per_second\<close>, the only constructor, establishes. The arithmetic is IEEE double
  arithmetic with every intermediate rounding, as the code's is, and \<open>llround\<close> of a value an
  \<open>int64_t\<close> cannot hold fails with \<open>Undefined\<close>.
\<close>

definition kMinRps :: double where
  "kMinRps = to_double (1 / 1000)"

definition kMaxRps :: double where
  "kMaxRps = Fin 1000000000"

record rate =
  rps :: double

definition rate_per_second :: "double \<Rightarrow> rate result" where
  "rate_per_second r =
     (if \<not> d_isfinite r
      then Inl (UsageError ''rate must be a finite number of requests per second'')
      else if d_less r kMinRps \<or> d_less kMaxRps r
      then Inl (UsageError (''rate must be between '' @ print_general kMinRps @ '' and '' @
        print_general kMaxRps @ '' rps, got '' @ print_general r))
      else Inr \<lparr>rps = r\<rparr>)"

definition interval :: "rate \<Rightarrow> nanos result" where
  "interval q = llround (d_div (Fin 1000000000) (rps q))"

definition due_at :: "rate \<Rightarrow> u64 \<Rightarrow> nanos result" where
  "due_at q index = llround (d_div (d_mul (d_of_u64 index) (Fin 1000000000)) (rps q))"

definition rate_str :: "rate \<Rightarrow> string" where
  "rate_str q = print_general (rps q) @ '' rps''"

definition rate_ok :: "rate \<Rightarrow> bool" where
  "rate_ok q \<longleftrightarrow> rate_per_second (rps q) = Inr q"

subsection \<open>The class invariant\<close>

lemma kMinRps_Fin: "kMinRps = Fin (rnd (1 / 1000))"
  unfolding kMinRps_def by (rule to_double_Fin) simp

lemma kMinRps_value: "rnd (1 / 1000) = 1152921504606847 * 2 powi (- 60)"
  using rnd_eqI [of "- 10" "1 / 1000" 4611686018427388]
  by (simp add: power_int_def divide_simps)

lemma kMin_bounds: "1 / 1000 < rnd (1 / 1000)" "rnd (1 / 1000) \<le> 1 / 999"
  unfolding kMinRps_value by (simp_all add: power_int_def divide_simps)

lemma rate_okE:
  assumes "rate_ok q"
  obtains r where "rps q = Fin r" and "1 / 1000 < r" and "r \<le> 1000000000"
proof (cases "rps q")
  case (Fin r)
  with assms kMin_bounds(1) have "1 / 1000 < r" "r \<le> 1000000000"
    by (auto simp: rate_ok_def rate_per_second_def kMinRps_Fin kMaxRps_def split: if_splits)
  with Fin show ?thesis by (rule that)
qed (use assms in \<open>auto simp: rate_ok_def rate_per_second_def\<close>)

lemma rate_okI: "1 / 999 \<le> r \<Longrightarrow> r \<le> 1000000000 \<Longrightarrow> rate_ok \<lparr>rps = Fin r\<rparr>"
  using kMin_bounds(2)
  by (auto simp: rate_ok_def rate_per_second_def kMinRps_Fin kMaxRps_def)

lemma rate_per_second_ok: "rate_per_second r = Inr q \<Longrightarrow> rate_ok q \<and> rps q = r"
  by (auto simp: rate_ok_def rate_per_second_def split: if_splits)

subsection \<open>Rounding to nanoseconds\<close>

lemma round_half_away_bounds:
  assumes "0 \<le> a"
  shows "0 \<le> round_half_away a" and "of_int (round_half_away a) \<le> a + 1 / 2"
    and "a - 1 / 2 < of_int (round_half_away a)"
  using assms unfolding round_half_away_def by (simp_all) linarith+

lemma round_half_away_mono: "0 \<le> a \<Longrightarrow> a \<le> b \<Longrightarrow> round_half_away a \<le> round_half_away b"
  unfolding round_half_away_def by (simp add: floor_mono)

lemma llround_Fin:
  assumes "0 \<le> a" and "a < 2 ^ 62"
  shows "llround (Fin a) = Inr (round_half_away a)"
proof -
  have "(of_int (round_half_away a) :: rat) < of_int (2 ^ 63)"
    using round_half_away_bounds(2) [OF assms(1)] assms(2) by simp
  then have "round_half_away a < 2 ^ 63" by (simp only: of_int_less_iff)
  moreover have "0 \<le> round_half_away a" by (rule round_half_away_bounds(1) [OF assms(1)])
  ultimately have "int64_ok (round_half_away a)" by (intro int64_okI) simp_all
  then show ?thesis by simp
qed

lemma llround_Inr: "llround d = Inr v \<longleftrightarrow> (\<exists>a. d = Fin a \<and> v = round_half_away a \<and> int64_ok v)"
  by (cases d) auto

lemma rnd_1e9: "rnd 1000000000 = 1000000000"
  using rnd_of_nat [of 1000000000] by simp

text \<open>The two quotients, with no overflow to infinity on the way.\<close>

definition due_double :: "rat \<Rightarrow> nat \<Rightarrow> rat" where
  "due_double r n = rnd (rnd (rnd (of_nat n) * 1000000000) / r)"

lemma rnd_le_powi: "0 \<le> x \<Longrightarrow> x \<le> 2 ^ k \<Longrightarrow> rnd x \<le> 2 ^ k"
  using rnd_upper [of x "2 ^ k"] rnd_powi [of "int k"] by simp

lemma due_double_fits:
  assumes "1 / 1000 < r" and "n < 2 ^ 64"
  shows "rnd (of_nat n :: rat) \<le> 2 ^ 64"
    and "rnd (rnd (of_nat n) * 1000000000) \<le> 2 ^ 94"
    and "rnd (rnd (of_nat n) * 1000000000) / r \<le> 2 ^ 104"
proof -
  have "(of_nat n :: rat) \<le> of_nat (2 ^ 64)" unfolding of_nat_le_iff using assms(2) by simp
  then show 1: "rnd (of_nat n :: rat) \<le> 2 ^ 64" by (intro rnd_le_powi) simp_all
  then show 2: "rnd (rnd (of_nat n) * 1000000000) \<le> 2 ^ 94" by (intro rnd_le_powi) simp_all
  have "rnd (rnd (of_nat n) * 1000000000) \<le> 2 ^ 104 * (1 / 1000 :: rat)" using 2 by simp
  also have "\<dots> \<le> 2 ^ 104 * r" using assms(1) by simp
  finally show "rnd (rnd (of_nat n) * 1000000000) / r \<le> 2 ^ 104"
    using assms(1) by (simp add: divide_le_eq)
qed

lemma to_double_small: "0 \<le> x \<Longrightarrow> x \<le> 2 ^ 104 \<Longrightarrow> to_double x = Fin (rnd x)"
proof -
  have "(2 :: rat) ^ 104 \<le> 2 ^ 1023" by (rule power_increasing) simp_all
  then show "0 \<le> x \<Longrightarrow> x \<le> 2 ^ 104 \<Longrightarrow> to_double x = Fin (rnd x)"
    by (intro to_double_Fin) (simp only: abs_of_nonneg order_trans)
qed

lemma due_product:
  assumes "1 / 1000 < r" and "n < 2 ^ 64"
  shows "d_div (d_mul (Fin (rnd (of_nat n))) (Fin 1000000000)) (Fin r) = Fin (due_double r n)"
proof -
  note fits = due_double_fits [OF assms]
  have "to_double (rnd (of_nat n) * 1000000000) = Fin (rnd (rnd (of_nat n) * 1000000000))"
    using fits(1) by (intro to_double_small) simp_all
  moreover have "to_double (rnd (rnd (of_nat n) * 1000000000) / r)
      = Fin (rnd (rnd (rnd (of_nat n) * 1000000000) / r))"
    using fits(3) assms(1) by (intro to_double_small) (simp_all add: zero_le_divide_iff)
  ultimately show ?thesis using assms(1) by (simp add: due_double_def)
qed

lemma due_at_eq:
  assumes "rps q = Fin r" and "1 / 1000 < r"
  shows "due_at q index = llround (Fin (due_double r (unat index)))"
  unfolding due_at_def assms(1) d_of_u64_Fin
  by (subst due_product [OF assms(2)]) simp_all

lemma due_double_nonneg: "0 < r \<Longrightarrow> 0 \<le> due_double r n"
  by (simp add: due_double_def)

lemma due_double_mono: "0 < r \<Longrightarrow> m \<le> n \<Longrightarrow> due_double r m \<le> due_double r n"
  unfolding due_double_def
  by (intro rnd_mono divide_right_mono mult_right_mono) simp_all

text \<open>The product before the division is at least 1 for a positive index, so both roundings
  have the relative error of a normal double.\<close>

lemma rnd_relative:
  assumes "1 \<le> x"
  shows "\<bar>rnd x - x\<bar> \<le> x / 2 ^ 53"
proof -
  have "(2 :: rat) powi (- 1022) \<le> 2 powi 0" by (intro power_int_increasing) simp_all
  with assms have "(2 :: rat) powi (- 1022) \<le> x" by simp
  from rnd_relative_error [OF this] show ?thesis by (simp add: power_int_def divide_simps)
qed

lemma due_double_error:
  assumes "0 < r" and "r \<le> 1000000000" and "n \<le> 2 ^ 53"
    and "of_nat n * 1000000000 \<le> r * 2 ^ 50"
  shows "\<bar>due_double r n - of_nat n * 1000000000 / r\<bar> < 1 / 2 - 1 / 100"
proof (cases "n = 0")
  case True
  then show ?thesis by (simp add: due_double_def)
next
  case False
  let ?p = "of_nat n * 1000000000 :: rat"
  let ?e = "?p / r"
  have n: "rnd (of_nat n) = of_nat n" by (rule rnd_of_nat [OF assms(3)])
  have p: "1000000000 \<le> ?p" using False by simp
  have e: "1 \<le> ?e" "?e \<le> 2 ^ 50" using p assms by (simp_all add: divide_simps)
  have 1: "\<bar>rnd ?p - ?p\<bar> \<le> ?p / 2 ^ 53" using p by (intro rnd_relative) simp
  have "rnd ?p \<ge> 1000000000" using rnd_lower [OF p] rnd_1e9 by simp
  then have f: "1 \<le> rnd ?p / r" using assms(1,2) by (simp add: divide_simps)
  have 2: "\<bar>rnd (rnd ?p / r) - rnd ?p / r\<bar> \<le> rnd ?p / r / 2 ^ 53" by (rule rnd_relative [OF f])
  have "\<bar>rnd ?p / r - ?e\<bar> = \<bar>rnd ?p - ?p\<bar> / r"
    using assms(1) by (simp add: diff_divide_distrib [symmetric])
  also have "\<dots> \<le> ?p / 2 ^ 53 / r" using 1 assms(1) by (intro divide_right_mono) simp_all
  also have "\<dots> = ?e / 2 ^ 53" by simp
  finally have 3: "\<bar>rnd ?p / r - ?e\<bar> \<le> ?e / 2 ^ 53" .
  have "due_double r n = rnd (rnd ?p / r)" by (simp add: due_double_def n)
  with 2 3 e(2) show ?thesis unfolding abs_le_iff abs_less_iff by (simp add: field_simps)
qed

subsection \<open>Properties\<close>

lemma interval_exists:
  assumes "rate_per_second r = Inr q"
  shows "\<exists>d. interval q = Inr d \<and> 1 \<le> d \<and> d \<le> 10 ^ 12"
proof -
  obtain x where x: "rps q = Fin x" "1 / 1000 < x" "x \<le> 1000000000"
    using rate_per_second_ok [OF assms] by (auto elim: rate_okE)
  let ?a = "rnd (1000000000 / x)"
  have q: "1 \<le> 1000000000 / x" "1000000000 / x \<le> 10 ^ 12" using x(2,3) by (simp_all add: divide_simps)
  have "1 \<le> ?a" using rnd_lower [OF q(1)] rnd_of_int [of 1] by simp
  moreover have "?a \<le> 10 ^ 12" using rnd_upper [OF q(2)] rnd_of_int [of "10 ^ 12"] by simp
  moreover have "to_double (1000000000 / x) = Fin ?a" using q x(2) by (intro to_double_small) simp_all
  ultimately have "interval q = Inr (round_half_away ?a)" "1 \<le> round_half_away ?a"
      "round_half_away ?a \<le> 10 ^ 12"
    using x(1,2) llround_Fin [of ?a] round_half_away_mono [of 1 ?a] round_half_away_mono [of ?a "10 ^ 12"]
    by (simp_all add: interval_def round_half_away_def)
  then show ?thesis by blast
qed

text \<open>A rate that \<open>Rate::per_second\<close> accepts has an interval, and it lies between 1ns and
  1000 seconds (10^12 ns): the division never leaves the range of \<open>llround\<close>, and the schedule
  never collapses to a zero gap.\<close>

theorem interval_total:
  assumes "rate_per_second r = Inr q"
  shows "\<exists>d. interval q = Inr d \<and> 1 \<le> d \<and> d \<le> 10 ^ 12"
  using assms by (rule interval_exists)

theorem interval_total_witness:
  "\<exists>d. interval \<lparr>rps = Fin 3\<rparr> = Inr d \<and> 1 \<le> d \<and> d \<le> 10 ^ 12"
  using kMin_bounds(2)
  by (intro interval_total [of "Fin 3"]) (simp add: rate_per_second_def kMinRps_Fin kMaxRps_def)

text \<open>C33: The schedule does not drift. While request \<open>index\<close> is due within 2^50 ns (13 days)
  of the start, \<open>due_at\<close> is defined and within one nanosecond of the exact
  \<open>index / rate\<close>, however many requests came before.\<close>

theorem due_at_within_1ns:
  assumes "rate_per_second (Fin r) = Inr q"
    and "of_nat (unat index) * 1000000000 \<le> r * 2 ^ 50" and "unat index \<le> 2 ^ 53"
  shows "\<exists>d. due_at q index = Inr d \<and> 0 \<le> d \<and>
    \<bar>of_int d - of_nat (unat index) * 1000000000 / r\<bar> < 1"
proof -
  have x: "rps q = Fin r" "1 / 1000 < r" "r \<le> 1000000000"
    using rate_per_second_ok [OF assms(1)] by (auto elim: rate_okE)
  define n where "n = unat index"
  let ?a = "due_double r n"
  let ?e = "of_nat n * 1000000000 / r"
  have err: "\<bar>?a - ?e\<bar> < 1 / 2 - 1 / 100"
    using assms(2,3) x by (intro due_double_error) (simp_all add: n_def)
  have a: "0 \<le> ?a" using x(2) by (simp add: due_double_nonneg)
  have "?e \<le> 2 ^ 50" using assms(2) x(2) by (simp add: n_def divide_simps mult.commute)
  with err have "?a < 2 ^ 62" unfolding abs_less_iff by simp
  with a have "due_at q index = Inr (round_half_away ?a)"
    unfolding due_at_eq [OF x(1,2)] n_def by (rule llround_Fin)
  moreover have "\<bar>of_int (round_half_away ?a) - ?e\<bar> < 1"
    using round_half_away_bounds(2,3) [OF a] err unfolding abs_less_iff by simp
  ultimately show ?thesis
    using round_half_away_bounds(1) [OF a] unfolding n_def by blast
qed

theorem due_at_within_1ns_witness:
  "\<exists>d. due_at \<lparr>rps = Fin 7\<rparr> 3000000 = Inr d \<and> 0 \<le> d \<and>
    \<bar>of_int d - of_nat (unat (3000000 :: u64)) * 1000000000 / (7 :: rat)\<bar> < 1"
  using kMin_bounds(2)
  by (intro due_at_within_1ns) (simp_all add: rate_per_second_def kMinRps_Fin kMaxRps_def)

text \<open>Due times never go backwards: of two indices that are both due, the later one is due
  no earlier, roundings included.\<close>

theorem due_at_monotone:
  assumes "rate_per_second r = Inr q" and "due_at q i = Inr d" and "due_at q j = Inr e"
    and "unat i \<le> unat j"
  shows "d \<le> e"
proof -
  obtain x where x: "rps q = Fin x" "1 / 1000 < x"
    using rate_per_second_ok [OF assms(1)] by (auto elim: rate_okE)
  then show ?thesis
    using assms(2-4) due_double_nonneg [of x "unat i"] due_double_mono [of x "unat i" "unat j"]
    unfolding due_at_eq [OF x] llround_Inr by (auto intro: round_half_away_mono)
qed

lemma due_at_0: "rate_ok q \<Longrightarrow> due_at q 0 = Inr 0"
  by (erule rate_okE) (simp add: due_at_eq due_double_def round_half_away_def int64_okI floor_eq_iff)

lemma rate_7: "rate_per_second (Fin 7) = Inr \<lparr>rps = Fin 7\<rparr>"
  using kMin_bounds(2) by (simp add: rate_per_second_def kMinRps_Fin kMaxRps_def)

lemma due_at_7_0: "due_at \<lparr>rps = Fin 7\<rparr> 0 = Inr 0"
  by (rule due_at_0) (rule rate_okI; simp)

lemma due_at_7_1: "due_at \<lparr>rps = Fin 7\<rparr> 1 = Inr 142857143"
proof -
  have "rnd (1000000000 / 7 :: rat) = 4793490285714286 * 2 powi (- 25)" 
    using rnd_eqI [of 27 "1000000000 / 7" 4793490285714286] by (simp add: power_int_def divide_simps)
  then show ?thesis
    using rnd_of_nat [of 1]
    by (simp add: due_at_eq due_double_def rnd_1e9 round_half_away_def power_int_def int64_ok_def
        floor_eq_iff le_floor_iff floor_less_iff power_divide)
qed

theorem due_at_monotone_witness: "(0 :: int) \<le> 142857143"
  by (rule due_at_monotone [OF rate_7 due_at_7_0 due_at_7_1]) simp

text \<open>\<open>due_at\<close> is not total, though the header of \<open>Rate\<close> promises it: at the lowest
  accepted rate, request 10^10 is due beyond the range of an \<open>int64_t\<close> nanosecond count, and
  \<open>llround\<close> of it is undefined.\<close>

theorem due_at_not_total:
  "rate_per_second kMinRps = Inr \<lparr>rps = kMinRps\<rparr> \<and>
   due_at \<lparr>rps = kMinRps\<rparr> 10000000000 = Inl (Undefined ''llround out of range'')"
proof
  show "rate_per_second kMinRps = Inr \<lparr>rps = kMinRps\<rparr>"
    using kMin_bounds by (simp add: rate_per_second_def kMinRps_Fin kMaxRps_def)
  let ?m = "rnd (1 / 1000) :: rat"
  let ?a = "due_double ?m 10000000000"
  have 1: "rnd (of_nat 10000000000) = (10000000000 :: rat)" by (subst rnd_of_nat) simp_all
  have "rnd (2 ^ 63) \<le> rnd (10000000000 * 1000000000 :: rat)" by (rule rnd_mono) simp
  then have "2 ^ 63 \<le> rnd (10000000000 * 1000000000 :: rat)" using rnd_powi [of 63] by simp
  then have "2 ^ 64 \<le> rnd (10000000000 * 1000000000 :: rat) / ?m"
    using kMin_bounds by (simp add: le_divide_eq)
  then have "rnd (2 ^ 64) \<le> ?a" unfolding due_double_def 1 by (rule rnd_mono)
  then have "2 ^ 64 \<le> ?a" using rnd_powi [of 64] by simp
  then have "\<not> int64_ok (round_half_away ?a)"
    using round_half_away_mono [of "2 ^ 64" ?a] by (simp add: round_half_away_def int64_ok_def)
  then show "due_at \<lparr>rps = kMinRps\<rparr> 10000000000 = Inl (Undefined ''llround out of range'')"
    using kMin_bounds(1) by (simp add: kMinRps_Fin due_at_eq)
qed

text \<open>C34: What \<open>Rate::str\<close> prints can be given back to \<open>--rate\<close>. The text before its unit is a decimal literal
  that the reader of the flags takes, within five parts in a million of the rate; for a whole rate
  below one million it is the rate itself. Six digits are all that is printed: at or above one million it
  need not be.\<close>

theorem rate_str_reads_back:
  assumes "rate_per_second (Fin r) = Inr q"
  shows "\<exists>s v. rate_str q = s @ '' rps'' \<and> read_decimal s = Some v \<and> \<bar>v - r\<bar> \<le> r / 200000 \<and>
    ((\<exists>n < 1000000. r = of_nat n) \<longrightarrow> v = r)"
proof -
  have q: "rps q = Fin r" "0 < r" using rate_per_second_ok [OF assms] assms
    by (auto elim!: rate_okE simp: rate_per_second_def split: if_splits)
  with print_general_reads [OF q(2)] show ?thesis by (auto simp: rate_str_def)
qed

theorem rate_str_reads_back_witness:
  "\<exists>s v. rate_str \<lparr>rps = Fin 7\<rparr> = s @ '' rps'' \<and> read_decimal s = Some v \<and> v = 7"
proof -
  have "\<exists>n < 1000000. (7::rat) = of_nat n" by (intro exI [of _ 7]) simp
  with rate_str_reads_back [OF rate_7] show ?thesis by blast
qed

text \<open>Two rates, one text.\<close>

lemma rate_str_of_a_million:
  "rate_str \<lparr>rps = Fin 1234567\<rparr> = ''1.23457e+06 rps'' \<and> rate_str \<lparr>rps = Fin 1234568\<rparr> = ''1.23457e+06 rps''"
proof -
  have "round_half_even (1234567 / 10 :: rat) = 123457" "round_half_even (1234568 / 10 :: rat) = 123457"
    by (intro round_half_even_nearest; simp)+
  moreover have "dec_expo 1234567 = 6" "dec_expo 1234568 = 6"
    by (intro dec_expo_eqI; simp add: power_int_def)+
  ultimately have "six_digits 1234567 = (123457, 6)" "six_digits 1234568 = (123457, 6)"
    by (simp_all add: six_digits_def)
  moreover have "string_of_nat 123457 = ''123457''" "string_of_nat 6 = ''6''"
    by (simp_all add: string_of_nat.simps digit_char_def) code_simp+
  ultimately show ?thesis
    by (simp add: rate_str_def minus_if_def general_pos_def with_point_def strip_zeros_def print_exponent_def)
qed

end
