(* ===== verification/Schedule.thy ===== *)
theory Schedule
  imports Units Clock
begin

text \<open>
  The open-loop schedule, \<open>src/load/schedule.hpp\<close>: one counter that every connection shares.
  \<open>claim\<close> is one atomic \<open>fetch_add\<close> followed by arithmetic on the value it returned, so a run
  of any number of threads is a sequence of claims, each by some thread; \<open>claim_all\<close> is that
  sequence, with the thread that made each claim.
\<close>

record schedule =
  sch_rate :: rate
  sch_start :: instant
  sch_next :: u64

record slot =
  slot_index :: u64
  slot_due :: instant

definition new_schedule :: "rate \<Rightarrow> instant \<Rightarrow> schedule" where
  "new_schedule q start = \<lparr>sch_rate = q, sch_start = start, sch_next = 0\<rparr>"

definition slot_at :: "schedule \<Rightarrow> u64 \<Rightarrow> slot result" where
  "slot_at s index =
     and_then (due_at (sch_rate s) index) (\<lambda>d.
     and_then (add_nanos (sch_start s) d) (\<lambda>due. Inr \<lparr>slot_index = index, slot_due = due\<rparr>))"

definition claim :: "schedule \<Rightarrow> slot result \<times> schedule" where
  "claim s = (slot_at s (sch_next s), s\<lparr>sch_next := sch_next s + 1\<rparr>)"

definition claimed :: "schedule \<Rightarrow> u64" where
  "claimed s = sch_next s"

fun claim_all :: "schedule \<Rightarrow> 'thread list \<Rightarrow> ('thread \<times> slot result) list \<times> schedule" where
  "claim_all s [] = ([], s)"
| "claim_all s (t # ts) =
     (case claim s of (r, s') \<Rightarrow> (case claim_all s' ts of (rs, s'') \<Rightarrow> ((t, r) # rs, s'')))"

subsection \<open>What a sequence of claims hands out\<close>

lemma slot_at_next [simp]: "slot_at (s\<lparr>sch_next := n\<rparr>) = slot_at s"
  by (simp add: slot_at_def fun_eq_iff)

lemma claim_all_eq:
  "claim_all s ts =
     (map (\<lambda>(t, i). (t, slot_at s (sch_next s + of_nat i))) (zip ts [0..<length ts]),
      s\<lparr>sch_next := sch_next s + of_nat (length ts)\<rparr>)"
proof (induction ts arbitrary: s)
  case (Cons t ts)
  have z: "zip ts [Suc 0..<Suc (length ts)] = map (\<lambda>(t, i). (t, Suc i)) (zip ts [0..<length ts])"
    unfolding map_Suc_upt [symmetric] by (simp add: zip_map2 case_prod_unfold)
  show ?case
    by (simp add: Cons claim_def upt_conv_Cons z case_prod_unfold ac_simps del: upt_Suc)
qed simp

lemma slot_at_index: "slot_at s i = Inr x \<Longrightarrow> slot_index x = i"
  by (auto simp: slot_at_def and_then_Inr_iff)

lemma slot_at_due_mono:
  assumes "rate_ok (sch_rate s)" and "slot_at s i = Inr x" and "slot_at s j = Inr y"
    and "unat i \<le> unat j"
  shows "slot_due x \<le> slot_due y"
proof -
  from assms(1) obtain r where r: "rps (sch_rate s) = Fin r" "1 / 1000 < r" by (rule rate_okE)
  then show ?thesis
    using assms(2-4) due_double_nonneg [of r "unat i"] due_double_mono [of r "unat i" "unat j"]
    unfolding slot_at_def due_at_eq [OF r]
    by (auto simp: and_then_Inr_iff llround_Inr add_nanos_def round_half_away_mono split: if_splits)
qed

subsection \<open>Properties\<close>

text \<open>C18: However the threads interleave, the schedule offers its rate once: the n-th claim of the
  run, by whichever thread, gets index n and the due time of that index, so (up to 2^64 claims)
  no index is handed out twice, none is skipped, and \<open>claimed\<close> is their number.\<close>

theorem claims_are_unique:
  assumes "length ts \<le> 2 ^ 64"
  shows "\<exists>rs s'. claim_all (new_schedule q start) ts = (rs, s') \<and> map fst rs = ts \<and>
    map snd rs = map (\<lambda>n. slot_at (new_schedule q start) (of_nat n)) [0..<length ts] \<and>
    (\<forall>m < length ts. \<forall>n < length ts. \<forall>x y. snd (rs ! m) = Inr x \<longrightarrow> snd (rs ! n) = Inr y \<longrightarrow>
       unat (slot_index x) = m \<and> (slot_index x = slot_index y \<longrightarrow> m = n)) \<and>
    claimed s' = of_nat (length ts)"
proof -
  let ?s = "new_schedule q start"
  let ?rs = "map (\<lambda>(t, i). (t, slot_at ?s (of_nat i))) (zip ts [0..<length ts])"
  have u: "unat (of_nat m :: u64) = m" if "m < length ts" for m
    using that assms by (intro unat_u64_of_nat) simp
  have "claim_all ?s ts = (?rs, ?s\<lparr>sch_next := of_nat (length ts)\<rparr>)"
    by (simp add: claim_all_eq new_schedule_def)
  moreover have "map fst ?rs = ts" by (simp add: case_prod_unfold comp_def)
  moreover have "map snd ?rs = map (\<lambda>n. slot_at ?s (of_nat n)) [0..<length ts]"
    by (rule nth_equalityI) simp_all
  moreover have "unat (slot_index x) = m \<and> (slot_index x = slot_index y \<longrightarrow> m = n)"
    if "m < length ts" "n < length ts" "snd (?rs ! m) = Inr x" "snd (?rs ! n) = Inr y" for m n x y
    using that u [of m] u [of n] by (auto dest!: slot_at_index)
  ultimately show ?thesis by (intro exI [of _ ?rs] exI [of _ "?s\<lparr>sch_next := of_nat (length ts)\<rparr>"])
      (simp add: claimed_def)
qed

theorem claims_are_unique_witness:
  "\<exists>rs s'. claim_all (new_schedule \<lparr>rps = Fin 1000\<rparr> 0) [''a'', ''b'', ''b''] = (rs, s') \<and>
    map fst rs = [''a'', ''b'', ''b''] \<and>
    map snd rs = map (\<lambda>n. slot_at (new_schedule \<lparr>rps = Fin 1000\<rparr> 0) (of_nat n)) [0, 1, 2] \<and>
    claimed s' = 3"
proof -
  have "length [''a'', ''b'', ''b''] \<le> 2 ^ 64" by simp
  from claims_are_unique [OF this, of "\<lparr>rps = Fin 1000\<rparr>" 0] show ?thesis
    by (auto simp: upt_rec)
qed

text \<open>Successive claims are due in order: of two claims of a run at an accepted rate, the later
  one's due time is no earlier, whichever threads made them.\<close>

lemma claims_due_in_order:
  assumes "rate_per_second r = Inr q" and "length ts \<le> 2 ^ 64"
    and "claim_all (new_schedule q start) ts = (rs, s')"
    and "m \<le> n" and "n < length ts"
    and "snd (rs ! m) = Inr x" and "snd (rs ! n) = Inr y"
  shows "slot_due x \<le> slot_due y"
proof -
  let ?s = "new_schedule q start"
  have "slot_at ?s (of_nat m) = Inr x" "slot_at ?s (of_nat n) = Inr y"
    using assms(3-7) by (auto simp: claim_all_eq new_schedule_def)
  moreover have "rate_ok (sch_rate ?s)"
    using rate_per_second_ok [OF assms(1)] by (simp add: new_schedule_def)
  moreover have "unat (of_nat m :: u64) \<le> unat (of_nat n :: u64)"
    using assms(2,4,5) by (simp add: unat_u64_of_nat)
  ultimately show ?thesis by (intro slot_at_due_mono)
qed

lemma claims_due_in_order_witness:
  "slot_due \<lparr>slot_index = 0, slot_due = 5\<rparr> \<le> slot_due \<lparr>slot_index = 1, slot_due = 142857148\<rparr>"
proof (rule claims_due_in_order)
  let ?s = "new_schedule \<lparr>rps = Fin 7\<rparr> 5"
  show "rate_per_second (Fin 7) = Inr \<lparr>rps = Fin 7\<rparr>" by (rule rate_7)
  show "claim_all ?s [''a'', ''b''] = (fst (claim_all ?s [''a'', ''b'']), snd (claim_all ?s [''a'', ''b'']))"
    by simp
  show "snd (fst (claim_all ?s [''a'', ''b'']) ! 0) = Inr \<lparr>slot_index = 0, slot_due = 5\<rparr>"
    by (simp add: claim_def slot_at_def new_schedule_def add_nanos_def int64_okI due_at_7_0)
  show "snd (fst (claim_all ?s [''a'', ''b'']) ! 1) = Inr \<lparr>slot_index = 1, slot_due = 142857148\<rparr>"
    by (simp add: claim_def slot_at_def new_schedule_def add_nanos_def int64_okI due_at_7_1)
qed simp_all

end
