(* ===== verification/Open_Loop.thy ===== *)
theory Open_Loop
  imports Closed_Loop Schedule
begin

text \<open>
  An open-loop run, \<open>src/load/open_loop.hpp\<close> and \<open>open_loop.cpp\<close>: the worker that one connection and the shared
  schedule drive, the split of its lateness by cause, the merged run and its two verdicts.
  A claim is one atomic step on the shared counter, so the worker carries the indices
  its successive claims get, its \<open>tickets\<close>, as the interleaving of all threads determines them; which slot
  an index is, is \<open>Schedule\<close>. A worker whose tickets have run out does not get to its next claim.
  \<open>sleep_until\<close> returns once the clock has reached the instant.
\<close>

record open_worker =
  ow_tickets :: "u64 list"
  ow_histogram :: histogram
  ow_lag :: histogram
  ow_connection_wait :: histogram
  ow_rig_lag :: histogram
  ow_errors :: error_counts
  ow_attempted :: u64
  ow_opened :: u64

definition new_open_worker :: "u64 list \<Rightarrow> open_worker" where
  "new_open_worker tickets =
     \<lparr>ow_tickets = tickets, ow_histogram = empty_histogram, ow_lag = empty_histogram,
      ow_connection_wait = empty_histogram, ow_rig_lag = empty_histogram, ow_errors = no_errors,
      ow_attempted = 0, ow_opened = 0\<rparr>"

definition sleep_until :: "instant \<Rightarrow> ('addr, unit) op" where
  "sleep_until t w = (if t \<le> w_clock w (w_reads w) then Inr () else Inl Blocked, w)"

definition claim_slot :: "schedule \<Rightarrow> open_worker \<Rightarrow> ('addr, slot \<times> open_worker) op" where
  "claim_slot schedule ow =
     (case ow_tickets ow of
        [] \<Rightarrow> throw Blocked
      | index # rest \<Rightarrow>
          op_then (lift (slot_at schedule index)) (\<lambda>slot. return_op (slot, ow\<lparr>ow_tickets := rest\<rparr>)))"

text \<open>The switch over the outcome, with the latency measured from the due time.\<close>

definition count_from_due :: "open_worker \<Rightarrow> outcome \<Rightarrow> nanos \<Rightarrow> open_worker result" where
  "count_from_due ow out from_due =
     (let errors = ow_errors ow;
          timed = (\<lambda>errors'. and_then (hist_record (ow_histogram ow) from_due) (\<lambda>h.
            Inr (ow\<lparr>ow_errors := errors', ow_histogram := h\<rparr>)))
      in case out of
           Succeeded \<Rightarrow> timed errors
         | Rejected \<Rightarrow> timed (errors\<lparr>e_rejected := e_rejected errors + 1\<rparr>)
         | Timed_Out \<Rightarrow> timed (errors\<lparr>e_timeout := e_timeout errors + 1\<rparr>)
         | Protocol_Error \<Rightarrow> Inr (ow\<lparr>ow_errors := errors\<lparr>e_protocol := e_protocol errors + 1\<rparr>\<rparr>)
         | Read_Failed \<Rightarrow> Inr (ow\<lparr>ow_errors := errors\<lparr>e_read := e_read errors + 1\<rparr>\<rparr>)
         | Write_Failed \<Rightarrow> Inr (ow\<lparr>ow_errors := errors\<lparr>e_write := e_write errors + 1\<rparr>\<rparr>))"

definition account_slot ::
  "open_worker \<Rightarrow> instant \<Rightarrow> instant \<Rightarrow> instant \<Rightarrow> exchange \<Rightarrow> open_worker result" where
  "account_slot ow due free_at sending x =
     (let ow = ow\<lparr>ow_attempted := ow_attempted ow + 1\<rparr> in
     and_then (between due sending) (\<lambda>behind.
     let late = max 0 behind in
     and_then (hist_record (ow_lag ow) late) (\<lambda>lag.
     and_then (between due free_at) (\<lambda>held.
     let waited = max 0 held in
     and_then (hist_record (ow_connection_wait ow) waited) (\<lambda>wait.
     and_then (hist_record (ow_rig_lag ow) (late - waited)) (\<lambda>rig.
     and_then (add_nanos behind (x_elapsed x)) (\<lambda>from_due.
       count_from_due (ow\<lparr>ow_lag := lag, ow_connection_wait := wait, ow_rig_lag := rig\<rparr>)
         (x_outcome x) from_due)))))))"

text \<open>A slot that is carried: sleep until it is due, send, account for it.\<close>

definition send_slot ::
  "worker_config \<Rightarrow> protocol \<Rightarrow> instant \<Rightarrow> open_worker \<Rightarrow> instant \<Rightarrow> instant \<Rightarrow> nat
    \<Rightarrow> ('addr, (open_worker \<times> nat option, open_worker) turn) op" where
  "send_slot config protocol record_from ow due free_at fd =
     op_then (sleep_until due) (\<lambda>_.
     op_then read_clock (\<lambda>sending.
     op_then (perform_request protocol (wc_read_buffer_bytes config)) (\<lambda>(x, received).
     op_then (lift (if record_from \<le> due then account_slot ow due free_at sending x else Inr ow)) (\<lambda>ow.
       if x_usable x then return_op (Again (ow, Some fd))
       else op_then (log_action (Closed fd)) (\<lambda>_. return_op (Again (ow, None)))))))"

definition carry_slot ::
  "worker_config \<Rightarrow> protocol \<Rightarrow> schedule \<Rightarrow> instant \<Rightarrow> instant \<Rightarrow> open_worker \<Rightarrow> nat
    \<Rightarrow> ('addr, (open_worker \<times> nat option, open_worker) turn) op" where
  "carry_slot config protocol schedule record_from deadline ow fd =
     op_then read_clock (\<lambda>free_at.
     op_then (claim_slot schedule ow) (\<lambda>(slot, ow).
       if deadline \<le> slot_due slot then op_then (drop_socket (Some fd)) (\<lambda>_. return_op (Exit ow))
       else send_slot config protocol record_from ow (slot_due slot) free_at fd))"

definition open_connect_failed ::
  "worker_config \<Rightarrow> instant \<Rightarrow> open_worker \<Rightarrow> nat option
    \<Rightarrow> ('addr, (open_worker \<times> nat option, open_worker) turn) op" where
  "open_connect_failed config record_from ow socket =
     op_then read_clock (\<lambda>t.
     op_then (log_action (Slept (wc_reconnect_delay config))) (\<lambda>_.
       return_op (Again
         (if record_from \<le> t
          then ow\<lparr>ow_attempted := ow_attempted ow + 1,
                  ow_errors := (ow_errors ow)\<lparr>e_connect := e_connect (ow_errors ow) + 1\<rparr>\<rparr>
          else ow, socket))))"

definition open_connect_first ::
  "worker_config \<Rightarrow> protocol \<Rightarrow> 'addr list \<Rightarrow> schedule \<Rightarrow> instant \<Rightarrow> instant \<Rightarrow> open_worker
    \<Rightarrow> ('addr, (open_worker \<times> nat option, open_worker) turn) op" where
  "open_connect_first config protocol addresses schedule record_from deadline ow =
     op_then (attempt_io (connect_any addresses (wc_connect_timeout config))) (\<lambda>c. case c of
         Inl e \<Rightarrow> open_connect_failed config record_from ow None
       | Inr fd \<Rightarrow>
           op_then (attempt_io (set_timeouts (wc_read_timeout config) (wc_write_timeout config)))
             (\<lambda>s. case s of
                 Inl e \<Rightarrow> open_connect_failed config record_from ow (Some fd)
               | Inr _ \<Rightarrow>
                   carry_slot config protocol schedule record_from deadline
                     (ow\<lparr>ow_opened := ow_opened ow + 1\<rparr>) fd))"

definition open_turn ::
  "worker_config \<Rightarrow> protocol \<Rightarrow> 'addr list \<Rightarrow> schedule \<Rightarrow> instant \<Rightarrow> instant \<Rightarrow> open_worker \<times> nat option
    \<Rightarrow> ('addr, (open_worker \<times> nat option, open_worker) turn) op" where
  "open_turn config protocol addresses schedule record_from deadline st =
     (case st of (ow, socket) \<Rightarrow>
       op_then read_clock (\<lambda>t.
         if deadline \<le> t then op_then (drop_socket socket) (\<lambda>_. return_op (Exit ow))
         else case socket of
             Some fd \<Rightarrow> carry_slot config protocol schedule record_from deadline ow fd
           | None \<Rightarrow> open_connect_first config protocol addresses schedule record_from deadline ow))"

definition open_worker_run ::
  "worker_config \<Rightarrow> protocol \<Rightarrow> 'addr list \<Rightarrow> schedule \<Rightarrow> instant \<Rightarrow> instant \<Rightarrow> open_worker
    \<Rightarrow> ('addr, open_worker) op" where
  "open_worker_run config protocol addresses schedule record_from deadline ow =
     iterate (open_turn config protocol addresses schedule record_from deadline) (ow, None)"

subsection \<open>A run\<close>

record open_plan =
  op_target :: endpoint
  op_rate :: rate
  op_connections :: nat
  op_duration :: millis
  op_warmup :: millis
  op_worker :: worker_config

record open_loop_run =
  ol_result :: run_result
  ol_histogram :: histogram
  ol_requested :: nat
  ol_started :: nat
  ol_opened :: u64
  ol_resolution :: nanos
  ol_schedule_lag :: histogram
  ol_connection_wait :: histogram
  ol_rig_lag :: histogram
  ol_slots_claimed :: u64
  ol_slots_due :: u64
  ol_rate :: rate

text \<open>\<open>os_claims\<close> names the thread of every claim of the run, in the order of the claims.\<close>

record 'addr open_setting =
  os_threads :: "'addr world list"
  os_clock :: clock
  os_claims :: "nat list"

definition tickets :: "nat list \<Rightarrow> nat \<Rightarrow> u64 list" where
  "tickets claims i = map of_nat (filter (\<lambda>n. claims ! n = i) [0..<length claims])"

record merged =
  m_histogram :: histogram
  m_lag :: histogram
  m_wait :: histogram
  m_rig :: histogram
  m_errors :: error_counts
  m_attempted :: u64
  m_opened :: u64

definition merge_open_worker :: "merged \<Rightarrow> open_worker \<Rightarrow> merged" where
  "merge_open_worker m ow =
     \<lparr>m_histogram = hist_merge (m_histogram m) (ow_histogram ow),
      m_lag = hist_merge (m_lag m) (ow_lag ow),
      m_wait = hist_merge (m_wait m) (ow_connection_wait ow),
      m_rig = hist_merge (m_rig m) (ow_rig_lag ow),
      m_errors = errors_merge (m_errors m) (ow_errors ow),
      m_attempted = m_attempted m + ow_attempted ow,
      m_opened = m_opened m + ow_opened ow\<rparr>"

definition nothing_merged :: merged where
  "nothing_merged =
     \<lparr>m_histogram = empty_histogram, m_lag = empty_histogram, m_wait = empty_histogram,
      m_rig = empty_histogram, m_errors = no_errors, m_attempted = 0, m_opened = 0\<rparr>"

definition open_drive ::
  "worker_config \<Rightarrow> protocol \<Rightarrow> 'addr list \<Rightarrow> schedule \<Rightarrow> instant \<Rightarrow> instant \<Rightarrow> nat list \<Rightarrow> 'addr world list
    \<Rightarrow> open_worker list result" where
  "open_drive config protocol addresses schedule record_from deadline claims threads =
     join_all (map (\<lambda>(i, w). fst (open_worker_run config protocol addresses schedule record_from deadline
       (new_open_worker (tickets claims i)) w)) (enumerate 0 threads))"

definition slots_due :: "rate \<Rightarrow> millis \<Rightarrow> u64 result" where
  "slots_due q duration = cast_u64 (d_div (d_mul (rps q) (d_of_i64 duration)) (Fin 1000))"

definition run_open_loop ::
  "(endpoint \<Rightarrow> 'addr list result) \<Rightarrow> protocol \<Rightarrow> open_plan \<Rightarrow> 'addr open_setting
    \<Rightarrow> open_loop_run result" where
  "run_open_loop resolve protocol plan env =
     and_then (resolve (op_target plan)) (\<lambda>addresses.
     let started = os_clock env 0 in
     and_then (add_millis started (op_warmup plan)) (\<lambda>record_from.
     and_then (add_millis record_from (op_duration plan)) (\<lambda>deadline.
     let schedule = new_schedule (op_rate plan) record_from;
         threads = spawn (op_connections plan) (os_threads env) in
     and_then (unjoined threads (measured_resolution (os_clock env) 1)) (\<lambda>(resolution, _).
     and_then (open_drive (op_worker plan) protocol addresses schedule record_from deadline
         (os_claims env) threads) (\<lambda>workers.
     let m = foldl merge_open_worker nothing_merged workers in
     and_then (nanos_of_millis (op_duration plan)) (\<lambda>duration.
     and_then (summary_of (m_histogram m) duration) (\<lambda>latency.
     and_then (slots_due (op_rate plan) (op_duration plan)) (\<lambda>due.
       Inr \<lparr>ol_result = \<lparr>r_attempted = m_attempted m, r_errors = m_errors m, r_latency = latency,
              r_duration = duration\<rparr>,
            ol_histogram = m_histogram m, ol_requested = op_connections plan,
            ol_started = length threads, ol_opened = m_opened m, ol_resolution = resolution,
            ol_schedule_lag = m_lag m, ol_connection_wait = m_wait m, ol_rig_lag = m_rig m,
            ol_slots_claimed = claimed (snd (claim_all schedule (os_claims env))),
            ol_slots_due = due, ol_rate = op_rate plan\<rparr>))))))))"

text \<open>The two verdicts, each on the median of one half of the lag, against ten intervals.\<close>

definition ten_intervals :: "rate \<Rightarrow> nanos result" where
  "ten_intervals q =
     and_then (interval q) (\<lambda>i. if int64_ok (i * 10) then Inr (i * 10) else Inl (Undefined ''duration overflow''))"

definition kept_up :: "open_loop_run \<Rightarrow> bool result" where
  "kept_up run =
     (if h_count (ol_rig_lag run) = 0 then Inr True
      else
        and_then (percentile (ol_rig_lag run) (Fin 50)) (\<lambda>median.
          case median of
            None \<Rightarrow> Inr False
          | Some v \<Rightarrow> and_then (ten_intervals (ol_rate run)) (\<lambda>limit. Inr (v < limit))))"

definition connections_saturated :: "open_loop_run \<Rightarrow> bool result" where
  "connections_saturated run =
     (if h_count (ol_connection_wait run) = 0 then Inr False
      else
        and_then (percentile (ol_connection_wait run) (Fin 50)) (\<lambda>median.
          case median of
            None \<Rightarrow> Inr False
          | Some v \<Rightarrow> and_then (ten_intervals (ol_rate run)) (\<lambda>limit. Inr (limit \<le> v))))"

subsection \<open>Every turn makes a system call\<close>

lemma well_behaved_sleep_until [behaved]: "well_behaved (sleep_until t)"
  by (simp add: well_behaved_def sleep_until_def)

lemma well_behaved_claim [behaved]: "well_behaved (claim_slot schedule ow)"
  unfolding claim_slot_def by (auto intro!: behaved split: list.split)

lemma well_behaved_drop [behaved]: "well_behaved (drop_socket socket)"
  unfolding drop_socket_def by (auto intro!: behaved split: option.split)

lemma well_behaved_send [behaved]: "well_behaved (send_slot config protocol record_from ow due free_at fd)"
  unfolding send_slot_def by (intro behaved) (auto intro!: behaved)

lemma well_behaved_carry [behaved]:
  "well_behaved (carry_slot config protocol schedule record_from deadline ow fd)"
  unfolding carry_slot_def by (intro behaved) (auto intro!: behaved)

lemma well_behaved_open_connect_failed [behaved]:
  "well_behaved (open_connect_failed config record_from ow socket)"
  unfolding open_connect_failed_def by (intro behaved)

lemma hungry_open_connect:
  "hungry (open_connect_first config protocol addresses schedule record_from deadline ow)"
  unfolding open_connect_first_def
  by (intro hungry_first [OF hungry_attempt [OF hungry_connect_any]])
    (auto intro!: behaved split: sum.split)

text \<open>A turn that goes round again has performed a request or failed to connect.\<close>

definition feeds :: "('addr, ('s, 'a) turn) op \<Rightarrow> bool" where
  "feeds m \<longleftrightarrow> (\<forall>w s w'. m w = (Inr (Again s), w') \<longrightarrow> length (w_kernel w') < length (w_kernel w))"

lemma feeds_hungry: "hungry m \<Longrightarrow> feeds m"
  unfolding feeds_def by (blast dest: hungryD)

lemma feeds_exit: "well_behaved m \<Longrightarrow> feeds (op_then m (\<lambda>_. return_op (Exit x)))"
  unfolding feeds_def by (auto simp: op_then_def return_op_def split: prod.splits sum.splits)

lemma feeds_then:
  assumes "well_behaved m" and "\<And>x. feeds (f x)"
  shows "feeds (op_then m f)"
  unfolding feeds_def
proof (intro allI impI)
  fix w s w' assume "op_then m f w = (Inr (Again s), w')"
  then obtain x v where "m w = (Inr x, v)" "f x v = (Inr (Again s), w')" by (rule op_then_InrE)
  then have "length (w_kernel v) \<le> length (w_kernel w)" "length (w_kernel w') < length (w_kernel v)"
    using assms follows_shorter well_behavedD unfolding feeds_def by blast+
  then show "length (w_kernel w') < length (w_kernel w)" by simp
qed

lemma feeds_send: "feeds (send_slot config protocol record_from ow due free_at fd)"
  unfolding send_slot_def
  by (intro feeds_then [OF well_behaved_sleep_until] feeds_then [OF well_behaved_clock]
      feeds_hungry hungry_first [OF hungry_perform]) (auto intro!: behaved)

lemma feeds_carry: "feeds (carry_slot config protocol schedule record_from deadline ow fd)"
  unfolding carry_slot_def split_beta
  by (intro feeds_then behaved) (simp add: feeds_exit feeds_send behaved)

lemma consumes_open: "consumes (open_turn config protocol addresses schedule record_from deadline)"
proof -
  have "feeds (open_turn config protocol addresses schedule record_from deadline st)" for st
    unfolding open_turn_def split_beta
    by (intro feeds_then behaved)
      (auto intro!: feeds_exit feeds_carry feeds_hungry [OF hungry_open_connect] behaved split: option.split)
  then show ?thesis unfolding feeds_def consumes_def by blast
qed

subsection \<open>The accounts of a worker\<close>

text \<open>The measured slots of a worker: the index, the lateness, the part of it spent waiting for the
  connection, and the latency if the outcome has one. The sample is right when there are two readings
  of the clock, when the worker came free and when it sent, from which its numbers follow.\<close>

type_synonym sample = "u64 \<times> nanos \<times> nanos \<times> nanos option"

definition sample_ok :: "clock \<Rightarrow> schedule \<Rightarrow> instant \<Rightarrow> sample \<Rightarrow> bool" where
  "sample_ok C schedule record_from x \<longleftrightarrow> (case x of (i, late, waited, latency) \<Rightarrow>
     \<exists>slot f s. slot_at schedule i = Inr slot \<and> record_from \<le> slot_due slot \<and> f \<le> s \<and>
       slot_due slot \<le> C s \<and> late = C s - slot_due slot \<and> waited = max 0 (C f - slot_due slot) \<and>
       (case latency of None \<Rightarrow> True | Some d \<Rightarrow> late \<le> d))"

definition lates :: "sample list \<Rightarrow> int multiset" where
  "lates S = mset (map (\<lambda>(i, late, waited, latency). late) S)"

definition waits :: "sample list \<Rightarrow> int multiset" where
  "waits S = mset (map (\<lambda>(i, late, waited, latency). waited) S)"

definition rigs :: "sample list \<Rightarrow> int multiset" where
  "rigs S = mset (map (\<lambda>(i, late, waited, latency). late - waited) S)"

definition reported_latencies :: "sample list \<Rightarrow> int multiset" where
  "reported_latencies S =
     mset (concat (map (\<lambda>(i, late, waited, latency). case latency of None \<Rightarrow> [] | Some d \<Rightarrow> [d]) S))"

lemma sample_sums [simp]:
  "lates [] = {#}" "waits [] = {#}" "rigs [] = {#}" "reported_latencies [] = {#}"
  "lates (S @ T) = lates S + lates T" "waits (S @ T) = waits S + waits T" "rigs (S @ T) = rigs S + rigs T"
  "reported_latencies (S @ T) = reported_latencies S + reported_latencies T"
  "lates [(i, late, waited, latency)] = {#late#}" "waits [(i, late, waited, latency)] = {#waited#}"
  "rigs [(i, late, waited, latency)] = {#late - waited#}"
  "reported_latencies [(i, late, waited, latency)] = (case latency of None \<Rightarrow> {#} | Some d \<Rightarrow> {#d#})"
  by (simp_all add: lates_def waits_def rigs_def reported_latencies_def split: option.split)

definition no_reply :: "error_counts \<Rightarrow> u64" where
  "no_reply e = e_write e + e_read e + e_protocol e"

text \<open>A claimed slot is measured when it is due from the start of the measurement on and before the deadline.\<close>

definition measured :: "schedule \<Rightarrow> instant \<Rightarrow> instant \<Rightarrow> u64 \<Rightarrow> bool" where
  "measured schedule record_from deadline i \<longleftrightarrow> (case slot_at schedule i of
     Inl e \<Rightarrow> False | Inr slot \<Rightarrow> record_from \<le> slot_due slot \<and> slot_due slot < deadline)"

definition open_ok ::
  "clock \<Rightarrow> schedule \<Rightarrow> instant \<Rightarrow> instant \<Rightarrow> u64 list \<Rightarrow> sample list \<Rightarrow> open_worker \<Rightarrow> bool" where
  "open_ok C schedule record_from deadline given S ow \<longleftrightarrow>
     (\<forall>x \<in> set S. sample_ok C schedule record_from x) \<and>
     ow_lag ow = hist_of (lates S) \<and> ow_connection_wait ow = hist_of (waits S) \<and>
     ow_rig_lag ow = hist_of (rigs S) \<and> ow_histogram ow = hist_of (reported_latencies S) \<and>
     ow_attempted ow = of_nat (length S) + e_connect (ow_errors ow) \<and>
     of_nat (length S) = of_nat (size (reported_latencies S)) + no_reply (ow_errors ow) \<and>
     (\<exists>used. given = used @ ow_tickets ow \<and> map fst S = filter (measured schedule record_from deadline) used)"

definition open_counted ::
  "clock \<Rightarrow> schedule \<Rightarrow> instant \<Rightarrow> instant \<Rightarrow> u64 list \<Rightarrow> open_worker \<Rightarrow> bool" where
  "open_counted C schedule record_from deadline given ow \<longleftrightarrow> (\<exists>S. open_ok C schedule record_from deadline given S ow)"

lemma open_counted_new: "open_counted C schedule record_from deadline given (new_open_worker given)"
  unfolding open_counted_def
  by (rule exI [of _ "[]"])
    (simp add: open_ok_def new_open_worker_def hist_of_empty no_reply_def no_errors_def)

lemma open_counted_opened:
  "open_counted C schedule record_from deadline given ow \<Longrightarrow>
    open_counted C schedule record_from deadline given (ow\<lparr>ow_opened := n\<rparr>)"
  by (simp add: open_counted_def open_ok_def)

lemma open_counted_connect_error:
  "open_counted C schedule record_from deadline given ow \<Longrightarrow> open_counted C schedule record_from deadline given
    (ow\<lparr>ow_attempted := ow_attempted ow + 1,
        ow_errors := (ow_errors ow)\<lparr>e_connect := e_connect (ow_errors ow) + 1\<rparr>\<rparr>)"
  by (auto simp: open_counted_def open_ok_def no_reply_def)

text \<open>A claim that is not measured.\<close>

lemma open_counted_claim:
  assumes "open_counted C schedule record_from deadline given ow" and "ow_tickets ow = i # rest"
    and "\<not> measured schedule record_from deadline i"
  shows "open_counted C schedule record_from deadline given (ow\<lparr>ow_tickets := rest\<rparr>)"
proof -
  from assms(1,2) obtain S used where S: "open_ok C schedule record_from deadline given S ow"
    and used: "given = used @ i # rest" "map fst S = filter (measured schedule record_from deadline) used"
    by (auto simp: open_counted_def open_ok_def)
  with assms(3) show ?thesis
    unfolding open_counted_def open_ok_def by (intro exI [of _ S]) (auto intro!: exI [of _ "used @ [i]"])
qed

text \<open>What the switch adds to the errors.\<close>

fun bump :: "outcome \<Rightarrow> error_counts \<Rightarrow> error_counts" where
  "bump Succeeded e = e"
| "bump Rejected e = e\<lparr>e_rejected := e_rejected e + 1\<rparr>"
| "bump Timed_Out e = e\<lparr>e_timeout := e_timeout e + 1\<rparr>"
| "bump Protocol_Error e = e\<lparr>e_protocol := e_protocol e + 1\<rparr>"
| "bump Read_Failed e = e\<lparr>e_read := e_read e + 1\<rparr>"
| "bump Write_Failed e = e\<lparr>e_write := e_write e + 1\<rparr>"

lemma bump_counts:
  "e_connect (bump out e) = e_connect e"
  "no_reply (bump out e) = no_reply e + (if reaches_histogram out then 0 else 1)"
  by (cases out; simp add: no_reply_def reaches_histogram_def)+

lemma count_from_due_eq:
  assumes "ow_histogram ow = hist_of M" and "0 \<le> d"
  shows "count_from_due ow out d = Inr (ow\<lparr>ow_errors := bump out (ow_errors ow),
    ow_histogram := hist_of (if reaches_histogram out then add_mset d M else M)\<rparr>)"
  using assms
  by (cases out; cases ow) (simp_all add: count_from_due_def reaches_histogram_def hist.rec_holding Let_def)

lemma account_slot_ok:
  assumes C: "clock_ok C" and S: "open_ok C schedule record_from deadline given S ow"
    and i: "ow_tickets ow = i # rest" "slot_at schedule i = Inr slot"
    and due: "0 \<le> record_from" "record_from \<le> slot_due slot" "slot_due slot \<le> C s" and "f \<le> s"
    and before: "slot_due slot < deadline" and x: "0 \<le> x_elapsed x" "x_elapsed x + C s < 2 ^ 63"
  shows "\<exists>ow'. account_slot (ow\<lparr>ow_tickets := rest\<rparr>) (slot_due slot) (C f) (C s) x = Inr ow' \<and>
    open_counted C schedule record_from deadline given ow'"
proof -
  let ?late = "C s - slot_due slot" and ?waited = "max 0 (C f - slot_due slot)"
  let ?latency = "if reaches_histogram (x_outcome x) then Some (?late + x_elapsed x) else None"
  let ?S = "S @ [(i, ?late, ?waited, ?latency)]"
  have cf: "C f \<le> C s" using assms(8) by (rule clock_ok_mono [OF C])
  have ok: "between (slot_due slot) (C s) = Inr ?late" "between (slot_due slot) (C f) = Inr (C f - slot_due slot)"
    "add_nanos ?late (x_elapsed x) = Inr (?late + x_elapsed x)" "max 0 ?late = ?late" "0 \<le> ?late"
    using due x clock_ok_range [OF C, of s] clock_ok_range [OF C, of f]
    by (auto simp: between_def add_nanos_def int64_ok_def)
  have rig: "0 \<le> ?late - ?waited" using cf due(3) by simp
  define ow1 where "ow1 = ow\<lparr>ow_tickets := rest, ow_attempted := ow_attempted ow + 1,
    ow_lag := hist_of (add_mset ?late (lates S)), ow_connection_wait := hist_of (add_mset ?waited (waits S)),
    ow_rig_lag := hist_of (add_mset (?late - ?waited) (rigs S))\<rparr>"
  have H: "ow_lag ow = hist_of (lates S)" "ow_connection_wait ow = hist_of (waits S)"
    "ow_rig_lag ow = hist_of (rigs S)"
    using S by (simp_all add: open_ok_def)
  have "account_slot (ow\<lparr>ow_tickets := rest\<rparr>) (slot_due slot) (C f) (C s) x =
      count_from_due ow1 (x_outcome x) (?late + x_elapsed x)"
    by (simp add: account_slot_def ow1_def Let_def ok H hist.rec_holding hist.rec_holding [OF ok(5)]
        hist.rec_holding [OF rig])
  moreover have "ow_histogram ow1 = hist_of (reported_latencies S)" "0 \<le> ?late + x_elapsed x"
    using S x(1) ok(5) by (simp_all add: ow1_def open_ok_def)
  ultimately have eq: "account_slot (ow\<lparr>ow_tickets := rest\<rparr>) (slot_due slot) (C f) (C s) x =
      Inr (ow1\<lparr>ow_errors := bump (x_outcome x) (ow_errors ow1),
        ow_histogram := hist_of (if reaches_histogram (x_outcome x) then add_mset (?late + x_elapsed x)
          (reported_latencies S) else reported_latencies S)\<rparr>)"
    by (simp only: count_from_due_eq)
  have new: "sample_ok C schedule record_from (i, ?late, ?waited, ?latency)"
    unfolding sample_ok_def prod.case
    by (intro exI [of _ slot] exI [of _ f] exI [of _ s]) (use i(2) due(2,3) assms(8) x(1) in simp)
  from S obtain used where used: "given = used @ i # rest" "map fst S = filter (measured schedule record_from deadline) used"
    using i(1) by (auto simp: open_ok_def)
  then have "map fst ?S = filter (measured schedule record_from deadline) (used @ [i])"
    using i(2) due(2) before by (simp add: measured_def)
  moreover have "of_nat (length S) = of_nat (size (reported_latencies S)) + no_reply (ow_errors ow)"
    "ow_attempted ow = of_nat (length S) + e_connect (ow_errors ow)"
    using S by (simp_all add: open_ok_def)
  ultimately have "open_ok C schedule record_from deadline given ?S (ow1\<lparr>ow_errors := bump (x_outcome x) (ow_errors ow1),
        ow_histogram := hist_of (if reaches_histogram (x_outcome x) then add_mset (?late + x_elapsed x)
          (reported_latencies S) else reported_latencies S)\<rparr>)"
    unfolding open_ok_def
    using S new used(1)
    by (intro conjI; simp add: ow1_def bump_counts open_ok_def ac_simps; blast)
  with eq show ?thesis unfolding open_counted_def by blast
qed

subsection \<open>One turn\<close>

text \<open>Every index the worker is given has a due time the types can hold.\<close>

definition schedule_fits :: "schedule \<Rightarrow> u64 list \<Rightarrow> bool" where
  "schedule_fits schedule given \<longleftrightarrow> (\<forall>i \<in> set given. \<exists>slot. slot_at schedule i = Inr slot)"

definition open_at ::
  "clock \<Rightarrow> schedule \<Rightarrow> instant \<Rightarrow> instant \<Rightarrow> u64 list \<Rightarrow> 'addr action list \<Rightarrow> nat \<Rightarrow> open_worker \<times> nat option
    \<Rightarrow> 'addr world \<Rightarrow> bool" where
  "open_at C schedule record_from deadline given L n st v \<longleftrightarrow> (case st of (ow, socket) \<Rightarrow>
     here C n L socket v \<and> open_counted C schedule record_from deadline given ow)"

text \<open>What a turn ends with.\<close>

definition open_post ::
  "clock \<Rightarrow> schedule \<Rightarrow> instant \<Rightarrow> instant \<Rightarrow> u64 list \<Rightarrow> 'addr action list
    \<Rightarrow> (open_worker \<times> nat option, open_worker) turn \<Rightarrow> 'addr world \<Rightarrow> bool" where
  "open_post C schedule record_from deadline given L t v \<longleftrightarrow>
     (case t of
        Again st \<Rightarrow> open_at C schedule record_from deadline given L 0 st v
      | Exit ow \<Rightarrow> here C 0 L None v \<and> open_counted C schedule record_from deadline given ow)"

abbreviation waits_forever :: "error \<Rightarrow> 'addr world \<Rightarrow> bool" where
  "waits_forever \<equiv> (\<lambda>e v. e = Blocked)"

lemma triple_claim:
  assumes "schedule_fits schedule given" and "open_counted C schedule record_from deadline given ow"
  shows "triple P (claim_slot schedule ow)
    (\<lambda>(slot, ow') v. P v \<and> (\<exists>i rest. ow_tickets ow = i # rest \<and> slot_at schedule i = Inr slot \<and>
      ow' = ow\<lparr>ow_tickets := rest\<rparr>)) waits_forever"
proof (cases "ow_tickets ow")
  case Nil
  then show ?thesis by (auto simp: claim_slot_def intro: triple_throw)
next
  case (Cons i rest)
  with assms(2) have "i \<in> set given" by (auto simp: open_counted_def open_ok_def)
  with assms(1) obtain slot where "slot_at schedule i = Inr slot" by (auto simp: schedule_fits_def)
  with Cons show ?thesis
    by (auto simp: claim_slot_def triple_def op_then_def lift_def return_op_def)
qed

lemma triple_sleep_until:
  "triple (here C n L socket) (sleep_until t)
    (\<lambda>_ v. here C n L socket v \<and> t \<le> C (w_reads v)) waits_forever"
  by (auto simp: triple_def sleep_until_def here_def)

lemma triple_read_late:
  assumes "\<And>k. n \<le> k \<Longrightarrow> t \<le> C k \<Longrightarrow> triple (here C (Suc k) L socket) (f (C k)) Q E"
  shows "triple (\<lambda>v. here C n L socket v \<and> t \<le> C (w_reads v)) (op_then read_clock f) Q E"
proof (rule tripleI, elim conjE)
  fix v r v' assume v: "here C n L socket v" "t \<le> C (w_reads v)" and run: "op_then read_clock f v = (r, v')"
  then have "f (C (w_reads v)) (v\<lparr>w_reads := Suc (w_reads v)\<rparr>) = (r, v')"
    by (simp add: op_then_def op_simps here_def)
  moreover from v have "here C (Suc (w_reads v)) L socket (v\<lparr>w_reads := Suc (w_reads v)\<rparr>)" "n \<le> w_reads v"
    by (auto simp: here_def)
  ultimately show "case r of Inl e \<Rightarrow> E e v' | Inr x \<Rightarrow> Q x v'"
    using tripleD [OF assms] v(2) by blast
qed

lemma triple_read:
  assumes "\<And>k. n \<le> k \<Longrightarrow> triple (here C (Suc k) L socket) (f (C k)) Q E"
  shows "triple (here C n L socket) (op_then read_clock f) Q E"
proof (rule tripleI)
  fix v r v' assume v: "here C n L socket v" and run: "op_then read_clock f v = (r, v')"
  then show "case r of Inl e \<Rightarrow> E e v' | Inr x \<Rightarrow> Q x v'"
    using tripleD [OF triple_read_late [of n "C (w_reads v)" C L socket f Q E, OF assms]] by blast
qed

lemma triple_perform_timed:
  assumes "clock_ok C" and "0 < room" and "protocol_ok protocol"
  shows "triple (here C (Suc k) L socket) (perform_request protocol room)
    (\<lambda>(x, received) v. here C (Suc k) L socket v \<and> 0 \<le> x_elapsed x \<and> x_elapsed x + C k < 2 ^ 63) waits_forever"
proof (rule tripleI)
  fix v r v' assume v: "here C (Suc k) L socket v" and run: "perform_request protocol room v = (r, v')"
  have Z: "C i < 2 ^ 63" for i using clock_ok_range [OF assms(1)] by blast
  have "C k \<le> C (Suc k)" by (rule clock_ok_mono [OF assms(1)]) simp
  with tripleD [OF triple_perform [OF assms] v run] tripleD [OF triple_perform_elapsed [OF assms(1) Z] v run]
  show "case r of Inl e \<Rightarrow> e = Blocked
    | Inr z \<Rightarrow> (case z of (x, received) \<Rightarrow> \<lambda>v. here C (Suc k) L socket v \<and> 0 \<le> x_elapsed x \<and>
        x_elapsed x + C k < 2 ^ 63) v'"
    by (auto simp: exchange_sound_def split: sum.splits)
qed

lemma triple_given:
  assumes "p \<Longrightarrow> triple P m Q E"
  shows "triple (\<lambda>v. P v \<and> p) m Q E"
  using assms unfolding triple_def by blast

lemma triple_end_of_turn:
  "triple (\<lambda>v. here C n L (Some fd) v \<and> open_counted C schedule record_from deadline given ow)
    (if x_usable x then return_op (Again (ow, Some fd))
     else op_then (log_action (Closed fd)) (\<lambda>_. return_op (Again (ow, None))))
    (open_post C schedule record_from deadline given L) waits_forever"
  by (rule triple_given)
    (auto intro!: triple_return triple_then [OF triple_close] simp: open_post_def open_at_def intro: here_later)

lemma triple_send:
  assumes C: "setup_ok C config protocol addresses" and from_0: "0 \<le> record_from"
    and ok: "open_counted C schedule record_from deadline given ow"
    and i: "ow_tickets ow = i # rest" "slot_at schedule i = Inr slot" and before: "slot_due slot < deadline"
  shows "triple (here C (Suc f) L (Some fd))
    (send_slot config protocol record_from (ow\<lparr>ow_tickets := rest\<rparr>) (slot_due slot) (C f) fd)
    (open_post C schedule record_from deadline given L) waits_forever"
proof -
  let ?due = "slot_due slot" and ?ow = "ow\<lparr>ow_tickets := rest\<rparr>"
  from C have c: "clock_ok C" "0 < wc_read_buffer_bytes config" "protocol_ok protocol"
    by (auto simp: setup_ok_def timeout_fits_def)
  have account: "\<exists>ow'. (if record_from \<le> ?due then account_slot ?ow ?due (C f) (C s) x else Inr ?ow) = Inr ow' \<and>
      open_counted C schedule record_from deadline given ow'"
    if "f \<le> s" "?due \<le> C s" "0 \<le> x_elapsed x" "x_elapsed x + C s < 2 ^ 63" for s x
  proof (cases "record_from \<le> ?due")
    case True
    from ok obtain S where "open_ok C schedule record_from deadline given S ow" by (auto simp: open_counted_def)
    from account_slot_ok [OF c(1) this i from_0 True that(2,1) before that(3,4)] True show ?thesis by simp
  qed (use open_counted_claim [OF ok i(1)] i(2) in \<open>simp add: measured_def\<close>)
  have "triple (here C (Suc s) L (Some fd))
      (op_then (perform_request protocol (wc_read_buffer_bytes config)) (\<lambda>(x, received).
       op_then (lift (if record_from \<le> ?due then account_slot ?ow ?due (C f) (C s) x else Inr ?ow)) (\<lambda>ow.
         if x_usable x then return_op (Again (ow, Some fd))
         else op_then (log_action (Closed fd)) (\<lambda>_. return_op (Again (ow, None))))))
      (open_post C schedule record_from deadline given L) waits_forever" if s: "Suc f \<le> s \<and> ?due \<le> C s" for s
  proof (rule triple_then [OF triple_perform_timed [OF c]], clarify)
    fix x received
    show "triple (\<lambda>v. here C (Suc s) L (Some fd) v \<and> 0 \<le> x_elapsed x \<and> x_elapsed x + C s < 2 ^ 63)
      (op_then (lift (if record_from \<le> ?due then account_slot ?ow ?due (C f) (C s) x else Inr ?ow)) (\<lambda>ow.
         if x_usable x then return_op (Again (ow, Some fd))
         else op_then (log_action (Closed fd)) (\<lambda>_. return_op (Again (ow, None)))))
      (open_post C schedule record_from deadline given L) waits_forever"
      by (rule triple_then [OF triple_lift triple_end_of_turn [of C "Suc s"]])
        (use account [of s x] s in auto)
  qed
  then show ?thesis unfolding send_slot_def
    by (intro triple_then [OF triple_sleep_until] triple_read_late) simp
qed

lemma triple_carry:
  assumes C: "setup_ok C config protocol addresses" and fits: "schedule_fits schedule given"
    and from_0: "0 \<le> record_from" and ok: "open_counted C schedule record_from deadline given ow"
  shows "triple (here C n L (Some fd)) (carry_slot config protocol schedule record_from deadline ow fd)
    (open_post C schedule record_from deadline given L) waits_forever"
proof -
  have claimed: "triple (\<lambda>v. here C (Suc f) L (Some fd) v \<and> (\<exists>i rest. ow_tickets ow = i # rest \<and>
        slot_at schedule i = Inr slot \<and> ow1 = ow\<lparr>ow_tickets := rest\<rparr>))
      (if deadline \<le> slot_due slot then op_then (drop_socket (Some fd)) (\<lambda>_. return_op (Exit ow1))
       else send_slot config protocol record_from ow1 (slot_due slot) (C f) fd)
      (open_post C schedule record_from deadline given L) waits_forever" for f slot ow1
  proof (rule triple_given, elim exE conjE)
    fix i rest assume i: "ow_tickets ow = i # rest" "slot_at schedule i = Inr slot"
      and ow1: "ow1 = ow\<lparr>ow_tickets := rest\<rparr>"
    have "triple (here C (Suc f) L (Some fd)) (op_then (drop_socket (Some fd)) (\<lambda>_. return_op (Exit ow1)))
        (open_post C schedule record_from deadline given L) waits_forever" if "deadline \<le> slot_due slot"
      using open_counted_claim [OF ok i(1)] i(2) that
      by (auto simp: drop_socket_def ow1 open_post_def measured_def intro!: triple_then [OF triple_close] triple_return
          intro: here_later)
    then show "triple (here C (Suc f) L (Some fd))
        (if deadline \<le> slot_due slot then op_then (drop_socket (Some fd)) (\<lambda>_. return_op (Exit ow1))
         else send_slot config protocol record_from ow1 (slot_due slot) (C f) fd)
        (open_post C schedule record_from deadline given L) waits_forever"
      by (simp add: ow1 triple_send [OF C from_0 ok i] not_le)
  qed
  show ?thesis unfolding carry_slot_def
  proof (rule triple_read, rule triple_then [OF triple_claim [OF fits ok]])
    fix k and z :: "slot \<times> open_worker"
    obtain slot ow1 where z: "z = (slot, ow1)" by fastforce
    show "triple ((case z of (slot, ow') \<Rightarrow> \<lambda>v. here C (Suc k) L (Some fd) v \<and> (\<exists>i rest. ow_tickets ow = i # rest \<and>
        slot_at schedule i = Inr slot \<and> ow' = ow\<lparr>ow_tickets := rest\<rparr>)))
      ((case z of (slot, ow) \<Rightarrow>
        if deadline \<le> slot_due slot then op_then (drop_socket (Some fd)) (\<lambda>_. return_op (Exit ow))
        else send_slot config protocol record_from ow (slot_due slot) (C k) fd))
      (open_post C schedule record_from deadline given L) waits_forever"
      using claimed by (simp add: z)
  qed
qed

lemma triple_open_connect_failed:
  assumes "open_counted C schedule record_from deadline given ow"
  shows "triple (here C n L socket) (open_connect_failed config record_from ow socket)
    (open_post C schedule record_from deadline given L) waits_forever"
  unfolding open_connect_failed_def
  by (intro triple_read triple_then [OF triple_log_here] triple_return)
    (use assms open_counted_connect_error in \<open>auto simp: open_post_def open_at_def intro: here_later\<close>)

lemma triple_open_connect_first:
  assumes C: "setup_ok C config protocol addresses" and fits: "schedule_fits schedule given"
    and from_0: "0 \<le> record_from" and ok: "open_counted C schedule record_from deadline given ow"
  shows "triple (here C n L None)
    (open_connect_first config protocol addresses schedule record_from deadline ow)
    (open_post C schedule record_from deadline given L) waits_forever"
proof -
  have connect: "timeout_fits C (wc_connect_timeout config)" "addresses \<noteq> []"
    using C by (auto simp: setup_ok_def)
  note carry = triple_carry [OF C fits from_0 open_counted_opened [OF ok]]
  note failed = triple_open_connect_failed [OF ok]
  have "triple (here C n L (Some fd))
      (op_then (attempt_io (set_timeouts (wc_read_timeout config) (wc_write_timeout config)))
         (\<lambda>s. case s of
             Inl e \<Rightarrow> open_connect_failed config record_from ow (Some fd)
           | Inr _ \<Rightarrow> carry_slot config protocol schedule record_from deadline
               (ow\<lparr>ow_opened := ow_opened ow + 1\<rparr>) fd))
      (open_post C schedule record_from deadline given L) waits_forever" for fd
    by (rule triple_then [OF triple_set_timeouts]) (use carry failed in \<open>auto split: sum.split\<close>)
  with failed show ?thesis
    unfolding open_connect_first_def
    by (intro triple_then [OF triple_connect_any [OF connect]]) (auto split: sum.split)
qed

lemma triple_open_turn:
  assumes C: "setup_ok C config protocol addresses" and fits: "schedule_fits schedule given"
    and from_0: "0 \<le> record_from"
  shows "triple (open_at C schedule record_from deadline given L 0 st)
    (open_turn config protocol addresses schedule record_from deadline st)
    (open_post C schedule record_from deadline given L) waits_forever"
proof (cases "open_counted C schedule record_from deadline given (fst st)")
  case False
  then show ?thesis by (simp add: open_at_def triple_def split_beta)
next
  case ok: True
  obtain ow socket where st: "st = (ow, socket)" by fastforce
  have stop: "triple (here C (Suc k) L socket) (op_then (drop_socket socket) (\<lambda>_. return_op (Exit ow)))
      (open_post C schedule record_from deadline given L) waits_forever" for k
  proof (rule triple_then [where R = "\<lambda>_. here C (Suc k) L None"])
    show "triple (here C (Suc k) L socket) (drop_socket socket) (\<lambda>_. here C (Suc k) L None) waits_forever"
      by (cases socket) (auto simp: drop_socket_def intro: triple_close triple_return)
  qed (use ok in \<open>auto simp: st open_post_def intro!: triple_return intro: here_later\<close>)
  have "triple (here C (Suc k) L socket) (case socket of
        Some fd \<Rightarrow> carry_slot config protocol schedule record_from deadline ow fd
      | None \<Rightarrow> open_connect_first config protocol addresses schedule record_from deadline ow)
      (open_post C schedule record_from deadline given L) waits_forever" for k
    using ok by (cases socket)
      (simp_all add: st triple_carry [OF C fits from_0] triple_open_connect_first [OF C fits from_0])
  with stop have "triple (here C 0 L socket) (open_turn config protocol addresses schedule record_from deadline st)
      (open_post C schedule record_from deadline given L) waits_forever"
    unfolding st open_turn_def prod.case by (intro triple_read) simp
  moreover have "open_at C schedule record_from deadline given L 0 st = here C 0 L socket"
    using ok by (simp add: st open_at_def fun_eq_iff)
  ultimately show ?thesis by simp
qed

lemma triple_open_run:
  assumes "setup_ok C config protocol addresses" and "schedule_fits schedule given"
    and "0 \<le> record_from" and "open_counted C schedule record_from deadline given ow"
  shows "triple (here C 0 L None) (open_worker_run config protocol addresses schedule record_from deadline ow)
    (\<lambda>ow' v. here C 0 L None v \<and> open_counted C schedule record_from deadline given ow') waits_forever"
  unfolding open_worker_run_def
proof (rule triple_weaken [OF triple_iterate [where I = "open_at C schedule record_from deadline given L 0", OF consumes_open]])
  show "triple (open_at C schedule record_from deadline given L 0 st)
      (open_turn config protocol addresses schedule record_from deadline st)
      (\<lambda>t. case t of Again st' \<Rightarrow> open_at C schedule record_from deadline given L 0 st'
        | Exit ow \<Rightarrow> (\<lambda>v. here C 0 L None v \<and> open_counted C schedule record_from deadline given ow)) waits_forever" for st
    by (rule triple_weaken [OF triple_open_turn [OF assms(1-3)]]) (auto simp: open_post_def split: turn.splits)
qed (use assms(4) in \<open>auto simp: open_at_def\<close>)

subsection \<open>Merging the workers\<close>

definition merged_ok :: "sample list \<Rightarrow> merged \<Rightarrow> bool" where
  "merged_ok S m \<longleftrightarrow>
     m_lag m = hist_of (lates S) \<and> m_wait m = hist_of (waits S) \<and> m_rig m = hist_of (rigs S) \<and>
     m_histogram m = hist_of (reported_latencies S) \<and>
     m_attempted m = of_nat (length S) + e_connect (m_errors m) \<and>
     of_nat (length S) = of_nat (size (reported_latencies S)) + no_reply (m_errors m)"

lemma no_reply_merge: "no_reply (errors_merge a b) = no_reply a + no_reply b"
  by (simp add: no_reply_def errors_merge_def ac_simps)

lemma merged_ok_step:
  assumes "merged_ok S m" and "open_ok C schedule record_from deadline given T ow"
  shows "merged_ok (S @ T) (merge_open_worker m ow)"
proof -
  have "of_nat (length (S @ T)) = (of_nat (length S) + of_nat (length T) :: u64)" by simp
  then show ?thesis
    using assms
    by (simp add: merged_ok_def open_ok_def merge_open_worker_def hist_merge_hist_of no_reply_merge)
      (simp add: errors_merge_def)
qed

lemma merged_ok_fold:
  assumes "list_all2 (\<lambda>T ow. \<exists>C given. open_ok C schedule record_from deadline given T ow) Ts workers"
    and "merged_ok S m"
  shows "merged_ok (S @ concat Ts) (foldl merge_open_worker m workers)"
  using assms
proof (induction arbitrary: S m rule: list_all2_induct)
  case (Cons T Ts ow workers)
  then obtain C given where "open_ok C schedule record_from deadline given T ow" by blast
  from Cons.IH [OF merged_ok_step [OF Cons.prems this]] show ?case by simp
qed simp

lemma merged_ok_nothing: "merged_ok [] nothing_merged"
  by (simp add: merged_ok_def nothing_merged_def hist_of_empty no_reply_def no_errors_def)

lemma merged_untimed:
  "merged_ok S m \<Longrightarrow> m_attempted m = h_count (m_histogram m) + untimed_errors (m_errors m)"
  by (simp add: merged_ok_def hist.total_holding untimed_errors_def no_reply_def)

subsection \<open>No slot is carried twice\<close>

lemma tickets_disjoint:
  assumes "length claims \<le> 2 ^ 64"
  shows "distinct (tickets claims i)" and "i \<noteq> j \<Longrightarrow> set (tickets claims i) \<inter> set (tickets claims j) = {}"
proof -
  have eq: "m = n" if "(of_nat m :: u64) = of_nat n" "m < length claims" "n < length claims" for m n
  proof -
    have "unat (of_nat m :: u64) = m" "unat (of_nat n :: u64) = n"
      using that(2,3) assms by (simp_all add: unat_u64_of_nat)
    with that(1) show ?thesis by metis
  qed
  then show "distinct (tickets claims i)"
    by (auto simp: tickets_def distinct_map inj_on_def)
  show "set (tickets claims i) \<inter> set (tickets claims j) = {}" if "i \<noteq> j"
    using eq that by (auto simp: tickets_def)
qed

lemma distinct_concat_nth:
  assumes "\<And>i. i < length xss \<Longrightarrow> distinct (xss ! i)"
    and "\<And>i j. i < j \<Longrightarrow> j < length xss \<Longrightarrow> set (xss ! i) \<inter> set (xss ! j) = {}"
  shows "distinct (concat xss)"
  using assms
proof (induction xss rule: rev_induct)
  case (snoc xs xss)
  have "distinct (concat xss)"
  proof (rule snoc.IH)
    show "distinct (xss ! i)" if "i < length xss" for i
      using snoc.prems(1) [of i] that by (simp add: nth_append)
    show "set (xss ! i) \<inter> set (xss ! j) = {}" if "i < j" "j < length xss" for i j
      using snoc.prems(2) [of i j] that by (simp add: nth_append)
  qed
  moreover have "distinct xs" using snoc.prems(1) [of "length xss"] by simp
  moreover have "set (concat xss) \<inter> set xs = {}"
  proof -
    have "set (xss ! i) \<inter> set xs = {}" if "i < length xss" for i
      using snoc.prems(2) [of i "length xss"] that by (simp add: nth_append)
    then have "set ys \<inter> set xs = {}" if "ys \<in> set xss" for ys
      using that by (metis in_set_conv_nth)
    then show ?thesis by auto
  qed
  ultimately show ?case by simp
qed simp

text \<open>The indices that the claims of the threads returned: of each thread, the tickets that it has used.\<close>

definition got :: "nat list \<Rightarrow> open_worker list \<Rightarrow> u64 set" where
  "got claims workers = (\<Union>j < length workers. set (tickets claims j) - set (ow_tickets (workers ! j)))"

lemma open_drive_workers:
  assumes threads: "\<forall>w \<in> set threads. setup_ok (w_clock w) config protocol addresses"
    and fits: "\<forall>n < length claims. \<exists>slot. slot_at schedule (of_nat n) = Inr slot" and "0 \<le> record_from"
    and small: "length claims \<le> 2 ^ 64"
    and drive: "open_drive config protocol addresses schedule record_from deadline claims threads = Inr workers"
  shows "\<exists>Ts. list_all2 (\<lambda>T ow. \<exists>C given. open_ok C schedule record_from deadline given T ow) Ts workers \<and>
    distinct (map fst (concat Ts)) \<and> length (concat Ts) \<le> length claims \<and>
    (\<forall>x \<in> set (concat Ts). \<exists>w \<in> set threads. sample_ok (w_clock w) schedule record_from x) \<and>
    set (map fst (concat Ts)) = {i \<in> got claims workers. measured schedule record_from deadline i}"
proof -
  let ?run = "\<lambda>i w. open_worker_run config protocol addresses schedule record_from deadline
    (new_open_worker (tickets claims i)) w"
  have rs: "map (\<lambda>(i, w). fst (?run i w)) (enumerate 0 threads) = map Inr workers"
    using drive by (simp add: open_drive_def join_all_Inr)
  from arg_cong [OF this, of length] have len: "length workers = length threads" by simp
  have each: "\<exists>T. open_ok (w_clock (threads ! i)) schedule record_from deadline (tickets claims i) T (workers ! i)"
    if i: "i < length threads" for i
  proof -
    let ?w = "threads ! i"
    from i have C: "setup_ok (w_clock ?w) config protocol addresses" using threads by simp
    from arg_cong [OF rs, of "\<lambda>l. l ! i"] i len have "fst (?run i ?w) = Inr (workers ! i)"
      by (simp add: nth_enumerate_eq)
    then obtain v where run: "?run i ?w = (Inr (workers ! i), v)" by (metis prod.collapse)
    have "schedule_fits schedule (tickets claims i)"
      using fits by (auto simp: schedule_fits_def tickets_def)
    moreover have "here (w_clock ?w) 0 (w_log ?w) None ?w" by (simp add: here_def)
    ultimately show ?thesis
      using tripleD [OF triple_open_run [OF C _ assms(3) open_counted_new] _ run] by (auto simp: open_counted_def)
  qed
  then obtain T where T: "\<And>i. i < length threads \<Longrightarrow>
      open_ok (w_clock (threads ! i)) schedule record_from deadline (tickets claims i) (T i) (workers ! i)" by metis
  let ?Ts = "map T [0..<length threads]"
  have "list_all2 (\<lambda>T ow. \<exists>C given. open_ok C schedule record_from deadline given T ow) ?Ts workers"
    using T len by (auto simp: list_all2_conv_all_nth)
  moreover have fst_T: "set (map fst (T i)) = {n \<in> set (tickets claims i) - set (ow_tickets (workers ! i)).
        measured schedule record_from deadline n}"
    and sub: "set (map fst (T i)) \<subseteq> set (tickets claims i)" "distinct (map fst (T i))" if "i < length threads" for i
  proof -
    from T [OF that] obtain used where u: "tickets claims i = used @ ow_tickets (workers ! i)"
      "map fst (T i) = filter (measured schedule record_from deadline) used"
      by (auto simp: open_ok_def)
    have d: "distinct used" "set used \<inter> set (ow_tickets (workers ! i)) = {}"
      using tickets_disjoint(1) [OF small, of i] unfolding u(1) by simp_all
    then show "set (map fst (T i)) = {n \<in> set (tickets claims i) - set (ow_tickets (workers ! i)).
        measured schedule record_from deadline n}"
      unfolding u set_append set_filter by blast
    then show "set (map fst (T i)) \<subseteq> set (tickets claims i)" by blast
    show "distinct (map fst (T i))" unfolding u(2) using d(1) by simp
  qed
  have "distinct (concat (map (map fst) ?Ts))"
  proof (rule distinct_concat_nth)
    fix i assume "i < length (map (map fst) ?Ts)"
    then show "distinct (map (map fst) ?Ts ! i)" using sub(2) [of i] by simp
  next
    fix i j assume "i < j" "j < length (map (map fst) ?Ts)"
    then have "map (map fst) ?Ts ! i = map fst (T i)" "map (map fst) ?Ts ! j = map fst (T j)"
      "i < length threads" "j < length threads" "i \<noteq> j" by simp_all
    then show "set (map (map fst) ?Ts ! i) \<inter> set (map (map fst) ?Ts ! j) = {}"
      using sub(1) [of i] sub(1) [of j] tickets_disjoint(2) [OF small, of i j] by (simp del: set_map) blast
  qed
  then have d: "distinct (map fst (concat ?Ts))" by (simp add: map_concat)
  moreover have "length (concat ?Ts) \<le> length claims"
  proof -
    have "set (tickets claims i) \<subseteq> of_nat ` {..<length claims}" for i by (auto simp: tickets_def)
    then have "set (map fst (concat ?Ts)) \<subseteq> of_nat ` {..<length claims}" using sub(1) by fastforce
    then have "card (set (map fst (concat ?Ts))) \<le> card (of_nat ` {..<length claims} :: u64 set)"
      by (intro card_mono) simp_all
    also have "\<dots> \<le> length claims" using card_image_le [of "{..<length claims}"] by simp
    finally show ?thesis using distinct_card [OF d] by (simp del: map_concat)
  qed
  moreover have "\<exists>w \<in> set threads. sample_ok (w_clock w) schedule record_from x" if "x \<in> set (concat ?Ts)" for x
  proof -
    from that obtain i where i: "i < length threads" "x \<in> set (T i)" by auto
    with T [OF i(1)] show ?thesis by (intro bexI [of _ "threads ! i"]) (auto simp: open_ok_def)
  qed
  moreover have "set (map fst (concat ?Ts)) = (\<Union>i < length threads. set (map fst (T i)))"
    by (simp add: image_UN atLeast0LessThan)
  then have "set (map fst (concat ?Ts)) = {i \<in> got claims workers. measured schedule record_from deadline i}"
    using fst_T by (auto simp: got_def len simp del: set_map)
  ultimately show ?thesis by blast
qed

subsection \<open>Properties\<close>

lemma open_loop_accounts:
  assumes "resolve (op_target plan) = Inr addresses" and "clock_ok (os_clock env)" and "0 \<le> op_warmup plan"
    and threads: "\<forall>w \<in> set (os_threads env). setup_ok (w_clock w) (op_worker plan) protocol addresses"
    and from_def: "add_millis (os_clock env 0) (op_warmup plan) = Inr record_from"
    and "schedule = new_schedule (op_rate plan) record_from"
    and fits: "\<forall>n < length (os_claims env). \<exists>slot. slot_at schedule (of_nat n) = Inr slot"
    and small: "length (os_claims env) \<le> 2 ^ 64"
    and run: "run_open_loop resolve protocol plan env = Inr run"
  shows "consistent (ol_result run) \<and> ol_started run \<le> ol_requested run \<and>
    ol_slots_claimed run = of_nat (length (os_claims env)) \<and>
    (\<exists>S. distinct (map fst S) \<and> length S \<le> length (os_claims env) \<and> 0 \<le> record_from \<and>
      ol_rate run = op_rate plan \<and>
      (\<exists>deadline workers. add_millis record_from (op_duration plan) = Inr deadline \<and>
        open_drive (op_worker plan) protocol addresses schedule record_from deadline (os_claims env)
          (spawn (op_connections plan) (os_threads env)) = Inr workers \<and>
        set (map fst S) = {i \<in> got (os_claims env) workers. measured schedule record_from deadline i}) \<and>
      r_attempted (ol_result run) = of_nat (length S) + e_connect (r_errors (ol_result run)) \<and>
      of_nat (length S) = of_nat (size (reported_latencies S)) + no_reply (r_errors (ol_result run)) \<and>
      (\<forall>x \<in> set S. \<exists>w \<in> set (os_threads env). sample_ok (w_clock w) schedule record_from x) \<and>
      ol_schedule_lag run = hist_of (lates S) \<and> ol_connection_wait run = hist_of (waits S) \<and>
      ol_rig_lag run = hist_of (rigs S) \<and> ol_histogram run = hist_of (reported_latencies S))"
proof -
  let ?threads = "spawn (op_connections plan) (os_threads env)"
  have ready: "\<forall>w \<in> set ?threads. setup_ok (w_clock w) (op_worker plan) protocol addresses"
    using threads set_spawn [of "op_connections plan" "os_threads env"] by auto
  have from_0: "0 \<le> record_from"
    using assms(3,5) clock_ok_range [OF assms(2), of 0]
    by (auto simp: add_millis_def and_then_Inr_iff nanos_of_millis_def add_nanos_def split: if_splits)
  from run obtain deadline workers duration latency due resolution where
    deadline: "add_millis record_from (op_duration plan) = Inr deadline" and R:
    "open_drive (op_worker plan) protocol addresses schedule record_from deadline (os_claims env) ?threads = Inr workers"
    "summary_of (m_histogram (foldl merge_open_worker nothing_merged workers)) duration = Inr latency"
    "run = (let m = foldl merge_open_worker nothing_merged workers in
      \<lparr>ol_result = \<lparr>r_attempted = m_attempted m, r_errors = m_errors m, r_latency = latency,
              r_duration = duration\<rparr>,
            ol_histogram = m_histogram m, ol_requested = op_connections plan,
            ol_started = length ?threads, ol_opened = m_opened m, ol_resolution = resolution,
            ol_schedule_lag = m_lag m, ol_connection_wait = m_wait m, ol_rig_lag = m_rig m,
            ol_slots_claimed = claimed (snd (claim_all schedule (os_claims env))),
            ol_slots_due = due, ol_rate = op_rate plan\<rparr>)"
    unfolding run_open_loop_def Let_def assms(1,6) from_def
    by (auto simp: and_then_Inr_iff)
  from open_drive_workers [OF ready fits from_0 small R(1)] obtain Ts where Ts:
    "list_all2 (\<lambda>T ow. \<exists>C given. open_ok C schedule record_from deadline given T ow) Ts workers"
    "distinct (map fst (concat Ts))" "length (concat Ts) \<le> length (os_claims env)"
    "\<forall>x \<in> set (concat Ts). \<exists>w \<in> set ?threads. sample_ok (w_clock w) schedule record_from x"
    "set (map fst (concat Ts)) = {i \<in> got (os_claims env) workers. measured schedule record_from deadline i}" by blast
  define m where "m = foldl merge_open_worker nothing_merged workers"
  have m: "merged_ok (concat Ts) m"
    using merged_ok_fold [OF Ts(1) merged_ok_nothing] by (simp add: m_def)
  have "consistent (ol_result run)"
    using R(2,3) merged_untimed [OF m] timed_of_summary [OF R(2), of "ol_result run"]
    by (simp add: consistent_def untimed_eq m_def [symmetric] Let_def)
  moreover have "ol_slots_claimed run = of_nat (length (os_claims env))"
    using R(3) by (simp add: Let_def claim_all_eq claimed_def assms(6) new_schedule_def)
  moreover have "\<forall>x \<in> set (concat Ts). \<exists>w \<in> set (os_threads env). sample_ok (w_clock w) schedule record_from x"
    using Ts(4) set_spawn [of "op_connections plan" "os_threads env"] by blast
  moreover have "ol_schedule_lag run = hist_of (lates (concat Ts))" "ol_connection_wait run = hist_of (waits (concat Ts))"
    "ol_rig_lag run = hist_of (rigs (concat Ts))" "ol_histogram run = hist_of (reported_latencies (concat Ts))"
    "r_attempted (ol_result run) = of_nat (length (concat Ts)) + e_connect (r_errors (ol_result run))"
    "of_nat (length (concat Ts)) = of_nat (size (reported_latencies (concat Ts))) + no_reply (r_errors (ol_result run))"
    using m R(3) by (simp_all add: merged_ok_def m_def [symmetric] Let_def)
  moreover have "ol_started run \<le> ol_requested run"
    using R(3) length_spawn by (simp add: Let_def)
  moreover have "ol_rate run = op_rate plan" using R(3) by (simp add: Let_def)
  moreover note Ts(2,3,5) from_0 deadline R(1)
  ultimately show ?thesis by blast
qed

text \<open>The numbers of a sample fit the histograms, and the two parts of a lateness lie within it.\<close>

lemma sample_range:
  assumes "sample_ok C schedule record_from (i, late, waited, latency)" and "clock_ok C" and "0 \<le> record_from"
  shows "0 \<le> waited" and "waited \<le> late" and "late < 2 ^ 63"
proof -
  from assms(1) obtain slot :: slot and f t where "record_from \<le> slot_due slot" "f \<le> t" "slot_due slot \<le> C t"
    "late = C t - slot_due slot" "waited = max 0 (C f - slot_due slot)"
    unfolding sample_ok_def prod.case by blast
  moreover from this have "C f \<le> C t" "C t < 2 ^ 63"
    using clock_ok_mono [OF assms(2)] clock_ok_range [OF assms(2)] by auto
  ultimately show "0 \<le> waited" "waited \<le> late" "late < 2 ^ 63" using assms(3) by auto
qed


text \<open>A run of two connections, of which the system can start one, at 7 requests per second.\<close>

definition echo_open_plan :: open_plan where
  "echo_open_plan = \<lparr>op_target = \<lparr>ep_host = ''127.0.0.1'', ep_port = 8080\<rparr>, op_rate = \<lparr>rps = Fin 7\<rparr>,
     op_connections = 2, op_duration = 1, op_warmup = 0, op_worker = default_worker_config\<rparr>"

definition echo_open_setting :: "'addr open_setting" where
  "echo_open_setting = \<lparr>os_threads = [brisk_world echo_script], os_clock = brisk_clock, os_claims = [0]\<rparr>"

definition seven :: schedule where
  "seven = new_schedule \<lparr>rps = Fin 7\<rparr> 0"

lemma seven_slot: "slot_at seven 0 = Inr \<lparr>slot_index = 0, slot_due = 0\<rparr>"
  by (simp add: slot_at_def seven_def new_schedule_def add_nanos_def int64_okI due_at_7_0)

definition echo_open_worker :: open_worker where
  "echo_open_worker = \<lparr>ow_tickets = [], ow_histogram = hist_of {#1500000#}, ow_lag = hist_of {#1000000#},
     ow_connection_wait = hist_of {#500000#}, ow_rig_lag = hist_of {#500000#}, ow_errors = no_errors,
     ow_attempted = 1, ow_opened = 1\<rparr>"

lemmas open_run_simps = open_worker_run_def open_turn_def open_connect_first_def carry_slot_def send_slot_def
  claim_slot_def sleep_until_def account_slot_def count_from_due_def new_open_worker_def add_nanos_def

lemma brisk_clock_more: "brisk_clock (Suc (Suc (Suc (Suc (Suc 0))))) = 2500000"
  by (simp add: brisk_clock_def)

lemma brisk_open_run:
  "fst (open_worker_run default_worker_config (raw_echo ''ab'') [a] seven 0 1000000 (new_open_worker [0])
      (brisk_world echo_script)) = Inr echo_open_worker"
  by (simp add: run_simps open_run_simps accepted_def echo_script_def brisk_world_def echo_open_worker_def
      hist_of_empty [symmetric] hist.rec_holding seven_slot brisk_clock_more)

lemma echo_slots_due: "slots_due \<lparr>rps = Fin 7\<rparr> 1 = Inr 0"
proof -
  have "0 \<le> rnd (7 / 1000)" "rnd (7 / 1000) \<le> 1 / 2"
    using rnd_upper [of "7 / 1000" "1 / 2"] rnd_powi [of "- 1"] by (simp_all add: power_int_def)
  moreover from this have "\<lfloor>rnd (7 / 1000)\<rfloor> = 0" by (simp add: floor_eq_iff)
  ultimately have "trunc (rnd (7 / 1000)) = 0" by (simp add: trunc_def not_less [symmetric])
  moreover have "to_double (7 / 1000) = Fin (rnd (7 / 1000))" by (rule to_double_Fin) simp
  moreover have "to_double 7 = Fin 7" "to_double 1 = Fin 1"
    using to_double_Fin [of 7] rnd_of_int [of 7] to_double_Fin [of 1] rnd_of_int [of 1] by simp_all
  ultimately show ?thesis
    by (simp add: slots_due_def d_of_i64_def)
qed

lemma echo_open_drive:
  "open_drive default_worker_config (raw_echo ''ab'') [a] seven 0 1000000 [0] [brisk_world echo_script] =
    Inr [echo_open_worker]"
proof -
  have "tickets [0] 0 = [0]" by (simp add: tickets_def)
  then show ?thesis by (simp add: open_drive_def brisk_open_run)
qed

lemma echo_open_loop:
  "\<exists>run. run_open_loop (\<lambda>_. Inr [a]) (raw_echo ''ab'') echo_open_plan echo_open_setting = Inr run"
proof -
  obtain d i where d: "measured_resolution brisk_clock 1 = Inr (d, i)" using brisk_resolution by blast
  obtain l where l: "summary_of (hist_of {#1500000#}) 1000000 = Inr l"
    using summary_of_hist_of [of "{#1500000#}" 1000000] by auto
  have m: "m_histogram (merge_open_worker nothing_merged echo_open_worker) = hist_of {#1500000#}"
    using hist_merge_hist_of [of "{#}" "{#1500000#}"]
    by (simp add: merge_open_worker_def nothing_merged_def echo_open_worker_def hist_of_empty [symmetric])
  show ?thesis
    using d l m echo_slots_due
    by (simp add: echo_open_drive run_open_loop_def echo_open_plan_def echo_open_setting_def add_millis_def nanos_of_millis_def
        add_nanos_def int64_ok_def seven_def [symmetric] numeral_2_eq_2 Let_def)
qed

lemma echo_open_hypotheses:
  "clock_ok (os_clock echo_open_setting)" "0 \<le> op_warmup echo_open_plan"
  "\<forall>w \<in> set (os_threads echo_open_setting). setup_ok (w_clock w) (op_worker echo_open_plan) (raw_echo ''ab'') [a]"
  "add_millis (os_clock echo_open_setting 0) (op_warmup echo_open_plan) = Inr 0"
  "\<forall>n < length (os_claims echo_open_setting). \<exists>slot. slot_at seven (of_nat n) = Inr slot"
  "length (os_claims echo_open_setting) = 1"
  using brisk_setup
  by (simp_all add: echo_open_setting_def setup_ok_def timeout_fits_def echo_open_plan_def brisk_world_def
      seven_slot add_millis_def nanos_of_millis_def add_nanos_def int64_ok_def)


subsection \<open>The verdicts\<close>

lemma rank_median:
  assumes "0 < n" and "n \<le> 2 ^ 53"
  shows "n \<le> 2 * rank_nat 50 n" and "2 * rank_nat 50 n \<le> n + 1"
proof -
  have "rnd (of_nat n / 2) = (of_nat n / 2 :: rat)"
    using rnd_representable [of "int n" "- 1"] assms(2) by (simp add: power_int_def)
  moreover have "rnd (50 / 100) = (1 / 2 :: rat)"
  proof -
    have "(50 / 100 :: rat) = 2 powi - 1" by (simp add: power_int_def)
    then show ?thesis using rnd_powi [of "- 1"] by (simp add: power_int_def)
  qed
  ultimately have p: "rank_product 50 n = of_nat n / 2"
    unfolding rank_product_def using rnd_of_nat [OF assms(2)] by (simp del: divide_eq_eq_numeral1 eq_divide_eq_numeral1)
  have c: "\<lceil>of_nat n / 2 :: rat\<rceil> = int ((n + 1) div 2)"
    by (intro ceiling_unique) (cases "even n"; auto elim!: evenE oddE simp: field_simps)+
  have "nat \<lceil>rank_product 50 n\<rceil> = (n + 1) div 2" unfolding p c by simp
  then have "rank_nat 50 n = max 1 (min n ((n + 1) div 2))" by (simp add: rank_nat_def)
  then show "n \<le> 2 * rank_nat 50 n" and "2 * rank_nat 50 n \<le> n + 1"
    using assms(1) by auto
qed

text \<open>How many samples lie on either side of the one of a rank.\<close>

lemma rank_counts:
  assumes "1 \<le> t" and "t \<le> size M"
  shows "t \<le> size {#x \<in># M. x \<le> sample_of_rank M t#}"
    and "size M + 1 \<le> t + size {#x \<in># M. sample_of_rank M t \<le> x#}"
proof -
  let ?xs = "sorted_list_of_multiset M"
  let ?s = "sample_of_rank M t"
  have l: "length ?xs = size M" by (metis mset_sorted_list_of_multiset size_mset)
  have M: "size (filter_mset P M) = length (filter P ?xs)" for P
    by (metis mset_filter mset_sorted_list_of_multiset size_mset)
  have s: "?s = ?xs ! (t - 1)" by (simp add: sample_of_rank_def)
  have "?xs ! i \<le> ?s" if "i < t" for i
    using that assms l by (auto simp: s intro!: sorted_nth_mono)
  then have "\<forall>x \<in> set (take t ?xs). x \<le> ?s"
    using assms l by (auto simp: in_set_conv_nth)
  then have "length (filter (\<lambda>x. x \<le> ?s) (take t ?xs)) = t"
    using assms l by (subst filter_True) auto
  moreover have "length (filter (\<lambda>x. x \<le> ?s) ?xs) =
      length (filter (\<lambda>x. x \<le> ?s) (take t ?xs)) + length (filter (\<lambda>x. x \<le> ?s) (drop t ?xs))"
    by (metis append_take_drop_id filter_append length_append)
  ultimately show "t \<le> size {#x \<in># M. x \<le> ?s#}" by (simp add: M)
  have "?s \<le> ?xs ! i" if "t - 1 \<le> i" "i < size M" for i
    using that assms l by (auto simp: s intro!: sorted_nth_mono)
  then have "\<forall>x \<in> set (drop (t - 1) ?xs). ?s \<le> x"
    using assms l by (auto simp: in_set_conv_nth)
  then have "length (filter (\<lambda>x. ?s \<le> x) (drop (t - 1) ?xs)) = size M - (t - 1)"
    using assms l by (subst filter_True) auto
  moreover have "length (filter (\<lambda>x. ?s \<le> x) ?xs) =
      length (filter (\<lambda>x. ?s \<le> x) (take (t - 1) ?xs)) + length (filter (\<lambda>x. ?s \<le> x) (drop (t - 1) ?xs))"
    by (metis append_take_drop_id filter_append length_append)
  ultimately show "size M + 1 \<le> t + size {#x \<in># M. ?s \<le> x#}" using assms by (simp add: M)
qed

lemma size_filter_imp: "(\<And>x. P x \<Longrightarrow> Q x) \<Longrightarrow> size (filter_mset P M) \<le> size (filter_mset Q M)"
  by (induction M) (auto simp: le_SucI)

lemma median_verdict:
  assumes "rate_per_second r = Inr q" and M: "\<forall>l \<in># M. 0 \<le> l \<and> l < 2 ^ 63" "M \<noteq> {#}" "size M \<le> 2 ^ 53"
  shows "\<exists>i v. interval q = Inr i \<and> ten_intervals q = Inr (i * 10) \<and>
    percentile (hist_of M) (Fin 50) = Inr (Some v) \<and>
    (v < i * 10 \<longrightarrow> size M \<le> 2 * size {#x \<in># M. x < i * 10#}) \<and>
    (i * 10 \<le> v \<longrightarrow> size M < 2 * size {#x \<in># M. i * 1280 \<le> x * 129 \<or> kMaxValue < x#})"
proof -
  from interval_exists [OF assms(1)] obtain i where i: "interval q = Inr i" "1 \<le> i" "i \<le> 10 ^ 12" by blast
  define n where "n = size M"
  define t where "t = rank_nat 50 n"
  define s where "s = sample_of_rank M t"
  have n: "0 < n" "n \<le> 2 ^ 53" using M(2,3) by (simp_all add: n_def nonempty_has_size)
  have t: "1 \<le> t" "t \<le> size M" using rank_nat_bounds [OF n(1)] by (simp_all add: t_def n_def)
  have half: "n \<le> 2 * t" "2 * t \<le> n + 1" using rank_median [OF n] by (simp_all add: t_def)
  have mem: "s \<in># M" unfolding s_def using t by (rule sample_of_rank_in)
  with M(1) have s: "0 \<le> s" "s < 2 ^ 63" by auto
  have v: "percentile (hist_of M) (Fin 50) = Inr (Some (reported M s))"
    using percentile_hist_of [OF M(1,2), of 50] M(3) by (simp add: s_def t_def n_def)
  have low: "size M \<le> 2 * size {#x \<in># M. x < i * 10#}" if "reported M s < i * 10"
  proof -
    have "size {#x \<in># M. x \<le> s#} \<le> size {#x \<in># M. x < i * 10#}"
      using that reported_bounds(1) [OF mem s] by (intro size_filter_imp) auto
    with rank_counts(1) [OF t] half show ?thesis by (simp add: s_def n_def)
  qed
  have high: "size M < 2 * size {#x \<in># M. i * 1280 \<le> x * 129 \<or> kMaxValue < x#}" if "i * 10 \<le> reported M s"
  proof -
    have "i * 1280 \<le> x * 129 \<or> kMaxValue < x" if "s \<le> x" for x
      using that reported_bounds(2) [OF mem s] \<open>i * 10 \<le> reported M s\<close> by (cases "s \<le> kMaxValue") auto
    then have "size {#x \<in># M. s \<le> x#} \<le> size {#x \<in># M. i * 1280 \<le> x * 129 \<or> kMaxValue < x#}"
      by (intro size_filter_imp) auto
    with rank_counts(2) [OF t] half show ?thesis by (simp add: s_def n_def)
  qed
  have "ten_intervals q = Inr (i * 10)" using i by (auto simp: ten_intervals_def int64_ok_def)
  with i(1) v low high show ?thesis by blast
qed

text \<open>Both verdicts are defined for histograms of samples.\<close>

lemma h_count_hist_of: "size M \<le> 2 ^ 53 \<Longrightarrow> h_count (hist_of M) = 0 \<longleftrightarrow> M = {#}"
proof -
  assume "size M \<le> 2 ^ 53"
  then have "unat (of_nat (size M) :: u64) = size M" by (intro unat_u64_of_nat) simp
  moreover have "h_count (hist_of M) = 0 \<longleftrightarrow> unat (of_nat (size M) :: u64) = 0"
    unfolding hist.total_holding unat_eq_0 ..
  ultimately show ?thesis by (simp only: size_eq_0_iff_empty)
qed

lemma kept_up_total:
  assumes "rate_per_second r = Inr (ol_rate run)" and "ol_rig_lag run = hist_of M"
    and "\<forall>l \<in># M. 0 \<le> l \<and> l < 2 ^ 63" and "size M \<le> 2 ^ 53"
  shows "\<exists>b. kept_up run = Inr b"
  using median_verdict [OF assms(1,3) _ assms(4)] h_count_hist_of [OF assms(4)]
  by (cases "M = {#}") (auto simp: kept_up_def assms(2))

lemma connections_saturated_total:
  assumes "rate_per_second r = Inr (ol_rate run)" and "ol_connection_wait run = hist_of M"
    and "\<forall>l \<in># M. 0 \<le> l \<and> l < 2 ^ 63" and "size M \<le> 2 ^ 53"
  shows "\<exists>b. connections_saturated run = Inr b"
  using median_verdict [OF assms(1,3) _ assms(4)] h_count_hist_of [OF assms(4)]
  by (cases "M = {#}") (auto simp: connections_saturated_def assms(2))

text \<open>C19: The verdict on the rig is a verdict on the rig. \<open>kept_up\<close> never fails; when it says yes, at least
  half of the measured requests were sent less than ten schedule intervals after the
  worker was free and the slot due; when it says no, more than half were sent at least ten
  intervals late by the rig's own doing, up to the 1/128 of a histogram slot (or over 60s). The
  wait for a connection does not enter, so a slow target never voids a run.\<close>

theorem kept_up_judges_the_rig:
  assumes "rate_per_second r = Inr (ol_rate run)" and "ol_rig_lag run = hist_of M"
    and "\<forall>l \<in># M. 0 \<le> l \<and> l < 2 ^ 63" and "size M \<le> 2 ^ 53"
  shows "\<exists>i. interval (ol_rate run) = Inr i \<and>
    (kept_up run = Inr True \<and> size M \<le> 2 * size {#x \<in># M. x < i * 10#} \<or>
     kept_up run = Inr False \<and> size M < 2 * size {#x \<in># M. i * 1280 \<le> x * 129 \<or> kMaxValue < x#})"
proof (cases "M = {#}")
  case True
  with interval_exists [OF assms(1)] show ?thesis
    by (auto simp: kept_up_def assms(2) hist.total_holding)
next
  case False
  from median_verdict [OF assms(1,3) False assms(4)] obtain i v where v:
    "interval (ol_rate run) = Inr i" "ten_intervals (ol_rate run) = Inr (i * 10)"
    "percentile (hist_of M) (Fin 50) = Inr (Some v)"
    "v < i * 10 \<longrightarrow> size M \<le> 2 * size {#x \<in># M. x < i * 10#}"
    "i * 10 \<le> v \<longrightarrow> size M < 2 * size {#x \<in># M. i * 1280 \<le> x * 129 \<or> kMaxValue < x#}" by blast
  have "unat (of_nat (size M) :: u64) = size M" using assms(4) by (intro unat_u64_of_nat) simp
  then have "h_count (hist_of M) \<noteq> 0"
    using False by (metis hist.total_holding nonempty_has_size less_irrefl unat_0)
  then have "kept_up run = Inr (v < i * 10)"
    using v(2,3) by (simp add: kept_up_def assms(2))
  then show ?thesis using v(1,4,5) by (cases "v < i * 10") auto
qed

theorem kept_up_judges_the_rig_witness:
  "\<exists>i. interval \<lparr>rps = Fin 7\<rparr> = Inr i \<and> 0 < size {#x \<in># {#0, 0, 9 :: int#}. x < i * 10#} + size {#x \<in># {#0, 0, 9#}. i * 1280 \<le> x * 129 \<or> kMaxValue < x#}"
proof -
  let ?M = "{#0, 0, 9 :: int#}"
  define run :: open_loop_run where "run = \<lparr>ol_result = \<lparr>r_attempted = 3, r_errors = no_errors, r_latency = None,
    r_duration = 1\<rparr>, ol_histogram = hist_of ?M, ol_requested = 1, ol_started = 1, ol_opened = 1,
    ol_resolution = 1, ol_schedule_lag = hist_of ?M, ol_connection_wait = hist_of ?M, ol_rig_lag = hist_of ?M,
    ol_slots_claimed = 3, ol_slots_due = 3, ol_rate = \<lparr>rps = Fin 7\<rparr>\<rparr>"
  have "rate_per_second (Fin 7) = Inr (ol_rate run)" "ol_rig_lag run = hist_of ?M"
    by (simp_all add: run_def rate_7)
  from kept_up_judges_the_rig [OF this] show ?thesis by (auto simp: run_def)
qed

end
