(* ===== verification/Csv.thy ===== *)
theory Csv
  imports Summary Decimal
begin

text \<open>
  The CSV writers, \<open>src/stats/csv.hpp\<close> and \<open>csv.cpp\<close>. A writer is modelled as the text it
  appends to the stream. The specification is a reader of RFC 4180 files, \<open>csv_read\<close>, a state
  machine over the characters that knows nothing of the writers: what is proved is what such a
  reader finds in the text.
\<close>

definition dquote :: char where
  "dquote = CHR 0x22"

definition newline :: char where
  "newline = CHR 0x0A"

definition carriage :: char where
  "carriage = CHR 0x0D"

definition comma :: char where
  "comma = CHR 0x2C"

lemmas csv_chars = dquote_def newline_def carriage_def comma_def

definition quoted :: "string \<Rightarrow> string" where
  "quoted value =
     (if \<not> list_ex (\<lambda>c. c \<in> {comma, dquote, carriage, newline}) value then value
      else dquote # concat (map (\<lambda>c. if c = dquote then [dquote, dquote] else [c]) value) @ [dquote])"

definition kSummaryColumns :: string where
  "kSummaryColumns = ''samples,overflow,percentiles_bounded,duration_ns,per_second,'' @
     ''p50_ns,p90_ns,p99_ns,p999_ns,max_ns''"

definition print_u64 :: "u64 \<Rightarrow> string" where
  "print_u64 w = string_of_nat (unat w)"

definition write_summary_header :: string where
  "write_summary_header = kSummaryColumns @ [newline]"

definition write_summary_row :: "summary \<Rightarrow> string" where
  "write_summary_row s =
     print_u64 (s_samples s) @ [comma] @
     print_u64 (s_overflow s) @ [comma] @
     (if percentiles_bounded s then ''1'' else ''0'') @ [comma] @
     string_of_int (s_duration s) @ [comma] @
     print_fixed 2 (per_second s) @ [comma] @
     string_of_int (s_p50 s) @ [comma] @
     string_of_int (s_p90 s) @ [comma] @
     string_of_int (s_p99 s) @ [comma] @
     string_of_int (s_p999 s) @ [comma] @
     string_of_int (s_max s) @ [newline]"

definition write_absent_summary_row :: string where
  "write_absent_summary_row =
     (let fields = 1 + length (filter (\<lambda>c. c = comma) kSummaryColumns)
      in concat (map (\<lambda>i. (if 0 < i then [comma] else []) @ (if i = 2 then ''1'' else ''0''))
           [0..<fields]) @ [newline])"

definition write_histogram :: "histogram \<Rightarrow> string" where
  "write_histogram h =
     ''slot,low_ns,high_ns,count'' @ [newline] @
     concat (map (\<lambda>i.
       if hist_slot h i = 0 then []
       else string_of_int (int i) @ [comma] @ string_of_int (slot_low (int i)) @ [comma] @
         string_of_int (slot_high (int i)) @ [comma] @ print_u64 (hist_slot h i) @ [newline])
       [0..<nat kCount]) @
     (if 0 < h_overflow h
      then string_of_int (- 1) @ [comma] @ string_of_int (kMaxValue + 1) @ [comma] @
        string_of_int (h_max h) @ [comma] @ print_u64 (h_overflow h) @ [newline]
      else [])"

definition timeseries_row :: "nat \<Rightarrow> histogram \<Rightarrow> string result" where
  "timeseries_row i h =
     (let front = string_of_nat i @ [comma] @ print_u64 (h_count h) @ [comma]
      in if h_count h = 0 then Inr (front @ ''0,0,0,0'' @ [newline])
      else
        and_then (percentile_value h (Fin 50)) (\<lambda>p50.
        and_then (percentile_value h (Fin 90)) (\<lambda>p90.
        and_then (percentile_value h (Fin 99)) (\<lambda>p99.
          Inr (front @ string_of_int p50 @ [comma] @ string_of_int p90 @ [comma] @
            string_of_int p99 @ [comma] @ string_of_int (h_max h) @ [newline])))))"

definition write_timeseries :: "histogram list \<Rightarrow> string result" where
  "write_timeseries seconds =
     fold_result
       (\<lambda>out (i, h). and_then (timeseries_row i h) (\<lambda>row. Inr (out @ row)))
       (''second,count,p50_ns,p90_ns,p99_ns,max_ns'' @ [newline])
       (zip [0..<length seconds] seconds)"

subsection \<open>A reader of RFC 4180 files\<close>

datatype csv_mode = Field_Start | Unquoted | Quoted | Quote_Seen

fun csv_go ::
  "csv_mode \<Rightarrow> string \<Rightarrow> string list \<Rightarrow> string list list \<Rightarrow> string \<Rightarrow> string list list option" where
  "csv_go m f r rs [] = (if m = Field_Start \<and> r = [] then Some (rev rs) else None)"
| "csv_go Quoted f r rs (c # s) =
     (if c = dquote then csv_go Quote_Seen f r rs s else csv_go Quoted (c # f) r rs s)"
| "csv_go m f r rs (c # s) =
     (if c = comma then csv_go Field_Start [] (rev f # r) rs s
      else if c = newline then csv_go Field_Start [] [] (rev (rev f # r) # rs) s
      else if c = dquote then
        (case m of Field_Start \<Rightarrow> csv_go Quoted f r rs s
                 | Quote_Seen \<Rightarrow> csv_go Quoted (c # f) r rs s | _ \<Rightarrow> None)
      else if m = Quote_Seen \<or> c = carriage then None
      else csv_go Unquoted (c # f) r rs s)"

definition csv_read :: "string \<Rightarrow> string list list option" where
  "csv_read s = csv_go Field_Start [] [] [] s"

text \<open>One record as the writers lay it out: the fields in order, a comma between two of them.\<close>

fun csv_line :: "string list \<Rightarrow> string" where
  "csv_line [] = [newline]"
| "csv_line [v] = v @ [newline]"
| "csv_line (v # vs) = v @ comma # csv_line vs"

definition plain :: "string \<Rightarrow> bool" where
  "plain v \<longleftrightarrow> (\<forall>c \<in> set v. c \<notin> {comma, dquote, carriage, newline})"

lemma quoted_plain: "plain v \<Longrightarrow> quoted v = v"
  by (auto simp: quoted_def plain_def list_ex_iff)

lemma csv_unquoted:
  "plain v \<Longrightarrow> csv_go Unquoted f r rs (v @ s) = csv_go Unquoted (rev v @ f) r rs s"
  by (induction v arbitrary: f) (simp_all add: plain_def)

lemma csv_inside_quotes:
  "csv_go Quoted f r rs (concat (map (\<lambda>c. if c = dquote then [dquote, dquote] else [c]) v) @ dquote # s)
     = csv_go Quote_Seen (rev v @ f) r rs s"
  by (induction v arbitrary: f) (auto simp: csv_chars)

lemma csv_field:
  assumes "d = comma \<or> d = newline"
  shows "csv_go Field_Start [] r rs (quoted v @ d # s) =
    (if d = comma then csv_go Field_Start [] (v # r) rs s
     else csv_go Field_Start [] [] (rev (v # r) # rs) s)"
proof (cases "plain v")
  case True
  have d: "csv_go Unquoted f r rs (d # s) = (if d = comma then csv_go Field_Start [] (rev f # r) rs s
     else csv_go Field_Start [] [] (rev (rev f # r) # rs) s)" for f
    using assms by auto
  show ?thesis
  proof (cases v)
    case Nil
    with True assms show ?thesis by (auto simp: quoted_plain)
  next
    case (Cons c w)
    with True have "plain w" "c \<notin> {comma, dquote, carriage, newline}" by (auto simp: plain_def)
    with True Cons d [of "rev w @ [c]"] show ?thesis
      by (simp add: quoted_plain csv_unquoted)
  qed
next
  case False
  then have "quoted v =
      dquote # concat (map (\<lambda>c. if c = dquote then [dquote, dquote] else [c]) v) @ [dquote]"
    by (auto simp: quoted_def plain_def list_ex_iff)
  then show ?thesis
    using assms csv_inside_quotes [of "[]" r rs v "d # s"] by (auto simp: csv_chars)
qed

lemma csv_record:
  "vs \<noteq> [] \<Longrightarrow> csv_go Field_Start [] r rs (csv_line (map quoted vs) @ s) =
    csv_go Field_Start [] [] ((rev r @ vs) # rs) s"
proof (induction vs arbitrary: r rule: induct_list012)
  case (2 v)
  then show ?case using csv_field [of newline r rs v s] by (simp add: csv_chars)
next
  case (3 v w vs)
  then show ?case using csv_field [of comma r rs v "csv_line (map quoted (w # vs)) @ s"] by simp
qed simp

lemma csv_records:
  "\<forall>vs \<in> set rows. vs \<noteq> [] \<Longrightarrow>
    csv_go Field_Start [] [] rs (concat (map (\<lambda>vs. csv_line (map quoted vs)) rows)) = Some (rev rs @ rows)"
  by (induction rows arbitrary: rs) (simp_all add: csv_record)

lemma csv_read_plain:
  assumes "\<forall>vs \<in> set rows. vs \<noteq> [] \<and> (\<forall>v \<in> set vs. plain v)"
  shows "csv_read (concat (map csv_line rows)) = Some rows"
proof -
  have "map quoted vs = vs" if "vs \<in> set rows" for vs
    using that assms by (intro map_idI) (simp add: quoted_plain)
  then have "concat (map csv_line rows) = concat (map (\<lambda>vs. csv_line (map quoted vs)) rows)"
    by (metis (mono_tags, lifting) map_eq_conv)
  then show ?thesis using csv_records [of rows "[]"] assms by (simp add: csv_read_def)
qed

text \<open>What is printed as a number needs no quoting.\<close>

lemma is_digit_plain: "is_digit c \<Longrightarrow> c \<notin> {comma, dquote, carriage, newline}"
  by (auto simp: is_digit_def csv_chars)

lemma plain_append [simp]: "plain (v @ w) \<longleftrightarrow> plain v \<and> plain w"
  by (auto simp: plain_def)

lemma plain_string_of_nat [simp]: "plain (string_of_nat n)"
  using string_of_nat_digits [of n] is_digit_plain unfolding plain_def by blast

lemma plain_Nil [simp]: "plain []"
  by (simp add: plain_def)

lemma plain_minus_dot [simp]: "plain (CHR ''-'' # v) \<longleftrightarrow> plain v" "plain (CHR ''.'' # v) \<longleftrightarrow> plain v"
  by (simp_all add: plain_def csv_chars)

lemma plain_literals [simp]: "plain ''inf''" "plain ''nan''" "plain ''0''" "plain ''1''"
  by (simp_all add: plain_def csv_chars)

lemma plain_string_of_int [simp]: "plain (string_of_int i)"
  by (simp add: string_of_int_def)

lemma plain_print_u64 [simp]: "plain (print_u64 w)"
  by (simp add: print_u64_def)

lemma plain_digits: "\<forall>c \<in> set v. is_digit c \<Longrightarrow> plain v"
  using is_digit_plain by (auto simp: plain_def)

lemma plain_print_fixed [simp]: "plain (print_fixed n d)"
  using plain_digits [OF padded_digits] by (cases d) (auto simp: scaled_def minus_if_def)

subsection \<open>Properties\<close>

text \<open>A target name reaches the reader unchanged. Any records of strings, each with at least
  one field, written with every field passed through \<open>quoted\<close>, a comma between fields and a
  newline after each record, are read back exactly by an RFC 4180 reader, whatever commas,
  quotes or line breaks the strings contain.\<close>

theorem quoted_roundtrip:
  assumes "\<forall>vs \<in> set rows. vs \<noteq> []"
  shows "csv_read (concat (map (\<lambda>vs. csv_line (map quoted vs)) rows)) = Some rows"
  using csv_records [OF assms, of "[]"] by (simp add: csv_read_def)

theorem quoted_roundtrip_witness:
  "csv_read (concat (map (\<lambda>vs. csv_line (map quoted vs))
     [[''target, eu'', [dquote, newline], ''''], [''plain'']]))
   = Some [[''target, eu'', [dquote, newline], ''''], [''plain'']]"
  by (rule quoted_roundtrip) simp

definition summary_columns :: "string list" where
  "summary_columns = [''samples'', ''overflow'', ''percentiles_bounded'', ''duration_ns'',
     ''per_second'', ''p50_ns'', ''p90_ns'', ''p99_ns'', ''p999_ns'', ''max_ns'']"

definition summary_fields :: "summary \<Rightarrow> string list" where
  "summary_fields s = [print_u64 (s_samples s), print_u64 (s_overflow s),
     if percentiles_bounded s then ''1'' else ''0'', string_of_int (s_duration s),
     print_fixed 2 (per_second s), string_of_int (s_p50 s), string_of_int (s_p90 s),
     string_of_int (s_p99 s), string_of_int (s_p999 s), string_of_int (s_max s)]"

definition absent_fields :: "string list" where
  "absent_fields = [''0'', ''0'', ''1'', ''0'', ''0'', ''0'', ''0'', ''0'', ''0'', ''0'']"

lemma write_summary_header_line: "write_summary_header = csv_line summary_columns"
  by (simp add: write_summary_header_def kSummaryColumns_def summary_columns_def comma_def)

lemma write_summary_row_line: "write_summary_row s = csv_line (summary_fields s)"
  by (simp add: write_summary_row_def summary_fields_def)

lemma write_absent_summary_row_line: "write_absent_summary_row = csv_line absent_fields"
  by (simp add: write_absent_summary_row_def absent_fields_def kSummaryColumns_def comma_def upt_rec [of 0]
      upt_rec [of "Suc _"] numeral_eq_Suc)

text \<open>A summary file is rectangular. The header, a row and the row of a run without a
  distribution, in any number and order after the header, are read back as records of the same
  ten fields: the column names, the summary's values in that order, and the absent row's zeros
  with percentiles_bounded at 1.\<close>

theorem summary_file_rectangular:
  "csv_read (write_summary_header @ concat (map (\<lambda>r. case r of
       Some s \<Rightarrow> write_summary_row s | None \<Rightarrow> write_absent_summary_row) runs)) =
   Some (summary_columns # map (\<lambda>r. case r of
       Some s \<Rightarrow> summary_fields s | None \<Rightarrow> absent_fields) runs) \<and>
   length summary_columns = 10 \<and> length (summary_fields s) = 10 \<and> length absent_fields = 10"
proof -
  let ?f = "\<lambda>r. case r of Some s \<Rightarrow> summary_fields s | None \<Rightarrow> absent_fields"
  have p: "\<forall>v \<in> set summary_columns. plain v"
    by (simp add: summary_columns_def plain_def csv_chars)
  have q: "\<forall>v \<in> set (summary_fields s). plain v" "summary_fields s \<noteq> []" for s
    by (simp_all add: summary_fields_def)
  have a: "\<forall>v \<in> set absent_fields. plain v" "absent_fields \<noteq> []" "summary_columns \<noteq> []"
    by (simp_all add: absent_fields_def summary_columns_def)
  have "csv_read (concat (map csv_line (summary_columns # map ?f runs))) = Some (summary_columns # map ?f runs)"
    by (rule csv_read_plain) (use p q a in \<open>auto split: option.splits\<close>)
  moreover have "(case r of Some s \<Rightarrow> write_summary_row s | None \<Rightarrow> write_absent_summary_row) = csv_line (?f r)" for r
    by (simp add: write_summary_row_line write_absent_summary_row_line split: option.split)
  ultimately show ?thesis
    by (simp add: write_summary_header_line comp_def)
      (simp add: summary_columns_def summary_fields_def absent_fields_def)
qed

subsection \<open>The histogram file\<close>

definition histogram_rows :: "histogram \<Rightarrow> (int \<times> int \<times> int \<times> u64) list" where
  "histogram_rows h =
     map (\<lambda>i. (int i, slot_low (int i), slot_high (int i), hist_slot h i))
       (filter (\<lambda>i. hist_slot h i \<noteq> 0) [0..<nat kCount]) @
     (if 0 < h_overflow h then [(- 1, kMaxValue + 1, h_max h, h_overflow h)] else [])"

definition row_fields :: "int \<times> int \<times> int \<times> u64 \<Rightarrow> string list" where
  "row_fields = (\<lambda>(i, low, high, n).
     [string_of_int i, string_of_int low, string_of_int high, print_u64 n])"

definition histogram_columns :: "string list" where
  "histogram_columns = [''slot'', ''low_ns'', ''high_ns'', ''count'']"

lemma write_histogram_lines:
  "write_histogram h = concat (map csv_line (histogram_columns # map row_fields (histogram_rows h)))"
proof -
  have *: "concat (map (\<lambda>i. if P i then [] else f i) xs) = concat (map f (filter (\<lambda>i. \<not> P i) xs))"
    for P and f :: "nat \<Rightarrow> string" and xs
    by (induction xs) simp_all
  show ?thesis
    unfolding write_histogram_def *
    by (simp add: histogram_rows_def row_fields_def histogram_columns_def comp_def comma_def)
qed

lemma csv_read_write_histogram:
  "csv_read (write_histogram h) = Some (histogram_columns # map row_fields (histogram_rows h))"
  unfolding write_histogram_lines
proof (rule csv_read_plain)
  have "\<forall>v \<in> set histogram_columns. plain v" "histogram_columns \<noteq> []"
    by (simp_all add: histogram_columns_def plain_def csv_chars)
  then show "\<forall>vs \<in> set (histogram_columns # map row_fields (histogram_rows h)).
      vs \<noteq> [] \<and> (\<forall>v \<in> set vs. plain v)"
    by (auto simp: row_fields_def)
qed

lemma slot_members_range:
  assumes "\<forall>l \<in># M. 0 \<le> l \<and> l < 2 ^ 63" and "i < nat kCount"
  shows "slot_members M i = {#l \<in># M. slot_low (int i) \<le> l \<and> l \<le> slot_high (int i) \<and> l \<le> kMaxValue#}"
  unfolding slot_members_def
proof (rule filter_mset_cong)
  fix l assume "l \<in># M"
  with assms(1) have l: "0 \<le> l" "l < 2 ^ 63" by auto
  show "(l \<le> kMaxValue \<and> index_of l = int i) \<longleftrightarrow>
      (slot_low (int i) \<le> l \<and> l \<le> slot_high (int i) \<and> l \<le> kMaxValue)"
    using slot_of_index [OF l] index_of_slot [of "int i" l] l by auto
qed simp

lemma size_slots_overflow:
  assumes "\<forall>l \<in># M. 0 \<le> l \<and> l < 2 ^ 63"
  shows "(\<Sum>i < nat kCount. size (slot_members M i)) + size {#l \<in># M. kMaxValue < l#} = size M"
proof -
  have "(\<Sum>i \<le> j. size (slot_members M i)) = size (below_slot M j)" for j
    by (induction j) (simp_all add: size_below_slot_0 [OF assms] size_below_slot_Suc)
  from this [of 3807] have "(\<Sum>i < nat kCount. size (slot_members M i)) = size (below_slot M 3807)"
    by (simp add: kCount_eq lessThan_Suc_atMost [symmetric])
  also have "below_slot M 3807 = {#l \<in># M. \<not> kMaxValue < l#}"
    unfolding below_slot_def
    by (rule filter_mset_cong) (use assms index_of_lt_kCount in \<open>fastforce simp: kCount_eq\<close>)+
  finally show ?thesis
    by (metis add.commute multiset_partition size_union)
qed

text \<open>C32: A histogram file stands alone. An RFC 4180 reader finds, after the column names, one
  record per row; the counts of the rows add up to the number of samples of the run (up to
  2^64 of them), no row is empty, and each row counts exactly the samples in its own range,
  those between its low_ns and its high_ns (a sample above 60s only ever in the last row, although
  the top slot's high_ns is 60.13s).\<close>

theorem histogram_file_faithful:
  assumes "\<forall>l \<in># M. 0 \<le> l \<and> l < 2 ^ 63" and "size M < 2 ^ 64"
  shows "csv_read (write_histogram (hist_of M)) =
      Some (histogram_columns # map row_fields (histogram_rows (hist_of M))) \<and>
    (\<Sum>(i, low, high, n) \<leftarrow> histogram_rows (hist_of M). unat n) = size M \<and>
    (\<forall>(i, low, high, n) \<in> set (histogram_rows (hist_of M)).
       n \<noteq> 0 \<and> (0 \<le> i \<longrightarrow> unat n = size {#l \<in># M. low \<le> l \<and> l \<le> high \<and> l \<le> kMaxValue#}) \<and>
       (i < 0 \<longrightarrow> unat n = size {#l \<in># M. low \<le> l \<and> l \<le> high#}))"
proof (intro conjI)
  let ?h = "hist_of M"
  have small: "unat (of_nat (size {#l \<in># M. P l#}) :: u64) = size {#l \<in># M. P l#}" for P
    using assms(2) size_filter_mset_lesseq [of P M] by (intro unat_u64_of_nat) linarith
  have slot: "unat (hist_slot ?h i) = size (slot_members M i)" if "i < nat kCount" for i
    using that small by (simp add: hist_slot_def hist_of_slot kCount_eq slot_members_def)
  have over: "unat (h_overflow ?h) = size {#l \<in># M. kMaxValue < l#}"
    using small by (simp add: hist_of_def)
  show "csv_read (write_histogram ?h) = Some (histogram_columns # map row_fields (histogram_rows ?h))"
    by (rule csv_read_write_histogram)
  have "(\<Sum>i \<leftarrow> filter (\<lambda>i. hist_slot ?h i \<noteq> 0) [0..<nat kCount]. unat (hist_slot ?h i))
      = (\<Sum>i \<leftarrow> [0..<nat kCount]. unat (hist_slot ?h i))"
    by (rule sum_list_map_filter) (simp add: unat_eq_0)
  also have "\<dots> = (\<Sum>i < nat kCount. size (slot_members M i))"
    by (simp add: interv_sum_list_conv_sum_set_nat slot atLeast0LessThan)
  finally show "(\<Sum>(i, low, high, n) \<leftarrow> histogram_rows ?h. unat n) = size M"
    using size_slots_overflow [OF assms(1)] over [symmetric]
    by (cases "h_overflow ?h = 0") (simp_all add: histogram_rows_def comp_def word_gt_0 del: size_eq_0_iff_empty)
  have "{#l \<in># M. kMaxValue < l#} = {#l \<in># M. kMaxValue + 1 \<le> l \<and> l \<le> h_max ?h#}"
    by (rule filter_mset_cong) (auto simp: hist_of_def)
  then show "\<forall>(i, low, high, n) \<in> set (histogram_rows ?h).
       n \<noteq> 0 \<and> (0 \<le> i \<longrightarrow> unat n = size {#l \<in># M. low \<le> l \<and> l \<le> high \<and> l \<le> kMaxValue#}) \<and>
       (i < 0 \<longrightarrow> unat n = size {#l \<in># M. low \<le> l \<and> l \<le> high#})"
    using over slot slot_members_range [OF assms(1)]
    by (auto simp: histogram_rows_def word_gt_0)
qed

theorem histogram_file_faithful_witness:
  "csv_read (write_histogram (hist_of {#5, 5, 70000000000#})) =
      Some (histogram_columns # map row_fields (histogram_rows (hist_of {#5, 5, 70000000000#}))) \<and>
    (\<Sum>(i, low, high, n) \<leftarrow> histogram_rows (hist_of {#5, 5, 70000000000#}). unat n) = 3"
  using histogram_file_faithful [of "{#5, 5, 70000000000#}"] by simp

end
