(* ===== verification/Report.thy ===== *)
theory Report
  imports Open_Loop Csv Http
begin

text \<open>
  What \<open>apps/dariyanaap.cpp\<close> tells its operator: the usage text, \<open>report\<close>, which both kinds of run
  share, and the lines about the schedule that follow it in an open-loop run. What surrounds the program is a
  \<open>shell\<close>: the files, the standard output and the standard error. A \<open>job\<close> is a step of the program that may
  print, write files and fail; what was printed before a failure stays printed.
\<close>

type_synonym files = "string \<Rightarrow> string option"

record shell =
  sh_files :: files
  sh_out :: string
  sh_err :: string

type_synonym 'a job = "shell \<Rightarrow> 'a result \<times> shell"

definition job_of :: "'a result \<Rightarrow> 'a job" where
  "job_of r sh = (r, sh)"

definition job_then :: "'a job \<Rightarrow> ('a \<Rightarrow> 'b job) \<Rightarrow> 'b job" where
  "job_then m f sh = (case m sh of (Inl e, sh') \<Rightarrow> (Inl e, sh') | (Inr x, sh') \<Rightarrow> f x sh')"

definition put_out :: "string \<Rightarrow> unit job" where
  "put_out s sh = (Inr (), sh\<lparr>sh_out := sh_out sh @ s\<rparr>)"

definition put_err :: "string \<Rightarrow> unit job" where
  "put_err s sh = (Inr (), sh\<lparr>sh_err := sh_err sh @ s\<rparr>)"

definition kUsage :: string where
  "kUsage = concat (map (\<lambda>l. l @ [newline])
     [''usage: dariyanaap --target HOST:PORT [options]'',
      ''  --rate RPS          open-loop at this offered rate; omit for closed-loop'',
      ''  --connections N     connections held open (default 1)'',
      ''  --duration MS       measured window in ms (default 10000)'',
      ''  --warmup MS         discarded window before it (default 0)'',
      ''  --protocol NAME     raw | http (default raw)'',
      ''  --payload N         raw echo bytes each way (default 64)'',
      ''  --path P            http path (default /)'',
      ''  --read-timeout MS   (default 1000)'',
      ''  --connect-timeout MS (default 1000)'',
      ''  --csv-dir DIR       write summary.csv, histogram.csv and timeseries.csv here'',
      ''  --timeseries 1      bucket latency by wall-clock second as well''])"

subsection \<open>The report of both kinds of run\<close>

definition as_ms :: "nanos \<Rightarrow> double" where
  "as_ms v = d_div (d_of_i64 v) (Fin 1000000)"

definition in_ms :: "nanos \<Rightarrow> string" where
  "in_ms v = print_fixed 3 (as_ms v) @ ''ms''"

definition report_run :: "plan \<Rightarrow> string \<Rightarrow> nat \<Rightarrow> nat \<Rightarrow> u64 \<Rightarrow> string" where
  "report_run plan mode requested started opens =
     version @ ''  '' @ mode @ ''  target '' @ endpoint_str (pl_target plan) @ ''  '' @
     string_of_nat started @ ''/'' @ string_of_nat requested @ '' connections  '' @
     print_u64 opens @ '' opens'' @ [newline] @
     (if started < requested
      then ''  WARNING: only '' @ string_of_nat started @ '' of '' @ string_of_nat requested @
        '' connections started '' @ em_dash @ '' the RIG is the limit here'' @ [newline]
      else [])"

definition report_errors :: "run_result \<Rightarrow> string" where
  "report_errors run =
     (let errors = r_errors run in
      ''  attempted '' @ print_u64 (r_attempted run) @
      ''  errors: connect '' @ print_u64 (e_connect errors) @ '' write '' @ print_u64 (e_write errors) @
      '' read '' @ print_u64 (e_read errors) @ '' timeout '' @ print_u64 (e_timeout errors) @
      '' protocol '' @ print_u64 (e_protocol errors) @ '' rejected '' @ print_u64 (e_rejected errors) @ [newline] @
      (if \<not> consistent run
       then ''  WARNING: accounting does not balance '' @ em_dash @ '' '' @ print_u64 (r_attempted run) @
         '' attempted, '' @ print_u64 (timed run) @ '' timed, '' @ print_u64 (untimed run) @ '' untimed'' @ [newline]
       else []))"

definition report_latency :: "summary option \<Rightarrow> nanos \<Rightarrow> string" where
  "report_latency latency resolution =
     (case latency of
        None \<Rightarrow> ''  no latency distribution: nothing produced a duration'' @ [newline]
      | Some s \<Rightarrow>
          ''  '' @ print_fixed 0 (per_second s) @ '' req/s   p50 '' @ in_ms (s_p50 s) @
          ''  p90 '' @ in_ms (s_p90 s) @ ''  p99 '' @ in_ms (s_p99 s) @ ''  p999 '' @ in_ms (s_p999 s) @
          ''  max '' @ in_ms (s_max s) @ [newline] @
          ''  rig floor: clock resolution '' @ string_of_int resolution @ '' ns'' @
          (if percentiles_bounded s then [] else ''   (percentiles UNBOUNDED: samples past 60s)'') @ [newline])"

definition report ::
  "run_result \<Rightarrow> plan \<Rightarrow> string \<Rightarrow> nat \<Rightarrow> nat \<Rightarrow> u64 \<Rightarrow> nanos \<Rightarrow> string" where
  "report run plan mode requested started opens resolution =
     report_run plan mode requested started opens @ report_errors run @
     report_latency (r_latency run) resolution"

subsection \<open>The schedule of an open-loop run\<close>

definition void_notice :: string where
  "void_notice = ''   '' @ em_dash @ ''  WARNING: THE RIG COULD NOT KEEP UP; THIS RUN IS VOID'' @ [newline]"

definition report_slots :: "open_loop_run \<Rightarrow> bool \<Rightarrow> string" where
  "report_slots run kept =
     ''  schedule: '' @ print_u64 (ol_slots_claimed run) @ '' of '' @ print_u64 (ol_slots_due run) @
     '' slots claimed'' @ (if kept then [newline] else []) @ (if \<not> kept then void_notice else [])"

definition report_lag :: "open_loop_run \<Rightarrow> string result" where
  "report_lag run =
     (if h_count (ol_schedule_lag run) = 0 then Inr []
      else
        and_then (percentile_value (ol_schedule_lag run) (Fin 50)) (\<lambda>p50.
        and_then (percentile_value (ol_schedule_lag run) (Fin 99)) (\<lambda>p99.
        and_then (percentile_value (ol_connection_wait run) (Fin 50)) (\<lambda>waiting.
        and_then (percentile_value (ol_rig_lag run) (Fin 50)) (\<lambda>own.
          Inr (''  schedule lag: p50 '' @ in_ms p50 @ ''  p99 '' @ in_ms p99 @
            ''  max '' @ in_ms (h_max (ol_schedule_lag run)) @ [newline] @
            ''    of which:   waiting for a connection p50 '' @ in_ms waiting @
            ''   |   the rig itself p50 '' @ in_ms own @ [newline]))))))"

definition report_saturation :: "open_loop_run \<Rightarrow> string" where
  "report_saturation run =
     ''   '' @ em_dash @ ''  NOTE: connections, not --rate, limited this run. '' @
     string_of_nat (ol_started run) @ '' connections'' @ [newline] @
     ''      against this target's service time could not offer '' @ print_fixed 0 (rps (ol_rate run)) @
     '' rps;'' @ [newline] @ ''      '' @
     print_fixed 0 (case r_latency (ol_result run) of Some s \<Rightarrow> per_second s | None \<Rightarrow> Fin 0) @
     '' rps was achieved. Raise --connections to offer the rate.'' @ [newline]"

text \<open>The lines printed after \<open>report\<close>; the job's value is the verdict on the rig.\<close>

definition report_schedule :: "open_loop_run \<Rightarrow> bool job" where
  "report_schedule run =
     job_then (job_of (kept_up run)) (\<lambda>kept.
     job_then (put_out (report_slots run kept)) (\<lambda>_.
     job_then (job_of (report_lag run)) (\<lambda>lag.
     job_then (put_out lag) (\<lambda>_.
     job_then (job_of (connections_saturated run)) (\<lambda>saturated.
     job_then (put_out (if saturated then report_saturation run else [])) (\<lambda>_. job_of (Inr kept)))))))"

subsection \<open>The report is complete\<close>

lemma job_then_eq:
  "job_then m f sh = (case fst (m sh) of Inl e \<Rightarrow> (Inl e, snd (m sh)) | Inr x \<Rightarrow> f x (snd (m sh)))"
  by (simp add: job_then_def split: prod.split sum.split)

text \<open>No percentile that the report reads is absent: the three histograms of the lateness have the same size.\<close>

lemma report_lag_total:
  assumes "ol_schedule_lag run = hist_of L" and "ol_connection_wait run = hist_of W" and "ol_rig_lag run = hist_of R"
    and "size W = size L" and "size R = size L" and "size L \<le> 2 ^ 53"
    and "\<forall>M \<in> {L, W, R}. \<forall>l \<in># M. 0 \<le> l \<and> l < 2 ^ 63"
  shows "\<exists>t. report_lag run = Inr t"
proof (cases "L = {#}")
  case True
  then show ?thesis using h_count_hist_of [OF assms(6)] by (simp add: report_lag_def assms(1))
next
  case False
  have "\<exists>v. percentile_value (hist_of M) (Fin p) = Inr v" if "M \<in> {L, W, R}" "0 \<le> p" "p \<le> 100" for M p
  proof -
    have "size M = size L" using that(1) assms(4,5) by auto
    moreover from this False have "M \<noteq> {#}" by (metis size_eq_0_iff_empty)
    ultimately show ?thesis
      using percentile_value_hist_of [of M p] assms(6,7) that by auto
  qed
  from this [of L 50] this [of L 99] this [of W 50] this [of R 50] show ?thesis
    using h_count_hist_of [OF assms(6)] False by (auto simp: report_lag_def assms(1-3))
qed

lemma report_slots_void: "\<exists>a. report_slots run False = a @ void_notice"
  by (rule exI [of _ "''  schedule: '' @ print_u64 (ol_slots_claimed run) @ '' of '' @
    print_u64 (ol_slots_due run) @ '' slots claimed''"]) (simp add: report_slots_def)

lemma report_schedule_total:
  assumes "report_lag run = Inr lag" and "kept_up run = Inr kept" and "connections_saturated run = Inr saturated"
  shows "report_schedule run sh = (Inr kept, sh\<lparr>sh_out := sh_out sh @ report_slots run kept @ lag @
    (if saturated then report_saturation run else [])\<rparr>)"
  using assms by (simp add: report_schedule_def job_then_eq job_of_def put_out_def)

end
