(* ===== verification/Flags.thy ===== *)
theory Flags
  imports Streams
begin

text \<open>
  The command line, \<open>src/core/flags.hpp\<close> and \<open>flags.cpp\<close>: \<open>Flags::wants_help\<close>, \<open>parse\<close>, \<open>has\<close>,
  \<open>text\<close>, \<open>number\<close> and \<open>real\<close>. The ordered map of values is a HOL map; \<open>argv\<close> is the list of
  arguments with the program name first. How \<open>real\<close> reads a double from a string stream is
  \<open>read_decimal\<close> of \<open>Streams\<close>.
\<close>

type_synonym flags = "string \<rightharpoonup> string"

definition wants_help :: "string list \<Rightarrow> bool" where
  "wants_help argv \<longleftrightarrow> list_ex (\<lambda>a. a = ''--help'' \<or> a = ''-h'') (drop 1 argv)"

fun parse_args :: "string list \<Rightarrow> flags \<Rightarrow> string list \<Rightarrow> flags result" where
  "parse_args known values [] = Inr values"
| "parse_args known values (argument # rest) =
     (if \<not> starts_with argument ''--'' then Inl (UsageError (''expected a --flag, got '' @ in_quotes argument))
      else let name = drop 2 argument in
        if name = [] then Inl (UsageError (in_quotes ''--'' @ '' is not a flag name''))
        else if \<not> list_ex (\<lambda>k. k = name) known then
          Inl (UsageError (''unknown flag --'' @ name @ ''; accepted flags are'' @
            concat (map (\<lambda>accepted. '' --'' @ accepted) known)))
        else (case rest of
            [] \<Rightarrow> Inl (UsageError (''--'' @ name @ '' needs a value''))
          | v # rest' \<Rightarrow> parse_args known (values(name \<mapsto> v)) rest'))"

definition flags_parse :: "string list \<Rightarrow> string list \<Rightarrow> flags result" where
  "flags_parse argv known = parse_args known (\<lambda>_. None) (drop 1 argv)"

definition has :: "flags \<Rightarrow> string \<Rightarrow> bool" where
  "has values name \<longleftrightarrow> values name \<noteq> None"

definition text_flag :: "flags \<Rightarrow> string \<Rightarrow> string \<Rightarrow> string" where
  "text_flag values name fallback = (case values name of None \<Rightarrow> fallback | Some v \<Rightarrow> v)"

definition number :: "flags \<Rightarrow> string \<Rightarrow> u64 \<Rightarrow> u64 result" where
  "number values name fallback =
     (case values name of
        None \<Rightarrow> Inr fallback
      | Some v \<Rightarrow>
          if v = [] then Inl (UsageError (''--'' @ name @ '' needs a number, got an empty value''))
          else (case parse_u64 0 v of
              Not_A_Digit \<Rightarrow> 
                Inl (UsageError (''--'' @ name @ '' must be a whole number, got '' @ in_quotes v))
            | Too_Large \<Rightarrow> Inl (UsageError (''--'' @ name @ '' is too large: '' @ in_quotes v))
            | Value w \<Rightarrow> Inr w))"

definition real_flag :: "flags \<Rightarrow> string \<Rightarrow> double \<Rightarrow> double result" where
  "real_flag values name fallback =
     (case values name of
        None \<Rightarrow> Inr fallback
      | Some v \<Rightarrow>
          (case read_decimal v of
             None \<Rightarrow> Inl (UsageError (''--'' @ name @ '' must be a number, got '' @ in_quotes v))
           | Some x \<Rightarrow>
               if \<not> d_isfinite (to_double x) then Inl (UsageError (''--'' @ name @ '' must be a number, got '' @ in_quotes v))
               else Inr (to_double x)))"

subsection \<open>Properties\<close>

lemma parse_args_Inl: "parse_args known m args = Inl e \<Longrightarrow> is_UsageError e"
  by (induction known m args rule: parse_args.induct) (auto simp: Let_def split: if_splits list.splits)

lemma starts_with_dashes: "starts_with a ''--'' \<longleftrightarrow> a = ''--'' @ drop 2 a"
  by (auto simp: starts_with_iff)

lemma parse_args_Inr:
  "parse_args known m args = Inr m' \<longleftrightarrow>
     (\<exists>pairs. args = concat (map (\<lambda>(n, v). [''--'' @ n, v]) pairs) \<and>
        (\<forall>(n, v) \<in> set pairs. n \<noteq> [] \<and> n \<in> set known) \<and> m' = m ++ map_of (rev pairs))"
proof (induction known m args rule: parse_args.induct)
  case (1 known m)
  have "concat (map (\<lambda>(n, v). [''--'' @ n, v]) pairs) = [] \<longleftrightarrow> pairs = []" for pairs :: "(string \<times> string) list"
    by (cases pairs) auto
  then show ?case by (auto simp: eq_commute [of "[]"])
next
  case (2 known m a rest)
  let ?n = "drop 2 a"
  let ?ok = "a = ''--'' @ ?n \<and> ?n \<noteq> [] \<and> ?n \<in> set known"
  have split: "a # rest = concat (map (\<lambda>(n, v). [''--'' @ n, v]) pairs) \<longleftrightarrow>
      (\<exists>v rest' ps. rest = v # rest' \<and> pairs = (?n, v) # ps \<and> a = ''--'' @ ?n \<and>
        rest' = concat (map (\<lambda>(n, v). [''--'' @ n, v]) ps))" for pairs
    by (cases pairs) auto
  show ?case
  proof (cases "?ok \<and> rest \<noteq> []")
    case True
    then obtain v rest' where r: "rest = v # rest'" by (cases rest) auto
    from True have s: "starts_with a ''--''" using starts_with_dashes by blast
    have IH: "parse_args known (m(?n \<mapsto> v)) rest' = Inr m' \<longleftrightarrow>
       (\<exists>pairs. rest' = concat (map (\<lambda>(n, v). [''--'' @ n, v]) pairs) \<and>
        (\<forall>(n, v) \<in> set pairs. n \<noteq> [] \<and> n \<in> set known) \<and> m' = m(?n \<mapsto> v) ++ map_of (rev pairs))"
      using s True r by (intro 2) (simp_all add: list_ex_iff)
    have "parse_args known m (a # rest) = parse_args known (m(?n \<mapsto> v)) rest'"
      using s True r by (auto simp: Let_def list_ex_iff)
    moreover have "(\<exists>pairs. a # rest = concat (map (\<lambda>(n, v). [''--'' @ n, v]) pairs) \<and>
        (\<forall>(n, v) \<in> set pairs. n \<noteq> [] \<and> n \<in> set known) \<and> m' = m ++ map_of (rev pairs)) \<longleftrightarrow>
       (\<exists>pairs. rest' = concat (map (\<lambda>(n, v). [''--'' @ n, v]) pairs) \<and>
        (\<forall>(n, v) \<in> set pairs. n \<noteq> [] \<and> n \<in> set known) \<and> m' = m(?n \<mapsto> v) ++ map_of (rev pairs))"
      (is "?l = ?r")
    proof
      assume ?r
      then obtain ps where "rest' = concat (map (\<lambda>(n, v). [''--'' @ n, v]) ps)"
        "\<forall>(n, v) \<in> set ps. n \<noteq> [] \<and> n \<in> set known" "m' = m(?n \<mapsto> v) ++ map_of (rev ps)" by blast
      with True r show ?l
        unfolding split by (intro exI [of _ "(?n, v) # ps"]) (simp add: map_of_append)
    qed (unfold split, use r in \<open>auto simp: map_of_append\<close>)
    ultimately show ?thesis by (simp only: IH)
  next
    case False
    then have "parse_args known m (a # rest) \<noteq> Inr m'"
      using starts_with_dashes [of a] by (cases rest) (auto simp: Let_def list_ex_iff)
    with False show ?thesis unfolding split by auto
  qed
qed

text \<open>C36: \<open>Flags::parse\<close> accepts exactly the sequences of \<open>--name value\<close> pairs whose names are
  known and not empty; each name maps to the value given last, even a value that starts with
  dashes, and nothing else is accepted: any other command line is a \<open>UsageError\<close>.\<close>

theorem flags_parse_exact:
  "(flags_parse (program # args) known = Inr m \<longleftrightarrow>
     (\<exists>pairs. args = concat (map (\<lambda>(n, v). [''--'' @ n, v]) pairs) \<and>
        (\<forall>(n, v) \<in> set pairs. n \<noteq> [] \<and> n \<in> set known) \<and> m = map_of (rev pairs))) \<and>
   (\<forall>e. flags_parse (program # args) known = Inl e \<longrightarrow> is_UsageError e)"
  using parse_args_Inr [of known "\<lambda>_. None" args m] parse_args_Inl [of known "\<lambda>_. None" args]
  by (simp add: flags_parse_def)

theorem flags_parse_exact_witness:
  "flags_parse [''rig'', ''--rate'', ''--5''] [''rate''] = Inr [''rate'' \<mapsto> ''--5'']"
proof -
  have "\<exists>pairs. [''--rate'', ''--5''] = concat (map (\<lambda>(n, v). [''--'' @ n, v]) pairs) \<and>
      (\<forall>(n, v) \<in> set pairs. n \<noteq> [] \<and> n \<in> set [''rate'']) \<and> [''rate'' \<mapsto> ''--5''] = map_of (rev pairs)"
    by (intro exI [of _ "[(''rate'', ''--5'')]"]) simp
  with flags_parse_exact show ?thesis by blast
qed

text \<open>A number flag that is present is never silently replaced or wrapped: \<open>number\<close> returns the
  exact value of a non-empty digit string below 2^64, and a \<open>UsageError\<close> for every other value;
  the fallback is used only for an absent flag.\<close>

theorem number_exact:
  "(number m name fallback = Inr n \<longleftrightarrow>
     (case m name of
        None \<Rightarrow> n = fallback
      | Some v \<Rightarrow> v \<noteq> [] \<and> (\<forall>c \<in> set v. is_digit c) \<and> dec_value 0 v = unat n)) \<and>
   (\<forall>e. number m name fallback = Inl e \<longrightarrow> is_UsageError e)"
proof (cases "m name")
  case (Some v)
  have n: "unat n < 2 ^ 64" by simp
  show ?thesis
  proof (cases "v \<noteq> [] \<and> (\<forall>c \<in> set v. is_digit c)")
    case True
    then have "parse_u64 0 v = (if dec_value 0 v < 2 ^ 64 then Value (of_nat (dec_value 0 v)) else Too_Large)"
      using parse_u64_digits [of v 0] by simp
    then show ?thesis using True Some n unat_u64_of_nat [of "dec_value 0 v"]
      by (auto simp: number_def word_unat_eq_iff)
  next
    case False
    then show ?thesis using parse_u64_not_digit [of v 0] Some
      by (cases "v = []") (auto simp: number_def split: decimal.splits)
  qed
qed (auto simp: number_def)

theorem number_exact_witness:
  "number [''n'' \<mapsto> ''18446744073709551615''] ''n'' 7 = Inr (- 1) \<and>
   number [''n'' \<mapsto> ''18446744073709551616''] ''n'' 7 \<noteq> Inr 0"
  using number_exact [of "[''n'' \<mapsto> ''18446744073709551615'']" "''n''" 7 "- 1"]
    number_exact [of "[''n'' \<mapsto> ''18446744073709551616'']" "''n''" 7 0]
  by (simp add: is_digit_def digit_val_def unsigned_minus_1_eq_mask mask_eq_exp_minus_1)

text \<open>A real flag that is present yields a finite double or a \<open>UsageError\<close>, and what a plain
  decimal number yields is its value rounded to the nearest double.\<close>

lemma real_flag_finite:
  "real_flag m name fallback = Inr d \<Longrightarrow> m name \<noteq> None \<Longrightarrow> d_isfinite d"
  by (auto simp: real_flag_def split: option.splits if_splits)

end
