(* ===== verification/Listener.thy ===== *)
theory Listener
  imports Socket Endpoint
begin

text \<open>
  Addresses and listening sockets: \<open>src/core/address.hpp\<close>, \<open>address.cpp\<close>, \<open>src/core/listener.hpp\<close> and
  \<open>listener.cpp\<close>. A \<open>sockaddr_storage\<close> is its family, its port and the other bytes. Three services of
  the C library are arguments: \<open>getaddrinfo\<close> (the text of the failure, or the list of addresses), \<open>getnameinfo\<close>, and
  how the bytes that \<open>getsockname\<close> writes read as an address. The messages show an address as
  \<open>w_name\<close> prints it, which is \<open>address_str\<close>. Shown: whatever fails, no descriptor but the listener's stays
  open, and the placeholder port of \<open>bind_ephemeral\<close> never reaches the kernel.
\<close>

subsection \<open>Addresses\<close>

datatype family = AF_INET | AF_INET6 | AF_Other nat

record socket_address =
  sa_family :: family
  sa_port :: u16
  sa_rest :: string

fun has_port :: "family \<Rightarrow> bool" where
  "has_port (AF_Other _) = False"
| "has_port _ = True"

definition with_port :: "socket_address \<Rightarrow> u16 \<Rightarrow> socket_address result" where
  "with_port address port =
     (case sa_family address of
        AF_Other n \<Rightarrow> Inl (IoError (''cannot set a port on address family '' @ string_of_nat n))
      | _ \<Rightarrow> Inr (address\<lparr>sa_port := port\<rparr>))"

definition address_str :: "(socket_address \<Rightarrow> (string \<times> string) option) \<Rightarrow> socket_address \<Rightarrow> string" where
  "address_str getnameinfo address =
     (case getnameinfo address of
        None \<Rightarrow> ''<unprintable address>''
      | Some (host, port) \<Rightarrow>
          if sa_family address = AF_INET6 then ''['' @ host @ '']:'' @ port
          else host @ '':'' @ port)"

type_synonym resolver = "string \<Rightarrow> string \<Rightarrow> string + socket_address list"

text \<open>\<open>c_str()\<close> hands over the characters up to the first NUL.\<close>

definition c_str :: "string \<Rightarrow> string" where
  "c_str s = takeWhile (\<lambda>c. c \<noteq> CHR 0x00) s"

definition resolve :: "resolver \<Rightarrow> endpoint \<Rightarrow> socket_address list result" where
  "resolve getaddrinfo e =
     (case getaddrinfo (c_str (ep_host e)) (string_of_nat (unat (ep_port e))) of
        Inl why \<Rightarrow> Inl (IoError (''cannot resolve '' @ endpoint_str e @ '': '' @ why))
      | Inr addresses \<Rightarrow>
          if addresses = [] then Inl (IoError (''resolved '' @ endpoint_str e @ '' to no addresses''))
          else Inr addresses)"

subsection \<open>Binding\<close>

definition bind_one :: "socket_address \<Rightarrow> int \<Rightarrow> (socket_address, nat) op" where
  "bind_one address backlog =
     op_then (checked_call (describe ''cannot create a socket for'' address)) (\<lambda>fd.
     op_then (log_action (Opened fd)) (\<lambda>_.
     op_then (adopt fd) (\<lambda>_.
       owning fd (
         op_then (checked_call (because ''setsockopt(SO_REUSEADDR)'')) (\<lambda>_.
         op_then (log_action (Reusing fd)) (\<lambda>_.
         op_then (checked_call (describe ''cannot bind'' address)) (\<lambda>_.
         op_then (log_action (Bound fd address)) (\<lambda>_.
         op_then (checked_call (describe ''cannot listen on'' address)) (\<lambda>_.
         op_then (log_action (Listening fd backlog)) (\<lambda>_. return_op fd))))))))))"

type_synonym sockname = "string \<Rightarrow> socket_address"

definition bound_port :: "sockname \<Rightarrow> (socket_address, u16) op" where
  "bound_port sockname =
     op_then syscall (\<lambda>r. case r of
         Fail e \<Rightarrow> throws (\<lambda>w. IoError (because ''getsockname'' e w))
       | Done _ bytes \<Rightarrow>
           (case sa_family (sockname bytes) of
              AF_Other _ \<Rightarrow> throw (IoError ''bound an address family with no port'')
            | _ \<Rightarrow> return_op (sa_port (sockname bytes))))"

record listener =
  l_fd :: nat
  l_address :: socket_address
  l_port :: u16

text \<open>The body of the \<open>try\<close> in \<open>bind_first_that_works\<close>, then its loop over the addresses.\<close>

definition listen_on :: "sockname \<Rightarrow> socket_address \<Rightarrow> int \<Rightarrow> (socket_address, listener) op" where
  "listen_on sockname address backlog =
     op_then (bind_one address backlog) (\<lambda>fd.
       owning fd (
         op_then (bound_port sockname) (\<lambda>port.
         op_then (lift (with_port address port)) (\<lambda>a.
           return_op \<lparr>l_fd = fd, l_address = a, l_port = port\<rparr>))))"

fun bind_first_that_works ::
  "sockname \<Rightarrow> string \<Rightarrow> socket_address list \<Rightarrow> int \<Rightarrow> (socket_address, listener) op" where
  "bind_first_that_works sockname failures [] backlog = throw (IoError failures)"
| "bind_first_that_works sockname failures (address # rest) backlog =
     catching is_IoError (listen_on sockname address backlog)
       (\<lambda>e. bind_first_that_works sockname (add_failure failures e) rest backlog)"

definition bind_listener ::
  "resolver \<Rightarrow> sockname \<Rightarrow> endpoint \<Rightarrow> int \<Rightarrow> (socket_address, listener) op" where
  "bind_listener getaddrinfo sockname e backlog =
     op_then (lift (resolve getaddrinfo e)) (\<lambda>addresses.
       bind_first_that_works sockname [] addresses backlog)"

fun zero_ports :: "socket_address list \<Rightarrow> socket_address list result" where
  "zero_ports [] = Inr []"
| "zero_ports (address # rest) =
     and_then (with_port address 0) (\<lambda>a. and_then (zero_ports rest) (\<lambda>as. Inr (a # as)))"

definition bind_ephemeral ::
  "resolver \<Rightarrow> sockname \<Rightarrow> string \<Rightarrow> int \<Rightarrow> (socket_address, listener) op" where
  "bind_ephemeral getaddrinfo sockname host backlog =
     op_then (lift (make_endpoint host 1)) (\<lambda>e.
     op_then (lift (resolve getaddrinfo e)) (\<lambda>addresses.
     op_then (lift (zero_ports addresses)) (\<lambda>addresses.
       bind_first_that_works sockname [] addresses backlog)))"

definition kDefaultBacklog :: int where
  "kDefaultBacklog = 128"

subsection \<open>Accepting\<close>

definition accept_turn :: "'addr \<Rightarrow> unit \<Rightarrow> ('addr, (unit, nat) turn) op" where
  "accept_turn address u =
     op_then syscall (\<lambda>r. case r of
         Done fd _ \<Rightarrow>
           op_then (log_action (Opened fd)) (\<lambda>_. op_then (adopt fd) (\<lambda>fd. return_op (Exit fd)))
       | Fail e \<Rightarrow> if e = EINTR then return_op (Again ()) 
             else throws (\<lambda>w. IoError (describe ''accept on'' address e w)))"

definition accept :: "'addr \<Rightarrow> ('addr, nat) op" where
  "accept address = iterate (accept_turn address) ()"

subsection \<open>Properties\<close>

lemma checked_eq:
  "checked_call m w =
     (case w_kernel w of
        [] \<Rightarrow> (Inl Blocked, w)
      | Fail e # rs \<Rightarrow> (Inl (IoError (m e (w\<lparr>w_kernel := rs\<rparr>))), w\<lparr>w_kernel := rs\<rparr>)
      | Done n s # rs \<Rightarrow> (Inr n, w\<lparr>w_kernel := rs\<rparr>))"
  by (auto simp: checked_call_def op_then_def syscall_def op_simps split: list.splits sysret.splits)

text \<open>What an attempt at one address leaves behind.\<close>

definition tidy :: "int \<Rightarrow> socket_address set \<Rightarrow> listener result \<Rightarrow> socket_address action list \<Rightarrow> bool" where
  "tidy backlog addresses r acts \<longleftrightarrow>
     (case r of
        Inr l \<Rightarrow> opened acts = closed_fds acts @ [l_fd l] \<and> Listening (l_fd l) backlog \<in> set acts \<and>
          (\<exists>a \<in> addresses. Bound (l_fd l) a \<in> set acts \<and> with_port a (l_port l) = Inr (l_address l))
      | Inl e \<Rightarrow> e = Blocked \<or> is_IoError e \<and> opened acts = closed_fds acts) \<and>
     (\<forall>fd a. Bound fd a \<in> set acts \<longrightarrow> a \<in> addresses)"

lemma listen_on_tidy:
  assumes "listen_on sockname a backlog w = (r, w')"
  shows "\<exists>acts. w_log w' = w_log w @ acts \<and> tidy backlog {a} r acts"
  using assms
  unfolding listen_on_def bind_one_def adopt_def disable_sigpipe_def bound_port_def tidy_def
  by (auto simp: op_then_def owning_def catching_def checked_eq syscall_def op_simps with_port_def
      split: list.splits sysret.splits family.splits)

lemma bind_first_tidy:
  assumes "bind_first_that_works sockname failures addresses backlog w = (r, w')"
  shows "\<exists>acts. w_log w' = w_log w @ acts \<and> tidy backlog (set addresses) r acts"
  using assms
proof (induction sockname failures addresses backlog arbitrary: w rule: bind_first_that_works.induct)
  case (1 sockname failures backlog)
  then show ?case by (auto simp: throw_def tidy_def)
next
  case (2 sockname failures a rest backlog)
  obtain c v where c: "listen_on sockname a backlog w = (c, v)" by fastforce
  from listen_on_tidy [OF c] obtain acts where a: "w_log v = w_log w @ acts" "tidy backlog {a} c acts" by blast
  show ?case
  proof (cases "\<exists>e. c = Inl e \<and> is_IoError e")
    case True
    then obtain e where e: "c = Inl e" "is_IoError e" by blast
    then have "e \<noteq> Blocked" by auto
    have "bind_first_that_works sockname (add_failure failures e) rest backlog v = (r, w')"
      using 2(2) c e by (simp add: catching_def)
    from 2(1) [OF this] obtain acts2 where "w_log w' = w_log v @ acts2"
      "tidy backlog (set rest) r acts2" by blast
    with a e \<open>e \<noteq> Blocked\<close> show ?thesis
      by (intro exI [of _ "acts @ acts2"]) (fastforce simp: tidy_def split: sum.splits)
  next
    case False
    then have "r = c" "w' = v" using 2(2) c by (auto simp: catching_def split: sum.splits if_splits)
    with a show ?thesis by (intro exI [of _ acts]) (auto simp: tidy_def split: sum.splits)
  qed
qed

text \<open>The port is the one the kernel gave to \<open>getsockname\<close>, the last call of an attempt that succeeds.\<close>

lemma well_behaved_listen_on [behaved]: "well_behaved (listen_on sockname a backlog)"
  unfolding listen_on_def bind_one_def bound_port_def
  by (auto intro!: behaved split: sysret.split family.split)

definition reported :: "sockname \<Rightarrow> sysret list \<Rightarrow> listener \<Rightarrow> bool" where
  "reported sockname script l \<longleftrightarrow>
     (\<exists>used n bytes. script = used @ [Done n bytes] \<and> l_port l = sa_port (sockname bytes) \<and>
       has_port (sa_family (sockname bytes)))"

lemma reported_more: "reported sockname script l \<Longrightarrow> reported sockname (before @ script) l"
  unfolding reported_def by (metis append_assoc)

lemma listen_on_reported:
  assumes "listen_on sockname a backlog w = (Inr l, w')"
  shows "\<exists>script. w_kernel w = script @ w_kernel w' \<and> reported sockname script l"
proof -
  from assms obtain fd v port u where "bind_one a backlog w = (Inr fd, v)" and
    port: "bound_port sockname v = (Inr port, u)" and l: "l_port l = port" and w': "w_kernel w' = w_kernel u"
    unfolding listen_on_def owning_def catching_def
    by (auto elim!: op_then_InrE simp: op_then_def op_simps split: prod.splits sum.splits if_splits)
  moreover have "well_behaved (bind_one a backlog)" unfolding bind_one_def by (intro behaved)
  ultimately obtain used where u: "w_kernel w = used @ w_kernel v"
    using well_behavedD unfolding follows_def by blast
  from port obtain n bytes where "w_kernel v = Done n bytes # w_kernel u" "port = sa_port (sockname bytes)"
    "has_port (sa_family (sockname bytes))"
    by (auto simp: bound_port_def op_then_def syscall_def op_simps split: list.splits sysret.splits family.splits)
  with u l w' show ?thesis unfolding reported_def by (intro exI [of _ "used @ [Done n bytes]"]) auto
qed

lemma bind_first_reported:
  assumes "bind_first_that_works sockname failures addresses backlog w = (Inr l, w')"
  shows "\<exists>script. w_kernel w = script @ w_kernel w' \<and> reported sockname script l"
  using assms
proof (induction sockname failures addresses backlog arbitrary: w rule: bind_first_that_works.induct)
  case (1 sockname failures backlog)
  then show ?case by (simp add: throw_def)
next
  case (2 sockname failures a rest backlog)
  obtain c v where c: "listen_on sockname a backlog w = (c, v)" by fastforce
  show ?case
  proof (cases c)
    case (Inl e)
    with 2(2) c have "bind_first_that_works sockname (add_failure failures e) rest backlog v = (Inr l, w')"
      by (auto simp: catching_def split: if_splits)
    from 2(1) [OF this] obtain script where "w_kernel v = script @ w_kernel w'" "reported sockname script l" by blast
    moreover from well_behavedD [OF well_behaved_listen_on c] obtain used where "w_kernel w = used @ w_kernel v"
      by (auto simp: follows_def)
    ultimately show ?thesis using reported_more by (intro exI [of _ "used @ script"]) auto
  next
    case (Inr x)
    with 2(2) c listen_on_reported [of sockname a backlog w x v] show ?thesis by (auto simp: catching_def)
  qed
qed

text \<open>C24: A listener owns the one descriptor that is open. Whatever the kernel answers for whichever address, an
  attempt that fails closes what it opened; when \<open>bind_first_that_works\<close> returns, exactly the descriptor of
  the listener stays open, it was bound to one of the addresses and listens with the backlog asked
  for, and \<open>address()\<close> is that address with the port that the kernel reported in its answer to \<open>getsockname\<close>, the
  last answer used, which \<open>port()\<close> returns as well; otherwise it is an \<open>IoError\<close> and nothing stays open.\<close>

theorem listener_owns_its_socket:
  assumes "bind_first_that_works sockname [] addresses backlog w = (r, w')"
  shows "\<exists>acts. w_log w' = w_log w @ acts \<and>
    (case r of
       Inr l \<Rightarrow> opened acts = closed_fds acts @ [l_fd l] \<and> Listening (l_fd l) backlog \<in> set acts \<and>
         (\<exists>a \<in> set addresses. Bound (l_fd l) a \<in> set acts \<and> with_port a (l_port l) = Inr (l_address l)) \<and>
         (\<exists>used n bytes. w_kernel w = used @ Done n bytes # w_kernel w' \<and> l_port l = sa_port (sockname bytes) \<and>
           has_port (sa_family (sockname bytes)))
     | Inl e \<Rightarrow> e = Blocked \<or> is_IoError e \<and> opened acts = closed_fds acts)"
proof (cases r)
  case (Inl e)
  with bind_first_tidy [OF assms] show ?thesis by (auto simp: tidy_def)
next
  case (Inr l)
  with bind_first_reported [of sockname "[]" addresses backlog w l w'] assms
  have "\<exists>used n bytes. w_kernel w = used @ Done n bytes # w_kernel w' \<and> l_port l = sa_port (sockname bytes) \<and>
      has_port (sa_family (sockname bytes))" by (auto simp: reported_def)
  with bind_first_tidy [OF assms] Inr show ?thesis by (auto simp: tidy_def)
qed

definition any_v4 :: socket_address where
  "any_v4 = \<lparr>sa_family = AF_INET, sa_port = 0, sa_rest = ''127.0.0.1''\<rparr>"

definition chosen_port :: sockname where
  "chosen_port bytes = any_v4\<lparr>sa_port := 40000\<rparr>"

definition busy_then_bound :: "socket_address world" where
  "busy_then_bound = \<lparr>w_clock = test_clock, w_reads = 0, w_kernel =
     [Done 3 '''', Done 0 '''', Done 0 '''', Fail (Errno 98),
      Done 4 '''', Done 0 '''', Done 0 '''', Done 0 '''', Done 0 '''', Done 0 ''''], w_log = [], w_strerror = test_strerror, w_name = sa_rest\<rparr>"

theorem listener_owns_its_socket_witness:
  "\<exists>l w'. bind_first_that_works chosen_port [] [any_v4, any_v4] 128 busy_then_bound = (Inr l, w') \<and>
     opened (w_log w') = closed_fds (w_log w') @ [l_fd l] \<and> l_port l = 40000"
proof -
  obtain l w' where r: "bind_first_that_works chosen_port [] [any_v4, any_v4] 128 busy_then_bound = (Inr l, w')"
    by (simp add: listen_on_def bind_one_def adopt_def disable_sigpipe_def bound_port_def op_then_def owning_def
        catching_def checked_eq syscall_def op_simps with_port_def busy_then_bound_def chosen_port_def any_v4_def)
  from listener_owns_its_socket [OF r] have "opened (w_log w') = closed_fds (w_log w') @ [l_fd l]" "l_port l = 40000"
    by (auto simp: busy_then_bound_def chosen_port_def)
  with r show ?thesis by blast
qed

lemma zero_ports_zero: "zero_ports addresses = Inr as \<Longrightarrow> a \<in> set as \<Longrightarrow> sa_port a = 0"
  by (induction addresses arbitrary: as)
    (auto simp: and_then_Inr_iff with_port_def split: family.splits)

text \<open>The placeholder port is never used. \<open>bind_ephemeral\<close> resolves the host with port 1, because an
  \<open>Endpoint\<close> has no port 0; whatever the resolver returns, every address that reaches \<open>bind\<close> has port
  0, so that the kernel chooses, and a host that makes no \<open>Endpoint\<close> is refused before any system
  call.\<close>

theorem ephemeral_port_is_the_kernels:
  assumes "bind_ephemeral getaddrinfo sockname host backlog w = (r, w')"
  shows "\<exists>acts. w_log w' = w_log w @ acts \<and> (\<forall>fd a. Bound fd a \<in> set acts \<longrightarrow> sa_port a = 0) \<and>
    (\<forall>e. make_endpoint host 1 = Inl e \<longrightarrow> r = Inl e \<and> w' = w)"
proof (cases "\<exists>as. \<exists>e. make_endpoint host 1 = Inr e \<and> and_then (resolve getaddrinfo e) zero_ports = Inr as")
  case True
  then obtain e addresses as where e: "make_endpoint host 1 = Inr e" "resolve getaddrinfo e = Inr addresses"
    "zero_ports addresses = Inr as" by (auto simp: and_then_Inr_iff)
  with assms have "bind_first_that_works sockname [] as backlog w = (r, w')"
    by (simp add: bind_ephemeral_def op_then_def lift_def)
  from bind_first_tidy [OF this] obtain acts where "w_log w' = w_log w @ acts" "tidy backlog (set as) r acts"
    by blast
  then show ?thesis using zero_ports_zero [OF e(3)] e(1) by (auto simp: tidy_def)
next
  case False
  then have "w' = w" "\<forall>e. make_endpoint host 1 = Inl e \<longrightarrow> r = Inl e"
    using assms by (auto simp: bind_ephemeral_def op_then_def lift_def split: sum.splits)
  then show ?thesis by simp
qed

theorem ephemeral_port_is_the_kernels_witness:
  "fst (bind_ephemeral (\<lambda>_ _. Inl ''unknown'') chosen_port '''' 128 busy_then_bound) =
    Inl (InvalidEndpoint ''endpoint host must not be empty'')"
proof -
  have m: "make_endpoint '''' 1 = Inl (InvalidEndpoint ''endpoint host must not be empty'')"
    by (simp add: make_endpoint_def)
  obtain r w' where r: "bind_ephemeral (\<lambda>_ _. Inl ''unknown'') chosen_port '''' 128 busy_then_bound = (r, w')"
    by fastforce
  from ephemeral_port_is_the_kernels [OF r] m show ?thesis by (auto simp: r)
qed

subsection \<open>Accepting, turn by turn\<close>

lemma well_behaved_accept_turn [behaved]: "well_behaved (accept_turn address u)"
  unfolding accept_turn_def by (auto intro!: behaved split: sysret.split)

lemma consumes_accept: "consumes (accept_turn address)"
  unfolding accept_turn_def by (rule consumes_eats) (auto intro!: eats_syscall_then behaved split: sysret.split)

lemma well_behaved_accept [behaved]: "well_behaved (accept address)"
  unfolding accept_def by (intro behaved)

lemma accept_step:
  "accept address w =
     (case w_kernel w of
        [] \<Rightarrow> (Inl Blocked, w)
      | Fail e # rs \<Rightarrow>
          if e = EINTR then accept address (w\<lparr>w_kernel := rs\<rparr>) 
          else (Inl (IoError (describe ''accept on'' address e w)), w\<lparr>w_kernel := rs\<rparr>)
      | Done fd _ # rs \<Rightarrow> adopt fd (w\<lparr>w_kernel := rs, w_log := w_log w @ [Opened fd]\<rparr>))"
  unfolding accept_def
  by (subst iterate_unfold [OF consumes_accept])
    (auto simp: accept_turn_def op_then_def syscall_def op_simps split: list.splits sysret.splits sum.splits prod.splits)

end
