(* ===== verification/Rig.thy ===== *)
theory Rig
  imports Report Flags Listener
begin

text \<open>
  The program \<open>apps/dariyanaap.cpp\<close>: the plan it makes of its flags, the two kinds of run, the files it
  writes, what it prints and its exit code. The file system is a map from paths to contents, of which the paths in
  \<open>can_open\<close> can be opened; a file that exists can be read.
\<close>

definition rig_flag_names :: "string list" where
  "rig_flag_names = [''target'', ''connections'', ''duration'', ''warmup'', ''protocol'', ''payload'', ''path'',
     ''read-timeout'', ''connect-timeout'', ''csv-dir'', ''rate'', ''timeseries'']"

text \<open>\<open>Millis(static_cast<int64_t>(flags.number(...)))\<close>.\<close>

definition millis_flag :: "flags \<Rightarrow> string \<Rightarrow> u64 \<Rightarrow> millis result" where
  "millis_flag flags name fallback = and_then (number flags name fallback) (\<lambda>v. Inr (sint v))"

definition rig_plan :: "flags \<Rightarrow> plan result" where
  "rig_plan flags =
     (and_then (endpoint_parse (text_flag flags ''target'' '''')) (\<lambda>target.
        and_then (number flags ''connections'' 1) (\<lambda>connections.
        and_then (millis_flag flags ''duration'' 10000) (\<lambda>duration.
        and_then (millis_flag flags ''warmup'' 0) (\<lambda>warmup.
        and_then (millis_flag flags ''read-timeout'' 1000) (\<lambda>read_timeout.
        and_then (millis_flag flags ''connect-timeout'' 1000) (\<lambda>connect_timeout.
        and_then (number flags ''timeseries'' 0) (\<lambda>timeseries.
          if connections = 0 then Inl (UsageError ''--connections must be at least 1'')
          else if duration \<le> 0 then Inl (UsageError ''--duration must be at least 1ms'')
          else Inr \<lparr>pl_target = target, pl_connections = unat connections, pl_duration = duration,
            pl_warmup = warmup,
            pl_worker = default_worker_config\<lparr>wc_read_timeout := read_timeout,
              wc_write_timeout := read_timeout, wc_connect_timeout := connect_timeout\<rparr>,
            pl_timeseries = (timeseries \<noteq> 0)\<rparr>))))))))"

definition rig_protocol :: "flags \<Rightarrow> endpoint \<Rightarrow> protocol result" where
  "rig_protocol flags target =
     (let name = text_flag flags ''protocol'' ''raw'' in
      if name = ''raw'' then
        and_then (number flags ''payload'' 64) (\<lambda>n.
        and_then (make_raw_echo (unat n)) (\<lambda>payload. Inr (raw_echo payload)))
      else if name = ''http'' then make_http11_get (ep_host target) (text_flag flags ''path'' ''/'')
      else Inl (UsageError (''--protocol must be raw or http, got '' @ in_quotes name)))"

subsection \<open>The files of a run\<close>

definition summary_prefix_header :: string where
  "summary_prefix_header =
     ''target,protocol,mode,connections_requested,connections_started,'' @
     ''connections_opened,clock_resolution_ns,''"

definition summary_prefix ::
  "plan \<Rightarrow> flags \<Rightarrow> string \<Rightarrow> nat \<Rightarrow> u64 \<Rightarrow> nanos \<Rightarrow> string" where
  "summary_prefix plan flags mode started opens resolution =
     quoted (endpoint_str (pl_target plan)) @ [comma] @
     quoted (text_flag flags ''protocol'' ''raw'') @ [comma] @
     quoted mode @ [comma] @
     string_of_nat (pl_connections plan) @ [comma] @ string_of_nat started @ [comma] @
     print_u64 opens @ [comma] @ string_of_int resolution @ [comma]"

definition summary_text ::
  "bool \<Rightarrow> plan \<Rightarrow> flags \<Rightarrow> string \<Rightarrow> nat \<Rightarrow> u64 \<Rightarrow> nanos \<Rightarrow> summary option \<Rightarrow> string" where
  "summary_text fresh plan flags mode started opens resolution latency =
     (if fresh then summary_prefix_header @ write_summary_header else []) @
     summary_prefix plan flags mode started opens resolution @
     (case latency of Some s \<Rightarrow> write_summary_row s | None \<Rightarrow> write_absent_summary_row)"

definition contents :: "files \<Rightarrow> string \<Rightarrow> string" where
  "contents files path = (case files path of None \<Rightarrow> [] | Some text \<Rightarrow> text)"

definition put_file :: "string \<Rightarrow> string \<Rightarrow> unit job" where
  "put_file path content sh = (Inr (), sh\<lparr>sh_files := (sh_files sh)(path \<mapsto> content)\<rparr>)"

text \<open>\<open>ofstream\<close>: the check that follows the opening, and for the files that are not appended to their truncation.\<close>

definition open_path :: "(string \<Rightarrow> bool) \<Rightarrow> string \<Rightarrow> unit job" where
  "open_path can_open path = job_of (throw_unless (can_open path) (IoError (''cannot write '' @ path)))"

definition open_truncated :: "(string \<Rightarrow> bool) \<Rightarrow> string \<Rightarrow> unit job" where
  "open_truncated can_open path = job_then (open_path can_open path) (\<lambda>_. put_file path [])"

definition append_summary ::
  "string \<Rightarrow> run_result \<Rightarrow> plan \<Rightarrow> flags \<Rightarrow> string \<Rightarrow> nat \<Rightarrow> u64 \<Rightarrow> nanos \<Rightarrow> unit job" where
  "append_summary path run plan flags mode started opens resolution sh =
     put_file path (contents (sh_files sh) path @
       summary_text (sh_files sh path = None) plan flags mode started opens resolution (r_latency run)) sh"

definition write_csv ::
  "(string \<Rightarrow> bool) \<Rightarrow> string \<Rightarrow> run_result \<Rightarrow> histogram \<Rightarrow> plan \<Rightarrow> flags \<Rightarrow> string \<Rightarrow> nat \<Rightarrow> u64 \<Rightarrow> nanos
    \<Rightarrow> histogram list \<Rightarrow> unit job" where
  "write_csv can_open directory run h plan flags mode started opens resolution seconds =
     (let summary_path = directory @ ''/summary.csv'';
          histogram_path = directory @ ''/histogram.csv'';
          series_path = directory @ ''/timeseries.csv'' in
      job_then (open_path can_open summary_path) (\<lambda>_.
      job_then (append_summary summary_path run plan flags mode started opens resolution) (\<lambda>_.
      job_then (open_truncated can_open histogram_path) (\<lambda>_.
      job_then (put_file histogram_path (write_histogram h)) (\<lambda>_.
      job_then (put_out (''  wrote '' @ summary_path @ '' and '' @ histogram_path @ [newline])) (\<lambda>_.
        if seconds = [] then job_of (Inr ())
        else
          job_then (open_truncated can_open series_path) (\<lambda>_.
          job_then (job_of (write_timeseries seconds)) (\<lambda>series.
          job_then (put_file series_path series) (\<lambda>_.
            put_out (''  wrote '' @ series_path @ '' ('' @ string_of_nat (length seconds) @ '' seconds)'' @
              [newline]))))))))))"

subsection \<open>The program\<close>

definition rig_closed ::
  "resolver \<Rightarrow> protocol \<Rightarrow> plan \<Rightarrow> flags \<Rightarrow> socket_address setting \<Rightarrow> (string \<Rightarrow> bool) \<Rightarrow> int job" where
  "rig_closed getaddrinfo protocol plan flags env can_open =
     job_then (job_of (run_closed_loop (resolve getaddrinfo) protocol plan env)) (\<lambda>run.
     job_then (put_out (report (cl_result run) plan ''closed-loop'' (cl_requested run) (cl_started run)
       (cl_opened run) (cl_resolution run))) (\<lambda>_.
     job_then
       (if has flags ''csv-dir''
        then write_csv can_open (text_flag flags ''csv-dir'' ''.'') (cl_result run) (cl_histogram run) plan flags
          ''closed-loop'' (cl_started run) (cl_opened run) (cl_resolution run) (cl_per_second run)
        else job_of (Inr ())) (\<lambda>_.
       job_of (Inr (if consistent (cl_result run) then 0 else 1)))))"

definition open_plan_of :: "plan \<Rightarrow> rate \<Rightarrow> open_plan" where
  "open_plan_of plan q =
     \<lparr>op_target = pl_target plan, op_rate = q, op_connections = pl_connections plan,
      op_duration = pl_duration plan, op_warmup = pl_warmup plan, op_worker = pl_worker plan\<rparr>"

definition rig_open ::
  "resolver \<Rightarrow> protocol \<Rightarrow> plan \<Rightarrow> flags \<Rightarrow> socket_address open_setting \<Rightarrow> (string \<Rightarrow> bool)
    \<Rightarrow> int job" where
  "rig_open getaddrinfo protocol plan flags env can_open =
     job_then (job_of (and_then (real_flag flags ''rate'' (Fin 1000)) rate_per_second)) (\<lambda>q.
     job_then (job_of (run_open_loop (resolve getaddrinfo) protocol (open_plan_of plan q) env)) (\<lambda>run.
     job_then (put_out (report (ol_result run) plan ''open-loop'' (ol_requested run) (ol_started run)
       (ol_opened run) (ol_resolution run))) (\<lambda>_.
     job_then (report_schedule run) (\<lambda>kept.
     job_then
       (if has flags ''csv-dir''
        then write_csv can_open (text_flag flags ''csv-dir'' ''.'') (ol_result run) (ol_histogram run) plan flags
          ''open-loop'' (ol_started run) (ol_opened run) (ol_resolution run) []
        else job_of (Inr ())) (\<lambda>_.
       job_of (Inr (if consistent (ol_result run) \<and> kept then 0 else 1)))))))"

definition rig_run ::
  "resolver \<Rightarrow> string list \<Rightarrow> socket_address setting \<Rightarrow> socket_address open_setting \<Rightarrow> (string \<Rightarrow> bool)
    \<Rightarrow> int job" where
  "rig_run getaddrinfo argv closed_env open_env can_open =
     job_then (job_of (flags_parse argv rig_flag_names)) (\<lambda>flags.
       if \<not> has flags ''target'' then
         job_then (put_err kUsage) (\<lambda>_. job_of (Inl (UsageError ''--target is required'')))
       else
         job_then (job_of (rig_plan flags)) (\<lambda>plan.
         job_then (job_of (rig_protocol flags (pl_target plan))) (\<lambda>protocol.
           if \<not> has flags ''rate'' then rig_closed getaddrinfo protocol plan flags closed_env can_open
           else rig_open getaddrinfo protocol plan flags open_env can_open)))"

text \<open>The two handlers of \<open>main\<close>, for a usage error and for any other \<open>Error\<close>.\<close>

definition rig_main ::
  "resolver \<Rightarrow> string list \<Rightarrow> socket_address setting \<Rightarrow> socket_address open_setting \<Rightarrow> (string \<Rightarrow> bool)
    \<Rightarrow> int job" where
  "rig_main getaddrinfo argv closed_env open_env can_open sh =
     (if wants_help argv then job_then (put_out kUsage) (\<lambda>_. job_of (Inr 0)) sh
      else case rig_run getaddrinfo argv closed_env open_env can_open sh of
          (Inl e, sh') \<Rightarrow>
            let complain = put_err (''dariyanaap: '' @ what e @ [newline]) in
            if is_UsageError e then job_then complain (\<lambda>_. job_of (Inr 2)) sh'
            else if is_Error e then job_then complain (\<lambda>_. job_of (Inr 1)) sh'
            else (Inl e, sh')
        | (Inr code, sh') \<Rightarrow> (Inr code, sh'))"

subsection \<open>Properties\<close>

lemma csv_go_append:
  "csv_go m f r rs s = Some rows \<Longrightarrow> (m = Field_Start \<longrightarrow> f = []) \<Longrightarrow>
    csv_go m f r rs (s @ t) = csv_go Field_Start [] [] (rev rows) t"
  by (induction m f r rs s rule: csv_go.induct) (auto split: if_splits csv_mode.splits)

lemma csv_read_more:
  assumes "csv_read s = Some rows" and "vs \<noteq> []"
  shows "csv_read (s @ csv_line (map quoted vs)) = Some (rows @ [vs])"
  using csv_go_append [of Field_Start "[]" "[]" "[]" s rows "csv_line (map quoted vs)"] assms
    csv_record [of vs "[]" "rev rows" "[]"] by (simp add: csv_read_def)

text \<open>The columns of the file, and the fields of the row of a run.\<close>

definition sweep_columns :: "string list" where
  "sweep_columns = [''target'', ''protocol'', ''mode'', ''connections_requested'', ''connections_started'',
     ''connections_opened'', ''clock_resolution_ns''] @ summary_columns"

definition sweep_fields :: "plan \<Rightarrow> flags \<Rightarrow> string \<Rightarrow> nat \<Rightarrow> u64 \<Rightarrow> nanos \<Rightarrow> summary option \<Rightarrow> string list" where
  "sweep_fields plan flags mode started opens resolution latency =
     [endpoint_str (pl_target plan), text_flag flags ''protocol'' ''raw'', mode,
      string_of_nat (pl_connections plan), string_of_nat started, print_u64 opens, string_of_int resolution] @
     (case latency of Some s \<Rightarrow> summary_fields s | None \<Rightarrow> absent_fields)"

lemma map_quoted_plain: "\<forall>v \<in> set vs. plain v \<Longrightarrow> map quoted vs = vs"
  by (intro map_idI) (simp add: quoted_plain)

lemma summary_plain: "map quoted (summary_fields s) = summary_fields s" "summary_fields s \<noteq> []"
  "map quoted absent_fields = absent_fields" "absent_fields \<noteq> []"
proof -
  show "map quoted (summary_fields s) = summary_fields s"
    by (rule map_quoted_plain) (simp add: summary_fields_def)
  show "map quoted absent_fields = absent_fields"
    by (rule map_quoted_plain) (simp add: absent_fields_def)
qed (simp_all add: summary_fields_def absent_fields_def)

lemma sweep_header_line: "summary_prefix_header @ write_summary_header = csv_line (map quoted sweep_columns)"
proof -
  have "\<forall>v \<in> set sweep_columns. plain v"
    by (simp add: sweep_columns_def summary_columns_def plain_def csv_chars)
  from map_quoted_plain [OF this] show ?thesis
    by (simp add: write_summary_header_line summary_prefix_header_def sweep_columns_def summary_columns_def comma_def)
qed

lemma csv_line_front: "vs \<noteq> [] \<Longrightarrow> csv_line (v # vs) = v @ comma # csv_line vs"
  by (cases vs) simp_all

lemma sweep_row_line:
  "summary_prefix plan flags mode started opens resolution @
     (case latency of Some s \<Rightarrow> write_summary_row s | None \<Rightarrow> write_absent_summary_row) =
   csv_line (map quoted (sweep_fields plan flags mode started opens resolution latency))"
proof -
  have q: "quoted (string_of_nat n) = string_of_nat n" "quoted (print_u64 w) = print_u64 w"
    "quoted (string_of_int i) = string_of_int i" for n w i
    by (simp_all add: quoted_plain)
  show ?thesis
    by (cases latency)
      (simp_all add: sweep_fields_def summary_prefix_def csv_line_front summary_plain q write_summary_row_line
        write_absent_summary_row_line)
qed

lemma summary_text_lines:
  "summary_text fresh plan flags mode started opens resolution latency =
     (if fresh then csv_line (map quoted sweep_columns) else []) @
     csv_line (map quoted (sweep_fields plan flags mode started opens resolution latency))"
  unfolding summary_text_def by (simp add: sweep_header_line sweep_row_line flip: append_assoc)

lemma sweep_lengths: "length sweep_columns = 17" "length (sweep_fields plan flags mode started opens resolution latency) = 17"
  by (simp_all add: sweep_columns_def sweep_fields_def summary_columns_def summary_fields_def absent_fields_def
      split: option.split)

text \<open>The files a job leaves alone.\<close>

definition spares :: "string \<Rightarrow> 'a job \<Rightarrow> bool" where
  "spares path m \<longleftrightarrow> (\<forall>sh. sh_files (snd (m sh)) path = sh_files sh path)"

lemma spares_then [intro]: "spares path m \<Longrightarrow> (\<And>x. spares path (f x)) \<Longrightarrow> spares path (job_then m f)"
  by (simp add: spares_def job_then_eq split: sum.split)

lemma spares_steps [intro, simp]:
  "spares path (job_of r)" "spares path (put_out s)" "spares path (put_err s)"
  "spares path (open_path can_open p)"
  by (simp_all add: spares_def job_of_def put_out_def put_err_def open_path_def)

lemma spares_put_file [intro]: "p \<noteq> path \<Longrightarrow> spares path (put_file p s)"
  by (simp add: spares_def put_file_def)

lemma spares_truncated [intro]: "p \<noteq> path \<Longrightarrow> spares path (open_truncated can_open p)"
  unfolding open_truncated_def by auto

lemma summary_file:
  assumes "write_csv can_open directory run h plan flags mode started opens resolution seconds sh = (r, sh')"
    and "can_open (directory @ ''/summary.csv'')"
  shows "sh_files sh' (directory @ ''/summary.csv'') = Some (contents (sh_files sh) (directory @ ''/summary.csv'') @
    summary_text (sh_files sh (directory @ ''/summary.csv'') = None) plan flags mode started opens resolution
      (r_latency run))"
proof -
  let ?p = "directory @ ''/summary.csv''"
  have "\<exists>m. write_csv can_open directory run h plan flags mode started opens resolution seconds =
      job_then (open_path can_open ?p) (\<lambda>_.
      job_then (append_summary ?p run plan flags mode started opens resolution) (\<lambda>_. m)) \<and> spares ?p m"
    unfolding write_csv_def Let_def
    by (rule exI, rule conjI, rule refl)
      (auto intro!: spares_then spares_put_file spares_truncated)
  then obtain m where m: "spares ?p m" "(r, sh') = m (snd (append_summary ?p run plan flags mode started opens
      resolution sh))"
    using assms by (auto simp: job_then_eq open_path_def job_of_def throw_unless_def append_summary_def put_file_def)
  from m(1) have "sh_files sh' ?p = sh_files (snd (append_summary ?p run plan flags mode started opens resolution sh)) ?p"
    unfolding spares_def by (metis m(2) snd_conv)
  then show ?thesis by (simp add: append_summary_def put_file_def)
qed

text \<open>C26: A sweep's runs land in one table. Let \<open>summary.csv\<close> be absent, or a table that a reader of RFC 4180 finds
  complete; then after \<open>write_csv\<close>, however it ends once that file is open, the reader finds the rows
  that were there, below the header of 17 columns when the file is new, and one more row of 17 fields, whose first
  is the target as given, quoted or not; a run without a distribution gets its row too.\<close>

theorem sweep_is_one_table:
  assumes "write_csv can_open directory run h plan flags mode started opens resolution seconds sh = (r, sh')"
    and "can_open (directory @ ''/summary.csv'')"
    and "case sh_files sh (directory @ ''/summary.csv'') of None \<Rightarrow> rows = [sweep_columns]
      | Some text \<Rightarrow> csv_read text = Some rows"
  shows "\<exists>text row. sh_files sh' (directory @ ''/summary.csv'') = Some text \<and> csv_read text = Some (rows @ [row]) \<and>
    length sweep_columns = 17 \<and> length row = 17 \<and> hd row = endpoint_str (pl_target plan)"
proof -
  let ?p = "directory @ ''/summary.csv''"
  let ?row = "sweep_fields plan flags mode started opens resolution (r_latency run)"
  have row: "?row \<noteq> []" "hd ?row = endpoint_str (pl_target plan)" by (simp_all add: sweep_fields_def)
  have "csv_read (contents (sh_files sh) ?p @ summary_text (sh_files sh ?p = None) plan flags mode started opens
      resolution (r_latency run)) = Some (rows @ [?row])"
  proof (cases "sh_files sh ?p")
    case None
    have "csv_read (csv_line (map quoted sweep_columns)) = Some [sweep_columns]"
      using csv_read_more [of "[]" "[]" sweep_columns] by (simp add: csv_read_def sweep_columns_def)
    from csv_read_more [OF this row(1)] None assms(3) show ?thesis
      by (simp add: contents_def summary_text_lines)
  next
    case (Some t)
    with assms(3) csv_read_more [OF _ row(1)] show ?thesis by (simp add: contents_def summary_text_lines)
  qed
  with summary_file [OF assms(1,2)] row(2) sweep_lengths show ?thesis by blast
qed

definition empty_shell :: shell where
  "empty_shell = \<lparr>sh_files = (\<lambda>_. None), sh_out = [], sh_err = []\<rparr>"

text \<open>A resolver that knows one address.\<close>

definition local_address :: socket_address where
  "local_address = \<lparr>sa_family = AF_INET, sa_port = 8080, sa_rest = ''127.0.0.1''\<rparr>"

definition local_resolver :: resolver where
  "local_resolver host port = Inr [local_address]"

lemma resolve_local [simp]: "resolve local_resolver = (\<lambda>_. Inr [local_address])"
  by (rule ext) (simp add: resolve_def local_resolver_def)

definition test_plan :: plan where
  "test_plan = \<lparr>pl_target = \<lparr>ep_host = ''a,b'', ep_port = 80\<rparr>, pl_connections = 1, pl_duration = 1, pl_warmup = 0,
     pl_worker = default_worker_config, pl_timeseries = False\<rparr>"

theorem sweep_is_one_table_witness:
  "\<exists>text row. sh_files (snd (write_csv (\<lambda>_. True) ''out''
      \<lparr>r_attempted = 0, r_errors = no_errors, r_latency = None, r_duration = 1\<rparr>
      empty_histogram test_plan (\<lambda>_. None) ''closed-loop'' 1 1 42 [] empty_shell)) ''out/summary.csv'' = Some text \<and>
    csv_read text = Some [sweep_columns, row] \<and> hd row = ''a,b:80''"
proof -
  have s: "string_of_nat 80 = ''80''" by code_simp
  obtain r sh' where w: "write_csv (\<lambda>_. True) ''out'' \<lparr>r_attempted = 0, r_errors = no_errors, r_latency = None,
      r_duration = 1\<rparr> empty_histogram test_plan (\<lambda>_. None) ''closed-loop'' 1 1 42 [] empty_shell = (r, sh')"
    by fastforce
  have "endpoint_str (pl_target test_plan) = ''a,b:80''"
    using s by (simp add: test_plan_def endpoint_str_def is_ipv6_def)
  with sweep_is_one_table [OF w, of "[sweep_columns]"] show ?thesis
    unfolding w snd_conv by (auto simp: empty_shell_def)
qed

text \<open>C27: The accounting check of a closed-loop run never fires. On monotone clocks and with timeouts and buffers that
  fit, a closed-loop run that completes and whose files can be written ends with exit code 0: code 1
  is left for the failures of the resolver and of the files, as an \<open>Error\<close>.\<close>

theorem closed_run_exits_zero:
  assumes "resolve getaddrinfo (pl_target plan) = Inr addresses" and "clock_ok (st_clock env)" and "0 \<le> pl_warmup plan"
    and "\<forall>w \<in> set (st_threads env). setup_ok (w_clock w) (pl_worker plan) protocol addresses"
    and "add_millis (st_clock env 0) (pl_warmup plan) = Inr record_from"
    and "add_millis record_from (pl_duration plan) = Inr deadline"
    and "drive (pl_worker plan) protocol (pl_timeseries plan) addresses record_from deadline
      (spawn (pl_connections plan) (st_threads env)) = Inr workers"
    and "interleaves (st_calls env) workers" and "length (st_calls env) + length workers \<le> 2 ^ 64"
    and main: "rig_closed getaddrinfo protocol plan flags env can_open sh = (Inr code, sh')"
  shows "code = 0"
proof -
  from main obtain run where run: "run_closed_loop (resolve getaddrinfo) protocol plan env = Inr run"
    and code: "code = (if consistent (cl_result run) then 0 else 1)"
    by (auto simp: rig_closed_def job_then_eq job_of_def put_out_def split: sum.splits)
  have "consistent (cl_result run)"
    using closed_loop_accounts [OF assms(1-9) run] by blast
  with code show ?thesis by simp
qed

theorem closed_run_exits_zero_witness:
  "\<exists>sh. rig_closed local_resolver (raw_echo ''ab'') echo_plan (\<lambda>_. None) echo_setting (\<lambda>_. True) empty_shell =
    (Inr 0, sh)"
proof -
  obtain run where
    "run_closed_loop (resolve local_resolver) (raw_echo ''ab'') echo_plan echo_setting = Inr run"
    unfolding resolve_local using echo_closed_loop [of local_address] by blast
  then obtain code sh where m: "rig_closed local_resolver (raw_echo ''ab'') echo_plan (\<lambda>_. None) echo_setting
      (\<lambda>_. True) empty_shell = (Inr code, sh)"
    by (simp add: rig_closed_def has_def job_then_eq job_of_def put_out_def)
  with closed_run_exits_zero [of local_resolver, OF _ echo_hypotheses m] show ?thesis by auto
qed

text \<open>What is left of the files of an open-loop run when one of them cannot be opened.\<close>

definition csv_outcome :: "(string \<Rightarrow> bool) \<Rightarrow> flags \<Rightarrow> unit result" where
  "csv_outcome can_open flags =
     (let directory = text_flag flags ''csv-dir'' ''.'' in
      if has flags ''csv-dir'' \<and> \<not> can_open (directory @ ''/summary.csv'')
        then Inl (IoError (''cannot write '' @ directory @ ''/summary.csv''))
      else if has flags ''csv-dir'' \<and> \<not> can_open (directory @ ''/histogram.csv'')
        then Inl (IoError (''cannot write '' @ directory @ ''/histogram.csv''))
      else Inr ())"

lemma write_csv_if:
  "\<exists>files t. (if has flags ''csv-dir''
      then write_csv can_open (text_flag flags ''csv-dir'' ''.'') run h plan flags mode started opens resolution []
      else job_of (Inr ())) sh = (csv_outcome can_open flags, sh\<lparr>sh_files := files, sh_out := sh_out sh @ t\<rparr>) \<and>
    (has flags ''csv-dir'' \<or> files = sh_files sh)"
proof (cases "has flags ''csv-dir''")
  case True
  let ?d = "text_flag flags ''csv-dir'' ''.''"
  have whole: "sh = sh\<lparr>sh_files := sh_files sh, sh_out := sh_out sh @ []\<rparr>" by simp
  show ?thesis
  proof (cases "can_open (?d @ ''/summary.csv'')"; cases "can_open (?d @ ''/histogram.csv'')")
    assume "can_open (?d @ ''/summary.csv'')" "can_open (?d @ ''/histogram.csv'')"
    with True show ?thesis
      by (simp add: csv_outcome_def write_csv_def Let_def job_then_eq open_path_def open_truncated_def job_of_def
          throw_unless_def append_summary_def put_file_def put_out_def) blast
  next
    assume *: "can_open (?d @ ''/summary.csv'')" "\<not> can_open (?d @ ''/histogram.csv'')"
    show ?thesis
      by (intro exI [of _ "sh_files (snd (append_summary (?d @ ''/summary.csv'') run plan flags mode started opens
            resolution sh))"] exI [of _ "[]"])
        (simp add: True * csv_outcome_def write_csv_def Let_def job_then_eq open_path_def open_truncated_def job_of_def
          throw_unless_def append_summary_def put_file_def)
  qed (intro exI [of _ "sh_files sh"] exI [of _ "[]"],
      simp add: True csv_outcome_def write_csv_def Let_def job_then_eq open_path_def job_of_def throw_unless_def)+
next
  case False
  then show ?thesis
    by (intro exI [of _ "sh_files sh"] exI [of _ "[]"]) (simp add: csv_outcome_def job_of_def)
qed

text \<open>C28: An open-loop run is reported to its end. On monotone clocks and with timeouts, buffers and due times
  that fit, a run that completes prints everything it has to say: no percentile of the report is absent, no
  verdict fails, and a run it voids says so on the standard output. Without \<open>--csv-dir\<close>, and with it when
  \<open>summary.csv\<close> and \<open>histogram.csv\<close> of that directory can be opened, neither a slow target nor too few connections
  changes the exit code, which is 0 exactly when the rig kept up, and 1 otherwise; when one of the two cannot be opened
  the run still has been reported, and the job ends with the \<open>IoError\<close> that names the first such file. Nothing goes to
  the standard error, and without \<open>--csv-dir\<close> no file is touched.\<close>

theorem open_run_is_reported:
  assumes rate: "and_then (real_flag flags ''rate'' (Fin 1000)) rate_per_second = Inr q"
    and "resolve getaddrinfo (pl_target plan) = Inr addresses" and "clock_ok (os_clock env)" and "0 \<le> pl_warmup plan"
    and threads: "\<forall>w \<in> set (os_threads env). setup_ok (w_clock w) (pl_worker plan) protocol addresses"
    and "add_millis (os_clock env 0) (pl_warmup plan) = Inr record_from"
    and "\<forall>n < length (os_claims env). \<exists>slot. slot_at (new_schedule q record_from) (of_nat n) = Inr slot"
    and small: "length (os_claims env) \<le> 2 ^ 53"
    and run: "run_open_loop (resolve getaddrinfo) protocol (open_plan_of plan q) env = Inr run"
  shows "\<exists>kept t files. kept_up run = Inr kept \<and>
    rig_open getaddrinfo protocol plan flags env can_open sh =
      (and_then (csv_outcome can_open flags) (\<lambda>_. Inr (if kept then 0 else 1)),
       sh\<lparr>sh_files := files, sh_out := sh_out sh @ t\<rparr>) \<and>
    (kept \<or> (\<exists>a b. t = a @ void_notice @ b)) \<and> (has flags ''csv-dir'' \<or> files = sh_files sh)"
proof -
  have plan: "op_target (open_plan_of plan q) = pl_target plan" "op_warmup (open_plan_of plan q) = pl_warmup plan"
    "op_worker (open_plan_of plan q) = pl_worker plan" "op_rate (open_plan_of plan q) = q"
    by (simp_all add: open_plan_of_def)
  have "length (os_claims env) \<le> 2 ^ 64" using small by simp
  from open_loop_accounts [of "resolve getaddrinfo" "open_plan_of plan q" addresses env protocol record_from, unfolded plan,
      OF assms(2-6) refl assms(7) this run]
  obtain S where
    ok: "consistent (ol_result run)" and len: "length S \<le> length (os_claims env)" and "0 \<le> record_from"
    and q: "ol_rate run = q" and samples: "\<forall>x \<in> set S. \<exists>w \<in> set (os_threads env).
      sample_ok (w_clock w) (new_schedule q record_from) record_from x"
    and h: "ol_schedule_lag run = hist_of (lates S)" "ol_connection_wait run = hist_of (waits S)"
      "ol_rig_lag run = hist_of (rigs S)"
    by blast
  have sizes: "size (waits S) = size (lates S)" "size (rigs S) = size (lates S)" "size (lates S) \<le> 2 ^ 53"
    using len small by (simp_all add: waits_def lates_def rigs_def)
  have "0 \<le> waited \<and> waited \<le> late \<and> late < 2 ^ 63" if "(i, late, waited, latency) \<in> set S" for i late waited latency
  proof -
    from that samples obtain w where "w \<in> set (os_threads env)"
      "sample_ok (w_clock w) (new_schedule q record_from) record_from (i, late, waited, latency)" by blast
    with threads sample_range [OF _ _ \<open>0 \<le> record_from\<close>] show ?thesis
      by (auto simp: setup_ok_def timeout_fits_def)
  qed
  then have range: "\<forall>M \<in> {lates S, waits S, rigs S}. \<forall>l \<in># M. 0 \<le> l \<and> l < 2 ^ 63"
    by (fastforce simp: lates_def waits_def rigs_def)
  from rate obtain r where r: "rate_per_second r = Inr (ol_rate run)" by (auto simp: and_then_Inr_iff q)
  obtain lag kept saturated where
    "report_lag run = Inr lag" "kept_up run = Inr kept" "connections_saturated run = Inr saturated"
    using report_lag_total [OF h sizes range] kept_up_total [OF r h(3)] connections_saturated_total [OF r h(2)]
      range sizes by auto
  note reported = this(2) report_schedule_total [OF this]
  let ?first = "report (ol_result run) plan ''open-loop'' (ol_requested run) (ol_started run) (ol_opened run)
    (ol_resolution run)"
  let ?last = "lag @ (if saturated then report_saturation run else [])"
  let ?sh = "sh\<lparr>sh_out := sh_out sh @ ?first @ report_slots run kept @ ?last\<rparr>"
  obtain files t where t: "(if has flags ''csv-dir''
      then write_csv can_open (text_flag flags ''csv-dir'' ''.'') (ol_result run) (ol_histogram run) plan flags
        ''open-loop'' (ol_started run) (ol_opened run) (ol_resolution run) []
      else job_of (Inr ())) ?sh = (csv_outcome can_open flags, ?sh\<lparr>sh_files := files, sh_out := sh_out ?sh @ t\<rparr>)"
    "has flags ''csv-dir'' \<or> files = sh_files ?sh" using write_csv_if by metis
  have "rig_open getaddrinfo protocol plan flags env can_open sh =
      (and_then (csv_outcome can_open flags) (\<lambda>_. Inr (if kept then 0 else 1)),
       sh\<lparr>sh_files := files, sh_out := sh_out sh @ ?first @ report_slots run kept @ ?last @ t\<rparr>)"
    using rate run ok reported t(1)
    by (cases "csv_outcome can_open flags") (simp_all add: rig_open_def job_then_eq job_of_def put_out_def)
  moreover have "kept \<or> (\<exists>a b. ?first @ report_slots run kept @ ?last @ t = a @ void_notice @ b)"
  proof -
    obtain a where "report_slots run False = a @ void_notice" using report_slots_void by blast
    then show ?thesis
      by (cases kept) (simp, intro disjI2 exI [of _ "?first @ a"] exI [of _ "?last @ t"], simp)
  qed
  moreover have "has flags ''csv-dir'' \<or> files = sh_files sh" using t(2) by simp
  ultimately show ?thesis using reported(1) by blast
qed

lemma rate_flag_7: "and_then (real_flag [''rate'' \<mapsto> ''7''] ''rate'' (Fin 1000)) rate_per_second = Inr \<lparr>rps = Fin 7\<rparr>"
proof -
  have "read_decimal ''7'' = Some 7" by code_simp
  moreover have "to_double 7 = Fin 7" using to_double_Fin [of 7] rnd_of_int [of 7] by simp
  ultimately show ?thesis by (simp add: real_flag_def rate_7)
qed

definition echo_rate_plan :: plan where
  "echo_rate_plan = \<lparr>pl_target = \<lparr>ep_host = ''127.0.0.1'', ep_port = 8080\<rparr>, pl_connections = 2, pl_duration = 1,
     pl_warmup = 0, pl_worker = default_worker_config, pl_timeseries = False\<rparr>"

theorem open_run_is_reported_witness:
  "\<exists>sh. rig_open local_resolver (raw_echo ''ab'') echo_rate_plan [''rate'' \<mapsto> ''7'', ''csv-dir'' \<mapsto> ''d''] echo_open_setting
    (\<lambda>_. False) empty_shell = (Inl (IoError ''cannot write d/summary.csv''), sh) \<and> sh_err sh = []"
proof -
  let ?flags = "[''rate'' \<mapsto> ''7'', ''csv-dir'' \<mapsto> ''d'']"
  obtain run where
    "run_open_loop (resolve local_resolver) (raw_echo ''ab'') echo_open_plan echo_open_setting = Inr run"
    unfolding resolve_local using echo_open_loop [of local_address] by blast
  moreover have "open_plan_of echo_rate_plan \<lparr>rps = Fin 7\<rparr> = echo_open_plan"
    by (simp add: open_plan_of_def echo_rate_plan_def echo_open_plan_def)
  ultimately have run: "run_open_loop (resolve local_resolver) (raw_echo ''ab'')
      (open_plan_of echo_rate_plan \<lparr>rps = Fin 7\<rparr>) echo_open_setting = Inr run" by simp
  note h = echo_open_hypotheses
  have plan: "pl_warmup echo_rate_plan = op_warmup echo_open_plan" "pl_worker echo_rate_plan = op_worker echo_open_plan"
    by (simp_all add: echo_rate_plan_def echo_open_plan_def)
  have rate: "and_then (real_flag ?flags ''rate'' (Fin 1000)) rate_per_second = Inr \<lparr>rps = Fin 7\<rparr>"
    using rate_flag_7 by (simp add: real_flag_def)
  have csv: "csv_outcome (\<lambda>_. False) ?flags = Inl (IoError ''cannot write d/summary.csv'')"
    by (simp add: csv_outcome_def has_def text_flag_def)
  have "\<exists>kept t files. kept_up run = Inr kept \<and> rig_open local_resolver (raw_echo ''ab'') echo_rate_plan
      ?flags echo_open_setting (\<lambda>_. False) empty_shell =
        (and_then (csv_outcome (\<lambda>_. False) ?flags) (\<lambda>_. Inr (if kept then 0 else 1)),
         empty_shell\<lparr>sh_files := files, sh_out := sh_out empty_shell @ t\<rparr>) \<and>
      (kept \<or> (\<exists>a b. t = a @ void_notice @ b)) \<and> (has ?flags ''csv-dir'' \<or> files = sh_files empty_shell)"
    by (rule open_run_is_reported [OF rate _ h(1) _ _ _ _ _ run, of "[local_address]" 0])
      (use h(1-5) in \<open>simp_all add: plan seven_def h(6)\<close>)
  then show ?thesis by (auto simp: csv empty_shell_def)
qed

text \<open>A huge number of milliseconds becomes negative. The flags are read as unsigned 64-bit numbers and
  cast to signed: a warm-up of 2^63 or more is accepted as a negative one, so that recording starts before
  the run does; only the duration is checked after the cast.\<close>

theorem huge_warmup_is_negative:
  assumes "rig_plan flags = Inr plan" and "number flags ''warmup'' 0 = Inr v" and "2 ^ 63 \<le> v"
  shows "pl_warmup plan = uint v - 2 ^ 64 \<and> pl_warmup plan < 0 \<and> 0 < pl_duration plan"
proof -
  have "sint v = uint v - 2 ^ 64"
  proof -
    have "uint v < 2 ^ 64" using unsigned_less [of v, where 'a = int] by simp
    moreover have "2 ^ 63 \<le> uint v" using assms(3) by (simp add: word_le_def)
    ultimately have "(uint v - 2 ^ 63) mod 2 ^ 64 = uint v - 2 ^ 63" by (intro mod_pos_pos_trivial) simp_all
    moreover have "(uint v - 2 ^ 63 + 2 ^ 64) mod 2 ^ 64 = (uint v - 2 ^ 63) mod 2 ^ 64" by (rule mod_add_self2)
    ultimately have "(uint v + 2 ^ 63) mod 2 ^ 64 = uint v - 2 ^ 63" by (simp add: add.commute)
    then show ?thesis by (simp add: sint_uint signed_take_bit_eq_take_bit_shift take_bit_eq_mod)
  qed
  moreover have "uint v < 2 ^ 64" using unsigned_less [of v, where 'a = int] by simp
  moreover have "pl_warmup plan = sint v \<and> 0 < pl_duration plan"
    using assms(1,2) by (auto simp: rig_plan_def millis_flag_def and_then_Inr_iff split: if_splits)
  ultimately show ?thesis by simp
qed

theorem huge_warmup_is_negative_witness:
  "\<exists>plan. rig_plan [''target'' \<mapsto> ''h:1'', ''warmup'' \<mapsto> ''18446744073709551615''] = Inr plan \<and>
    pl_warmup plan = - 1"
proof -
  let ?f = "[''target'' \<mapsto> ''h:1'', ''warmup'' \<mapsto> ''18446744073709551615'']"
  have e: "endpoint_parse ''h:1'' = Inr \<lparr>ep_host = ''h'', ep_port = 1\<rparr>" by code_simp
  have "parse_u64 0 ''18446744073709551615'' = Value (- 1)" by code_simp
  then have v: "number ?f ''warmup'' 0 = Inr (- 1)" by (simp add: number_def)
  then obtain plan where p: "rig_plan ?f = Inr plan"
    by (simp add: rig_plan_def has_def text_flag_def e millis_flag_def) (simp add: number_def)
  have "2 ^ 63 \<le> (- 1 :: u64)" by code_simp
  moreover have "uint (- 1 :: u64) = 18446744073709551615" by code_simp
  ultimately show ?thesis using huge_warmup_is_negative [OF p v] p by simp
qed

end
