(* ===== verification/Rig_Errors.thy ===== *)
theory Rig_Errors
  imports Rig
begin

text \<open>
  How \<open>apps/dariyanaap.cpp\<close> fails. A usage error can only come from the command line, before anything is measured,
  printed or written: each later operation is shown to cause none (\<open>late\<close>, collected in \<open>late_intros\<close>). An error
  between the start of the threads and the joins ends the process without a message.
\<close>

text \<open>A result that is no usage error: what everything after the parsing of the command line returns.\<close>

definition late :: "'a result \<Rightarrow> bool" where
  "late r \<longleftrightarrow> (\<forall>e. r = Inl e \<longrightarrow> \<not> is_UsageError e)"

definition late_job :: "'a job \<Rightarrow> bool" where
  "late_job m \<longleftrightarrow> (\<forall>sh. late (fst (m sh)))"

named_theorems late_intros \<open>operations that cause no usage error\<close>

lemma late_Inr [late_intros]: "late (Inr x)"
  by (simp add: late_def)

lemma late_then [late_intros]: "late m \<Longrightarrow> (\<And>x. late (f x)) \<Longrightarrow> late (and_then m f)"
  by (cases m) (simp_all add: late_def)

lemma late_Inl [late_intros]: "\<not> is_UsageError e \<Longrightarrow> late (Inl e)"
  by (simp add: late_def)

lemma late_if [late_intros]: "(b \<Longrightarrow> late x) \<Longrightarrow> (\<not> b \<Longrightarrow> late y) \<Longrightarrow> late (if b then x else y)"
  by simp

lemma late_option [late_intros]:
  "late x \<Longrightarrow> (\<And>v. late (f v)) \<Longrightarrow> late (case r of None \<Rightarrow> x | Some v \<Rightarrow> f v)"
  by (cases r) simp_all

lemma late_pair [late_intros]: "(\<And>x y. late (f x y)) \<Longrightarrow> late (case z of (x, y) \<Rightarrow> f x y)"
  by (cases z) simp

lemma late_fatal [late_intros]: "late (fatal r)"
  using is_UsageError_is_Error by (cases r) (auto simp: late_def)

lemma late_unjoined [late_intros]: "late r \<Longrightarrow> late (unjoined threads r)"
  by (simp add: unjoined_def late_fatal)

lemma late_join [late_intros]: "late (join_all rs)"
  by (induction rs) (auto intro!: late_intros)

lemma late_time [late_intros]:
  "late (nanos_of_millis ms)" "late (add_nanos t d)" "late (between a b)" "late (add_millis t ms)"
proof -
  show "late (nanos_of_millis ms)" "late (add_nanos t d)" "late (between a b)" for t d
    unfolding nanos_of_millis_def add_nanos_def between_def by (intro late_intros; simp)+
  then show "late (add_millis t ms)" unfolding add_millis_def by (intro late_intros)
qed

lemma late_spin: "late (spin clock a spins b i)"
  by (induction clock a spins b i rule: spin.induct)
    (subst spin.simps, auto simp: late_def now_def split: prod.split)

lemma late_resolution [late_intros]: "late (measured_resolution clock i)"
proof -
  have "late (resolution_attempts clock n best j)" for n best j
    by (induction n arbitrary: best j) (auto simp: now_def intro!: late_intros late_spin split: prod.split)
  then show ?thesis by (simp add: measured_resolution_def now_def)
qed

lemma late_resolve [late_intros]: "late (resolve getaddrinfo e)"
  by (auto simp: late_def resolve_def split: sum.splits if_splits)

lemma late_record [late_intros]: "late (hist_record h v)"
  by (auto simp: late_def hist_record_def Let_def split: if_splits)

lemma late_cast [late_intros]: "late (cast_u64 d)" "late (llround d)"
  by (cases d; auto simp: late_def)+

lemma late_percentile [late_intros]: "late (percentile h p)" "late (percentile_value h p)"
proof -
  show p: "late (percentile h p)" for p
    unfolding percentile_def percentile_rank_def by (intro late_intros; simp)
  have "late (optional_value v)" for v :: "'b option" by (cases v) (simp_all add: late_def)
  with p show "late (percentile_value h p)" unfolding percentile_value_def by (auto intro!: late_intros)
qed

lemma late_fold: "(\<And>s x. late (f s x)) \<Longrightarrow> late (fold_result f s xs)"
  by (induction xs arbitrary: s) (auto intro!: late_intros)

lemma late_series [late_intros]: "late (ts_run start workers evs)" "late (write_timeseries seconds)"
proof -
  have "late (ts_step st e)" for st e
    unfolding ts_step_def writer_record_def second_of_def Let_def
    by (cases e) (auto intro!: late_intros split: prod.split)
  then show "late (ts_run start workers evs)" unfolding ts_run_def by (intro late_fold)
  have "late (timeseries_row i h)" for i h
    unfolding timeseries_row_def Let_def by (intro late_intros)
  then show "late (write_timeseries seconds)" unfolding write_timeseries_def
    by (intro late_fold) (auto intro!: late_intros split: prod.split)
qed

lemma late_summary [late_intros]: "late (summary_of h duration)"
  unfolding summary_of_def by (intro late_intros; simp)

lemma late_runs [late_intros]:
  "late (run_closed_loop (resolve getaddrinfo) protocol plan env)"
  "late (run_open_loop (resolve getaddrinfo) protocol open_plan open_env)"
proof -
  have d: "late (drive config protocol series addresses record_from deadline threads)"
    for config series record_from deadline and addresses :: "socket_address list" and threads
    unfolding drive_def by (intro late_intros)
  show "late (run_closed_loop (resolve getaddrinfo) protocol plan env)"
    unfolding run_closed_loop_def Let_def by (intro late_intros d)
  have o: "late (open_drive config protocol addresses schedule record_from deadline claims threads)"
    for config schedule record_from deadline claims and addresses :: "socket_address list" and threads
    unfolding open_drive_def by (intro late_intros)
  show "late (run_open_loop (resolve getaddrinfo) protocol open_plan open_env)"
    unfolding run_open_loop_def slots_due_def Let_def by (intro late_intros o)
qed

lemma late_verdicts [late_intros]: "late (kept_up run)" "late (connections_saturated run)" "late (report_lag run)"
  unfolding kept_up_def connections_saturated_def report_lag_def ten_intervals_def interval_def
  by (intro late_intros; simp)+

text \<open>The same for the jobs.\<close>

lemma late_job_of [late_intros]: "late r \<Longrightarrow> late_job (job_of r)"
  by (simp add: late_job_def job_of_def)

lemma late_job_then [late_intros]: "late_job m \<Longrightarrow> (\<And>x. late_job (f x)) \<Longrightarrow> late_job (job_then m f)"
  by (auto simp: late_job_def job_then_eq late_def split: sum.split)

lemma late_job_if [late_intros]: "(b \<Longrightarrow> late_job x) \<Longrightarrow> (\<not> b \<Longrightarrow> late_job y) \<Longrightarrow> late_job (if b then x else y)"
  by simp

lemma late_put [late_intros]:
  "late_job (put_out s)" "late_job (put_file path s)" "late_job (open_path can_open path)"
  "late_job (append_summary path run plan flags mode started opens resolution)"
  by (simp_all add: late_job_def late_def put_out_def put_file_def append_summary_def open_path_def job_of_def
      throw_unless_def)

lemma late_csv [late_intros]:
  "late_job (write_csv can_open directory run h plan flags mode started opens resolution seconds)"
  unfolding write_csv_def Let_def open_truncated_def by (intro late_intros)

lemma late_report_schedule [late_intros]: "late_job (report_schedule run)"
  unfolding report_schedule_def by (intro late_intros)

lemma late_closed: "late_job (rig_closed getaddrinfo protocol plan flags env can_open)"
  unfolding rig_closed_def by (intro late_intros)

lemma closed_usage_error:
  "rig_closed getaddrinfo protocol plan flags env can_open sh = (Inl e, sh') \<Longrightarrow> \<not> is_UsageError e"
  using late_closed unfolding late_job_def late_def by (metis fst_conv)

lemma codes_small:
  "fst (rig_closed getaddrinfo protocol plan flags env can_open sh) = Inr code \<Longrightarrow> code \<in> {0, 1}"
  "fst (rig_open getaddrinfo protocol plan flags open_env can_open sh) = Inr code \<Longrightarrow> code \<in> {0, 1}"
  by (auto simp: rig_closed_def rig_open_def job_then_eq job_of_def split: sum.splits if_splits)

text \<open>A usage error of an open-loop run is one of its rate, found before anything is done.\<close>

lemma open_usage_error:
  assumes "rig_open getaddrinfo protocol plan flags env can_open sh = (Inl e, sh')" and "is_UsageError e"
  shows "sh' = sh"
proof -
  have "\<exists>f. rig_open getaddrinfo protocol plan flags env can_open =
      job_then (job_of (and_then (real_flag flags ''rate'' (Fin 1000)) rate_per_second)) f \<and> (\<forall>q. late_job (f q))"
    unfolding rig_open_def by (rule exI, rule conjI, rule refl) (intro allI late_intros)
  then obtain f where f: "rig_open getaddrinfo protocol plan flags env can_open =
      job_then (job_of (and_then (real_flag flags ''rate'' (Fin 1000)) rate_per_second)) f" "\<And>q. late_job (f q)"
    by blast
  have "fst (f q sh) \<noteq> Inl e" for q using f(2) [of q] assms(2) by (auto simp: late_job_def late_def)
  with assms(1) show ?thesis
    unfolding f(1) by (auto simp: job_then_eq job_of_def split: sum.splits) (metis fst_conv)
qed

text \<open>Only \<open>main\<close> and the missing target write on the standard error.\<close>

definition silent :: "'a job \<Rightarrow> bool" where
  "silent m \<longleftrightarrow> (\<forall>sh. sh_err (snd (m sh)) = sh_err sh)"

lemma silent_then [intro]: "silent m \<Longrightarrow> (\<And>x. silent (f x)) \<Longrightarrow> silent (job_then m f)"
  by (simp add: silent_def job_then_eq split: sum.split)

lemma silent_if [intro]: "silent x \<Longrightarrow> silent y \<Longrightarrow> silent (if b then x else y)"
  by simp

lemma silent_steps [intro]:
  "silent (job_of r)" "silent (put_out s)" "silent (put_file path s)" "silent (open_path can_open path)"
  "silent (append_summary path run plan flags mode started opens resolution)"
  by (simp_all add: silent_def job_of_def put_out_def put_file_def open_path_def append_summary_def)

lemma silent_csv [intro]:
  "silent (write_csv can_open directory run h plan flags mode started opens resolution seconds)"
  unfolding write_csv_def Let_def open_truncated_def by (intro silent_then silent_if silent_steps)

lemma silent_runs [intro]:
  "silent (rig_closed getaddrinfo protocol plan flags env can_open)"
  "silent (rig_open getaddrinfo protocol plan flags open_env can_open)"
  unfolding rig_closed_def rig_open_def report_schedule_def
  by (intro silent_then silent_if silent_steps silent_csv)+

definition usage_shown :: "string list \<Rightarrow> string" where
  "usage_shown argv = (case flags_parse argv rig_flag_names of
     Inl e \<Rightarrow> [] | Inr flags \<Rightarrow> if has flags ''target'' then [] else kUsage)"

definition rig_message :: "error \<Rightarrow> string" where
  "rig_message e = ''dariyanaap: '' @ what e @ [newline]"

lemma rig_run_cases:
  assumes "rig_run getaddrinfo argv closed_env open_env can_open sh = (r, v)"
  shows "case r of
      Inr code \<Rightarrow> code \<in> {0, 1} \<and> sh_err v = sh_err sh
    | Inl e \<Rightarrow> if is_UsageError e then v = sh\<lparr>sh_err := sh_err sh @ usage_shown argv\<rparr> else sh_err v = sh_err sh"
proof (cases "flags_parse argv rig_flag_names")
  case (Inl e)
  with assms show ?thesis by (auto simp: rig_run_def usage_shown_def job_then_eq job_of_def)
next
  case flags: (Inr flags)
  show ?thesis
  proof (cases "has flags ''target'' \<and> (\<exists>plan protocol. rig_plan flags = Inr plan \<and>
      rig_protocol flags (pl_target plan) = Inr protocol)")
    case False
    with assms flags show ?thesis
      by (cases "has flags ''target''"; cases "rig_plan flags")
        (auto simp: rig_run_def usage_shown_def job_then_eq job_of_def put_err_def split: sum.splits)
  next
    case True
    with flags obtain plan protocol where ok: "flags_parse argv rig_flag_names = Inr flags" "has flags ''target''"
      "rig_plan flags = Inr plan" "rig_protocol flags (pl_target plan) = Inr protocol" by blast
    let ?job = "if \<not> has flags ''rate'' then rig_closed getaddrinfo protocol plan flags closed_env can_open
      else rig_open getaddrinfo protocol plan flags open_env can_open"
    have job: "?job sh = (r, v)"
      using assms ok by (simp add: rig_run_def job_then_eq job_of_def)
    have "silent ?job" by (intro silent_if silent_runs)
    then have "sh_err v = sh_err sh" unfolding silent_def using job by (metis snd_conv)
    moreover have "usage_shown argv = []" using ok by (simp add: usage_shown_def)
    moreover have "v = sh" if "r = Inl e" "is_UsageError e" for e
    proof (cases "has flags ''rate''")
      case True
      with job that(1) have "rig_open getaddrinfo protocol plan flags open_env can_open sh = (Inl e, v)" by simp
      from this that(2) show ?thesis by (rule open_usage_error)
    next
      case False
      with job that(1) have "rig_closed getaddrinfo protocol plan flags closed_env can_open sh = (Inl e, v)" by simp
      from closed_usage_error [OF this] that(2) show ?thesis ..
    qed
    moreover have "code \<in> {0, 1}" if "r = Inr code" for code
      using codes_small(1) [of getaddrinfo protocol plan flags closed_env can_open sh code]
        codes_small(2) [of getaddrinfo protocol plan flags open_env can_open sh code] job that
      by (cases "has flags ''rate''") auto
    ultimately show ?thesis by (auto split: sum.split)
  qed
qed

text \<open>C29: Exit code 2 means that nothing was done, and the exit code says which kind of failure it was. Whatever the
  network, the clock and the files are: when \<open>main\<close> returns 2 there was a usage error, no file has changed, nothing is on
  the standard output, and the standard error has grown by its message, with the usage text before it exactly when
  the flags could be parsed and named no target. Every other \<open>Error\<close> that leaves the run gives 1, and its message is all
  that is on the standard error. A run that completes gives 0 or 1 and says nothing there. Only what is not an
  \<open>Error\<close> is not handled.\<close>

theorem usage_errors_touch_nothing:
  assumes "rig_main getaddrinfo argv closed_env open_env can_open sh = (r, sh')"
  shows "if wants_help argv then r = Inr 0 \<and> sh' = sh\<lparr>sh_out := sh_out sh @ kUsage\<rparr>
    else case rig_run getaddrinfo argv closed_env open_env can_open sh of
        (Inr code, v) \<Rightarrow> r = Inr code \<and> code \<in> {0, 1} \<and> sh' = v \<and> sh_err sh' = sh_err sh
      | (Inl e, v) \<Rightarrow>
          if is_UsageError e
            then r = Inr 2 \<and> sh' = sh\<lparr>sh_err := sh_err sh @ usage_shown argv @ rig_message e\<rparr>
          else if is_Error e
            then r = Inr 1 \<and> sh' = v\<lparr>sh_err := sh_err sh @ rig_message e\<rparr>
          else r = Inl e \<and> sh' = v"
proof (cases "wants_help argv")
  case True
  with assms show ?thesis by (simp add: rig_main_def job_then_eq put_out_def job_of_def)
next
  case False
  obtain x v where run: "rig_run getaddrinfo argv closed_env open_env can_open sh = (x, v)" by fastforce
  from rig_run_cases [OF run] assms False is_UsageError_is_Error show ?thesis
    by (auto simp: rig_main_def run rig_message_def job_then_eq put_err_def job_of_def Let_def split: sum.splits if_splits)
qed

theorem usage_errors_touch_nothing_witness:
  "rig_main local_resolver [''dariyanaap'', ''--connections'', ''3''] echo_setting echo_open_setting (\<lambda>_. True) empty_shell =
    (Inr 2, empty_shell\<lparr>sh_err := kUsage @ rig_message (UsageError ''--target is required'')\<rparr>)"
proof -
  let ?argv = "[''dariyanaap'', ''--connections'', ''3'']"
  obtain r sh' where m: "rig_main local_resolver ?argv echo_setting echo_open_setting (\<lambda>_. True) empty_shell = (r, sh')"
    by fastforce
  have run: "rig_run local_resolver ?argv echo_setting echo_open_setting (\<lambda>_. True) empty_shell =
      (Inl (UsageError ''--target is required''), empty_shell\<lparr>sh_err := kUsage\<rparr>)"
    by (simp add: rig_run_def flags_parse_def rig_flag_names_def has_def job_then_eq job_of_def put_err_def empty_shell_def)
  have "usage_shown ?argv = kUsage"
    by (simp add: usage_shown_def flags_parse_def rig_flag_names_def has_def)
  with usage_errors_touch_nothing [OF m] show ?thesis
    unfolding m run by (simp add: wants_help_def empty_shell_def)
qed

text \<open>A clock that stands still is reported only while no thread runs: \<open>measured_resolution\<close> is called when they
  all do, and the exception it throws destroys threads that have not been joined.\<close>

lemma stuck_clock_terminates:
  assumes "resolve getaddrinfo (pl_target plan) = Inr addresses"
    and "add_millis (st_clock env 0) (pl_warmup plan) = Inr record_from"
    and "add_millis record_from (pl_duration plan) = Inr deadline"
    and "measured_resolution (st_clock env) 1 = Inl e" and "is_Error e"
    and "spawn (pl_connections plan) (st_threads env) \<noteq> []"
  shows "rig_closed getaddrinfo protocol plan flags env can_open sh = (Inl (StdException ''terminate called''), sh)"
  using assms by (simp add: rig_closed_def run_closed_loop_def unjoined_def job_then_eq job_of_def)

end
