(* ===== verification/Simulation.thy ===== *)
theory Simulation
  imports Main
begin

text \<open>
  The contract between a component and its abstract specification, as a locale: every operation,
  from a good state, leaves a good state, answers as the specification does from the abstraction of
  that state, and reaches the abstraction of the specification's next state. What follows for any
  sequence of operations is proved once.
\<close>

fun run_all :: "('s \<Rightarrow> 'x \<Rightarrow> 'r \<times> 's) \<Rightarrow> 's \<Rightarrow> 'x list \<Rightarrow> 'r list \<times> 's" where
  "run_all f s [] = ([], s)"
| "run_all f s (x # xs) =
     (case f s x of (r, s') \<Rightarrow> (case run_all f s' xs of (rs, s'') \<Rightarrow> (r # rs, s'')))"

lemma run_all_append:
  "run_all f s (xs @ ys) =
     (case run_all f s xs of (rs, s') \<Rightarrow> (case run_all f s' ys of (rs', s'') \<Rightarrow> (rs @ rs', s'')))"
  by (induction xs arbitrary: s) (auto split: prod.split)

locale simulation =
  fixes concrete :: "'s \<Rightarrow> 'x \<Rightarrow> 'r \<times> 's"
    and specified :: "'a \<Rightarrow> 'x \<Rightarrow> 'r \<times> 'a"
    and abstraction :: "'s \<Rightarrow> 'a"
    and good :: "'s \<Rightarrow> bool"
  assumes simulates: "good s \<Longrightarrow> good (snd (concrete s x)) \<and>
    specified (abstraction s) x = (fst (concrete s x), abstraction (snd (concrete s x)))"
begin

lemma run_simulates:
  assumes "good s" and "run_all concrete s xs = (rs, s')"
  shows "good s' \<and> run_all specified (abstraction s) xs = (rs, abstraction s')"
  using assms
proof (induction xs arbitrary: s rs)
  case (Cons x xs)
  obtain r v where c: "concrete s x = (r, v)" by fastforce
  with simulates [OF Cons.prems(1), of x] have v: "good v" "specified (abstraction s) x = (r, abstraction v)" by auto
  from Cons.prems(2) c obtain rs' where "run_all concrete v xs = (rs', s')" "rs = r # rs'"
    by (auto split: prod.splits)
  with Cons.IH [OF v(1), of rs'] v(2) show ?case by simp
qed simp

end

end
