(* ===== verification/Knobs.thy ===== *)
theory Knobs
  imports Streams Clock Simulation
begin

text \<open>
  The fault knobs, \<open>src/fault/knobs.hpp\<close> and \<open>knobs.cpp\<close>: the atomics and the guarded set of cuts, the
  checks a target calls, the setters, the environment and the command language of the control
  socket. A setter is the list of the atomic actions it performs (\<open>step\<close>), so that its run alone and
  its interleavings with another thread are runs of the same lists. The random draws and what
  the environment holds are arguments. The two numbers of a latency are read left to right, where the order of the
  arguments of a call is the compiler's choice.
\<close>

record knobs =
  g_any :: bool
  g_latency_ns :: int
  g_jitter_ns :: int
  g_drop_ppm :: int
  g_hanging :: bool
  g_identity :: string
  g_partitions :: "(string \<times> string) set"
  g_any_partition :: bool

definition initial_knobs :: knobs where
  "initial_knobs =
     \<lparr>g_any = False, g_latency_ns = 0, g_jitter_ns = 0, g_drop_ppm = 0, g_hanging = False,
      g_identity = '''', g_partitions = {}, g_any_partition = False\<rparr>"

subsection \<open>Atomic actions\<close>

text \<open>The loads of \<open>refresh_gate\<close> accumulate in a register of the thread. A critical section over the cuts is
  one action: what it writes is read either inside the lock or through the single flag it stores.\<close>

datatype step =
    Store_Latency int
  | Store_Jitter int
  | Store_Drop int
  | Store_Hanging bool
  | Store_Identity string
  | Insert_Cut "string \<times> string"
  | Erase_Cut "string \<times> string"
  | Clear_Cuts
  | Load_Latency
  | Load_Drop
  | Load_Hanging
  | Load_Any_Partition
  | Store_Gate

fun exec :: "knobs \<times> bool \<Rightarrow> step \<Rightarrow> knobs \<times> bool" where
  "exec (k, r) (Store_Latency v) = (k\<lparr>g_latency_ns := v\<rparr>, r)"
| "exec (k, r) (Store_Jitter v) = (k\<lparr>g_jitter_ns := v\<rparr>, r)"
| "exec (k, r) (Store_Drop v) = (k\<lparr>g_drop_ppm := v\<rparr>, r)"
| "exec (k, r) (Store_Hanging b) = (k\<lparr>g_hanging := b\<rparr>, r)"
| "exec (k, r) (Store_Identity name) = (k\<lparr>g_identity := name\<rparr>, r)"
| "exec (k, r) (Insert_Cut p) = (k\<lparr>g_partitions := insert p (g_partitions k), g_any_partition := True\<rparr>, r)"
| "exec (k, r) (Erase_Cut p) =
     (let cuts = g_partitions k - {p} in (k\<lparr>g_partitions := cuts, g_any_partition := cuts \<noteq> {}\<rparr>, r))"
| "exec (k, r) Clear_Cuts = (k\<lparr>g_partitions := {}, g_any_partition := False\<rparr>, r)"
| "exec (k, r) Load_Latency = (k, g_latency_ns k \<noteq> 0)"
| "exec (k, r) Load_Drop = (k, r \<or> g_drop_ppm k \<noteq> 0)"
| "exec (k, r) Load_Hanging = (k, r \<or> g_hanging k)"
| "exec (k, r) Load_Any_Partition = (k, r \<or> g_any_partition k)"
| "exec (k, r) Store_Gate = (k\<lparr>g_any := r\<rparr>, r)"

definition refresh_gate :: "step list" where
  "refresh_gate = [Load_Latency, Load_Drop, Load_Hanging, Load_Any_Partition, Store_Gate]"

text \<open>An operation on the knobs: it may throw, and what it has stored by then stays stored.\<close>

type_synonym 'a kop = "knobs \<Rightarrow> 'a result \<times> knobs"

definition k_return :: "'a \<Rightarrow> 'a kop" where
  "k_return x k = (Inr x, k)"

definition k_throw :: "error \<Rightarrow> 'a kop" where
  "k_throw e k = (Inl e, k)"

definition k_then :: "'a kop \<Rightarrow> ('a \<Rightarrow> 'b kop) \<Rightarrow> 'b kop" where
  "k_then m f k = (case m k of (Inl e, k') \<Rightarrow> (Inl e, k') | (Inr x, k') \<Rightarrow> f x k')"

definition k_lift :: "'a result \<Rightarrow> 'a kop" where
  "k_lift r k = (r, k)"

definition perform :: "step list \<Rightarrow> unit kop" where
  "perform steps k = (Inr (), fst (foldl exec (k, False) steps))"

subsection \<open>Names\<close>

text \<open>\<open>operator<\<close> of \<open>std::string\<close>: lexicographic on unsigned characters.\<close>

fun string_less :: "string \<Rightarrow> string \<Rightarrow> bool" where
  "string_less a [] = False"
| "string_less [] (d # b) = True"
| "string_less (c # a) (d # b) =
     ((of_char c :: nat) < of_char d \<or> c = d \<and> string_less a b)"

definition ordered :: "string \<Rightarrow> string \<Rightarrow> string \<times> string" where
  "ordered a b = (if string_less b a then (b, a) else (a, b))"

subsection \<open>What a target calls\<close>

definition any_enabled :: "knobs \<Rightarrow> bool" where
  "any_enabled k = g_any k"

text \<open>The sleeps of \<open>before_response\<close>: the injected delay, with \<open>draw\<close> what the distribution over
  \<open>-jitter .. jitter\<close> returned, then one millisecond for every load of \<open>g_hanging\<close> that found it set.\<close>

fun hang_loop :: "bool list \<Rightarrow> nanos list result" where
  "hang_loop [] = Inl Blocked"
| "hang_loop (False # loads) = Inr []"
| "hang_loop (True # loads) = and_then (hang_loop loads) (\<lambda>sleeps. Inr (1000000 # sleeps))"

definition injected_wait :: "knobs \<Rightarrow> int \<Rightarrow> nanos list result" where
  "injected_wait k draw =
     (let latency = g_latency_ns k in
      if 0 < latency then
        let wait = (if 0 < g_jitter_ns k then latency + draw else latency) in
        if \<not> int64_ok wait then Inl (Undefined ''duration overflow'')
        else Inr (if 0 < wait then [wait] else [])
      else Inr [])"

definition before_response :: "knobs \<Rightarrow> int \<Rightarrow> bool list \<Rightarrow> nanos list result" where
  "before_response k draw loads =
     (if \<not> g_any k then Inr []
      else and_then (injected_wait k draw) (\<lambda>waits. and_then (hang_loop loads) (\<lambda>sleeps. Inr (waits @ sleeps))))"

definition should_drop :: "knobs \<Rightarrow> int \<Rightarrow> bool" where
  "should_drop k draw =
     (if \<not> g_any k then False
      else if g_drop_ppm k \<le> 0 then False
      else draw < g_drop_ppm k)"

definition blocked :: "knobs \<Rightarrow> string \<Rightarrow> bool" where
  "blocked k peer =
     (if \<not> g_any k \<or> \<not> g_any_partition k then False
      else if g_identity k = [] then False
      else ordered (g_identity k) peer \<in> g_partitions k)"

subsection \<open>The setters\<close>

definition set_latency :: "millis \<Rightarrow> millis \<Rightarrow> unit kop" where
  "set_latency mean jitter =
     (if mean < 0 \<or> jitter < 0
      then k_throw (UsageError ''injected latency and jitter must not be negative'')
      else if mean < jitter
      then k_throw (UsageError ''injected jitter must not exceed the mean'')
      else
        k_then (k_lift (nanos_of_millis mean)) (\<lambda>m.
        k_then (k_lift (nanos_of_millis jitter)) (\<lambda>j.
          perform ([Store_Latency m, Store_Jitter j] @ refresh_gate))))"

definition ppm_of :: "double \<Rightarrow> int result" where
  "ppm_of probability =
     cast_i64 (d_add (d_mul probability (Fin 1000000)) (to_double (1 / 2)))"

definition set_drop_probability :: "double \<Rightarrow> unit kop" where
  "set_drop_probability probability =
     (if \<not> (d_le (Fin 0) probability \<and> d_le probability (Fin 1))
      then k_throw (UsageError ''drop probability must be between 0 and 1'')
      else k_then (k_lift (ppm_of probability)) (\<lambda>ppm. perform (Store_Drop ppm # refresh_gate)))"

definition set_hang_forever :: "bool \<Rightarrow> unit kop" where
  "set_hang_forever hanging = perform (Store_Hanging hanging # refresh_gate)"

definition set_identity :: "string \<Rightarrow> unit kop" where
  "set_identity name = perform [Store_Identity name]"

definition partition_nodes :: "string \<Rightarrow> string \<Rightarrow> unit kop" where
  "partition_nodes a b =
     (if a = [] \<or> b = [] then k_throw (UsageError ''a partition needs two node names'')
      else if a = b then k_throw (UsageError ''cannot partition a node from itself'')
      else perform (Insert_Cut (ordered a b) # refresh_gate))"

definition heal :: "string \<Rightarrow> string \<Rightarrow> unit kop" where
  "heal a b = perform (Erase_Cut (ordered a b) # refresh_gate)"

definition clear_steps :: "step list" where
  "clear_steps =
     [Store_Latency 0, Store_Jitter 0, Store_Drop 0, Store_Hanging False, Clear_Cuts] @ refresh_gate"

definition clear :: "unit kop" where
  "clear = perform clear_steps"

subsection \<open>The environment and the control language\<close>

definition from_env :: "(string \<Rightarrow> string option) \<Rightarrow> string \<Rightarrow> string option" where
  "from_env env name =
     (case env name of None \<Rightarrow> None | Some value \<Rightarrow> if value = [] then None else Some value)"

definition as_probability :: "string \<Rightarrow> string \<Rightarrow> double result" where
  "as_probability text label =
     (let unreadable = UsageError (label @ '' must be a number, got '' @ in_quotes text) in
      case read_decimal text of
        None \<Rightarrow> Inl unreadable
      | Some x \<Rightarrow> if d_isfinite (to_double x) then Inr (to_double x) else Inl unreadable)"

definition as_millis :: "string \<Rightarrow> string \<Rightarrow> int result" where
  "as_millis text label =
     (case read_int64 text of
        None \<Rightarrow> Inl (UsageError (label @ '' must be a whole number of ms, got '' @ in_quotes text))
      | Some v \<Rightarrow> Inr v)"

text \<open>\<open>split_on\<close>: the loop carries the current part and the parts so far.\<close>

fun split_from :: "char \<Rightarrow> string \<Rightarrow> string list \<Rightarrow> string \<Rightarrow> string list" where
  "split_from separator current parts [] = (if current \<noteq> [] then parts @ [current] else parts)"
| "split_from separator current parts (c # text) =
     (if c = separator
      then split_from separator [] (if current \<noteq> [] then parts @ [current] else parts) text
      else split_from separator (current @ [c]) parts text)"

definition split_on :: "string \<Rightarrow> char \<Rightarrow> string list" where
  "split_on text separator = split_from separator [] [] text"

fun load_cuts :: "string list \<Rightarrow> unit kop" where
  "load_cuts [] = k_return ()"
| "load_cuts (each # cuts) =
     (case split_on each (CHR '':'') of
        [a, b] \<Rightarrow> k_then (partition_nodes a b) (\<lambda>_. load_cuts cuts)
      | _ \<Rightarrow> k_throw (UsageError (''DARIYANAAP_FAULT_PARTITION wants '' @ in_quotes ''a:b'' @ '', got '' @ in_quotes each)))"

definition millis_or_zero :: "string option \<Rightarrow> string \<Rightarrow> int result" where
  "millis_or_zero text label = (case text of None \<Rightarrow> Inr 0 | Some t \<Rightarrow> as_millis t label)"

definition switched_on :: "string \<Rightarrow> bool" where
  "switched_on text = (text = ''1'' \<or> text = ''true'')"

definition when_set :: "string option \<Rightarrow> (string \<Rightarrow> unit kop) \<Rightarrow> unit kop" where
  "when_set value f = (case value of None \<Rightarrow> k_return () | Some v \<Rightarrow> f v)"

definition load_from_env :: "(string \<Rightarrow> string option) \<Rightarrow> unit kop" where
  "load_from_env env =
     k_then (when_set (from_env env ''DARIYANAAP_FAULT_IDENTITY'') set_identity) (\<lambda>_.
     let latency = from_env env ''DARIYANAAP_FAULT_LATENCY_MS'';
         jitter = from_env env ''DARIYANAAP_FAULT_JITTER_MS'' in
     k_then (if latency \<noteq> None \<or> jitter \<noteq> None
             then k_then (k_lift (millis_or_zero latency ''DARIYANAAP_FAULT_LATENCY_MS'')) (\<lambda>m.
                  k_then (k_lift (millis_or_zero jitter ''DARIYANAAP_FAULT_JITTER_MS'')) (\<lambda>j. set_latency m j))
             else k_return ()) (\<lambda>_.
     k_then (when_set (from_env env ''DARIYANAAP_FAULT_DROP'')
         (\<lambda>drop. k_then (k_lift (as_probability drop ''DARIYANAAP_FAULT_DROP'')) set_drop_probability)) (\<lambda>_.
     k_then (when_set (from_env env ''DARIYANAAP_FAULT_HANG'')
         (\<lambda>hang. set_hang_forever (switched_on hang))) (\<lambda>_.
       when_set (from_env env ''DARIYANAAP_FAULT_PARTITION'')
         (\<lambda>cuts. load_cuts (split_on cuts (CHR '','')))))))"

definition expect :: "string list \<Rightarrow> nat \<Rightarrow> unit kop" where
  "expect words count =
     (if length words \<noteq> count + 1
      then k_throw (UsageError (words ! 0 @ '' takes '' @ string_of_nat count @ '' argument(s)''))
      else k_return ())"

definition ok :: "unit kop \<Rightarrow> string kop" where
  "ok m = k_then m (\<lambda>_. k_return ''ok'')"

definition apply_command :: "string \<Rightarrow> string kop" where
  "apply_command line =
     (let words = split_on line (CHR '' '') in
      if words = [] then k_throw (UsageError ''empty command'')
      else
        let verb = words ! 0 in
        if verb = ''latency'' then
          k_then (expect words 2) (\<lambda>_.
          k_then (k_lift (as_millis (words ! 1) ''latency'')) (\<lambda>m.
          k_then (k_lift (as_millis (words ! 2) ''jitter'')) (\<lambda>j. ok (set_latency m j))))
        else if verb = ''drop'' then
          k_then (expect words 1) (\<lambda>_.
          k_then (k_lift (as_probability (words ! 1) ''drop'')) (\<lambda>p. ok (set_drop_probability p)))
        else if verb = ''hang'' then
          k_then (expect words 1) (\<lambda>_. ok (set_hang_forever (switched_on (words ! 1))))
        else if verb = ''identity'' then
          k_then (expect words 1) (\<lambda>_. ok (set_identity (words ! 1)))
        else if verb = ''partition'' then
          k_then (expect words 2) (\<lambda>_. ok (partition_nodes (words ! 1) (words ! 2)))
        else if verb = ''heal'' then
          k_then (expect words 2) (\<lambda>_. ok (heal (words ! 1) (words ! 2)))
        else if verb = ''clear'' then k_then (expect words 0) (\<lambda>_. ok clear)
        else if verb = ''status'' then
          k_then (expect words 0) (\<lambda>_ k.
            (Inr (if any_enabled k then ''faults active'' else ''no faults''), k))
        else k_throw (UsageError (''unknown command '' @ in_quotes verb @
            ''; try latency, drop, hang, identity, partition, heal, clear, status'')))"

subsection \<open>The abstract specification\<close>

text \<open>What the library promises: the faults that are set, cuts as unordered pairs of names, and no
  gates at all.\<close>

record faults =
  f_mean :: nanos
  f_jitter :: nanos
  f_ppm :: int
  f_hanging :: bool
  f_identity :: string
  f_cuts :: "string set set"

definition no_faults :: faults where
  "no_faults = \<lparr>f_mean = 0, f_jitter = 0, f_ppm = 0, f_hanging = False, f_identity = '''', f_cuts = {}\<rparr>"

datatype setter =
    Latency millis millis
  | Drop double
  | Hang bool
  | Identity string
  | Partition string string
  | Heal string string
  | Clear

fun spec_set :: "setter \<Rightarrow> faults \<Rightarrow> unit result \<times> faults" where
  "spec_set (Latency mean jitter) f =
     (if mean < 0 \<or> jitter < 0
      then (Inl (UsageError ''injected latency and jitter must not be negative''), f)
      else if mean < jitter then (Inl (UsageError ''injected jitter must not exceed the mean''), f)
      else if \<not> int64_ok (mean * 1000000) then (Inl (Undefined ''duration overflow''), f)
      else (Inr (), f\<lparr>f_mean := mean * 1000000, f_jitter := jitter * 1000000\<rparr>))"
| "spec_set (Drop p) f =
     (if \<not> (d_le (Fin 0) p \<and> d_le p (Fin 1))
      then (Inl (UsageError ''drop probability must be between 0 and 1''), f)
      else case ppm_of p of Inl e \<Rightarrow> (Inl e, f) | Inr ppm \<Rightarrow> (Inr (), f\<lparr>f_ppm := ppm\<rparr>))"
| "spec_set (Hang b) f = (Inr (), f\<lparr>f_hanging := b\<rparr>)"
| "spec_set (Identity name) f = (Inr (), f\<lparr>f_identity := name\<rparr>)"
| "spec_set (Partition a b) f =
     (if a = [] \<or> b = [] then (Inl (UsageError ''a partition needs two node names''), f)
      else if a = b then (Inl (UsageError ''cannot partition a node from itself''), f)
      else (Inr (), f\<lparr>f_cuts := insert {a, b} (f_cuts f)\<rparr>))"
| "spec_set (Heal a b) f = (Inr (), f\<lparr>f_cuts := f_cuts f - {{a, b}}\<rparr>)"
| "spec_set Clear f = (Inr (), no_faults\<lparr>f_identity := f_identity f\<rparr>)"

definition spec_active :: "faults \<Rightarrow> bool" where
  "spec_active f \<longleftrightarrow> f_mean f \<noteq> 0 \<or> f_ppm f \<noteq> 0 \<or> f_hanging f \<or> f_cuts f \<noteq> {}"

definition spec_blocked :: "faults \<Rightarrow> string \<Rightarrow> bool" where
  "spec_blocked f peer \<longleftrightarrow> f_identity f \<noteq> [] \<and> {f_identity f, peer} \<in> f_cuts f"

definition spec_delay :: "faults \<Rightarrow> int \<Rightarrow> nanos" where
  "spec_delay f draw = (if f_jitter f = 0 then f_mean f else f_mean f + draw)"

definition spec_wait :: "faults \<Rightarrow> int \<Rightarrow> nanos list result" where
  "spec_wait f draw =
     (if int64_ok (spec_delay f draw) then Inr (filter (\<lambda>d. 0 < d) [spec_delay f draw])
      else Inl (Undefined ''duration overflow''))"

text \<open>The setters of the code.\<close>

fun code_set :: "setter \<Rightarrow> unit kop" where
  "code_set (Latency mean jitter) = set_latency mean jitter"
| "code_set (Drop p) = set_drop_probability p"
| "code_set (Hang b) = set_hang_forever b"
| "code_set (Identity name) = set_identity name"
| "code_set (Partition a b) = partition_nodes a b"
| "code_set (Heal a b) = heal a b"
| "code_set Clear = clear"

text \<open>The abstraction, and what the stored values always satisfy.\<close>

definition faults_of :: "knobs \<Rightarrow> faults" where
  "faults_of k =
     \<lparr>f_mean = g_latency_ns k, f_jitter = g_jitter_ns k, f_ppm = g_drop_ppm k, f_hanging = g_hanging k,
      f_identity = g_identity k, f_cuts = (\<lambda>(a, b). {a, b}) ` g_partitions k\<rparr>"

definition knobs_ok :: "knobs \<Rightarrow> bool" where
  "knobs_ok k \<longleftrightarrow>
     g_any k = (g_latency_ns k \<noteq> 0 \<or> g_drop_ppm k \<noteq> 0 \<or> g_hanging k \<or> g_any_partition k) \<and>
     g_any_partition k = (g_partitions k \<noteq> {}) \<and> (\<forall>(a, b) \<in> g_partitions k. string_less a b) \<and>
     0 \<le> g_jitter_ns k \<and> g_jitter_ns k \<le> g_latency_ns k \<and> g_latency_ns k < 2 ^ 63 \<and>
     0 \<le> g_drop_ppm k \<and> g_drop_ppm k \<le> 1000000"

subsection \<open>Names as unordered pairs\<close>

lemma string_less_irrefl [simp]: "\<not> string_less a a"
  by (induction a) auto

lemma string_less_asym: "string_less a b \<Longrightarrow> \<not> string_less b a"
  by (induction a b rule: string_less.induct) auto

lemma string_less_total: "a \<noteq> b \<Longrightarrow> string_less a b \<or> string_less b a"
proof (induction a b rule: string_less.induct)
  case (1 a)
  then show ?case by (cases a) auto
next
  case (3 c a d b)
  then show ?case by (cases "c = d") (auto simp: not_less le_less)
qed auto

lemma ordered_cases: "ordered a b = (a, b) \<or> ordered a b = (b, a)"
  by (simp add: ordered_def)

lemma ordered_less: "a \<noteq> b \<Longrightarrow> ordered a b = (x, y) \<Longrightarrow> string_less x y"
  using string_less_total [of a b] by (auto simp: ordered_def split: if_splits)

lemma pair_ordered: "string_less x y \<Longrightarrow> {x, y} = {a, b} \<longleftrightarrow> (x, y) = ordered a b"
  using string_less_asym by (auto simp: ordered_def doubleton_eq_iff)

lemma cut_iff:
  assumes "\<forall>(x, y) \<in> P. string_less x y"
  shows "ordered a b \<in> P \<longleftrightarrow> {a, b} \<in> (\<lambda>(x, y). {x, y}) ` P"
proof
  assume "ordered a b \<in> P"
  then show "{a, b} \<in> (\<lambda>(x, y). {x, y}) ` P"
    using ordered_cases [of a b] by (metis (mono_tags, lifting) image_eqI insert_commute prod.case)
next
  assume "{a, b} \<in> (\<lambda>(x, y). {x, y}) ` P"
  then obtain x y where p: "(x, y) \<in> P" "{x, y} = {a, b}" by auto
  with assms have "(x, y) = ordered a b" using pair_ordered [of x y a b] by blast
  with p(1) show "ordered a b \<in> P" by simp
qed

lemma ordered_set: "(\<lambda>(x, y). {x, y}) (ordered a b) = {a, b}"
  using ordered_cases [of a b] by (auto simp: insert_commute)

lemma cut_remove:
  assumes "\<forall>(x, y) \<in> P. string_less x y"
  shows "(\<lambda>(x, y). {x, y}) ` (P - {ordered a b}) = (\<lambda>(x, y). {x, y}) ` P - {{a, b}}"
proof (rule set_eqI)
  fix s
  have "(x, y) \<noteq> ordered a b \<longleftrightarrow> {x, y} \<noteq> {a, b}" if "(x, y) \<in> P" for x y
    using pair_ordered [of x y a b] assms that by blast
  then show "s \<in> (\<lambda>(x, y). {x, y}) ` (P - {ordered a b}) \<longleftrightarrow> s \<in> (\<lambda>(x, y). {x, y}) ` P - {{a, b}}"
    by auto
qed

subsection \<open>Refinement\<close>

lemma faults_of_initial: "faults_of initial_knobs = no_faults"
  by (simp add: faults_of_def initial_knobs_def no_faults_def)

lemma knobs_ok_initial: "knobs_ok initial_knobs"
  by (simp add: knobs_ok_def initial_knobs_def)

lemma to_double_half: "to_double (1 / 2) = Fin (1 / 2)"
  using to_double_Fin [of "1 / 2"] rnd_powi [of "- 1"] by (simp add: power_int_def)

lemma ppm_of_bounds:
  assumes "0 \<le> q" and "q \<le> 1"
  shows "\<exists>v. ppm_of (Fin q) = Inr v \<and> 0 \<le> v \<and> v \<le> 1000000 \<and>
    \<bar>of_int v - q * 1000000\<bar> \<le> 1 / 2 + 1 / 2 ^ 32"
proof -
  define a where "a = rnd (q * 1000000)"
  define b where "b = rnd (a + 1 / 2)"
  have q: "0 \<le> q * 1000000" "q * 1000000 \<le> 1000000" using assms by simp_all
  have a: "0 \<le> a" "a \<le> 1000000"
    using rnd_nonneg [OF q(1)] rnd_upper [OF q(2)] rnd_of_int [of 1000000] by (simp_all add: a_def)
  have half: "rnd (1000000 + 1 / 2) = 1000000 + 1 / 2"
    using rnd_representable [of 2000001 "- 1"] by (simp add: power_int_def)
  have b: "0 \<le> b" "b \<le> 1000000 + 1 / 2"
    using rnd_nonneg [of "a + 1 / 2"] rnd_upper [of "a + 1 / 2" "1000000 + 1 / 2"] half a by (simp_all add: b_def)
  have e1: "\<bar>a - q * 1000000\<bar> \<le> 2 powi (20 - 53)"
    unfolding a_def using q by (intro rnd_error_below) auto
  have e2: "\<bar>b - (a + 1 / 2)\<bar> \<le> 2 powi (20 - 53)"
    unfolding b_def using a by (intro rnd_error_below) auto
  have v: "0 \<le> \<lfloor>b\<rfloor>" "\<lfloor>b\<rfloor> \<le> 1000000" using b by (simp_all add: floor_le_iff)
  have small: "to_double x = Fin (rnd x)" if "0 \<le> x" "x \<le> 1000001" for x
    using that by (intro to_double_Fin) simp
  have "to_double (q * 1000000) = Fin a" "to_double (a + 1 / 2) = Fin b"
    unfolding a_def using small [of "q * 1000000"] q a small [of "a + 1 / 2"] by (simp_all add: a_def b_def)
  then have "ppm_of (Fin q) = Inr \<lfloor>b\<rfloor>"
    using v b(1) by (simp add: ppm_of_def to_double_half trunc_def int64_ok_def)
  moreover have "\<bar>of_int \<lfloor>b\<rfloor> - q * 1000000\<bar> \<le> 1 / 2 + 1 / 2 ^ 32"
  proof -
    define c :: rat where "c = 2 powi (20 - 53)"
    have "1 / 2 ^ 32 = 2 * c" by (simp add: c_def power_int_def power_one_over)
    moreover have "of_int \<lfloor>b\<rfloor> \<le> b" "b < of_int \<lfloor>b\<rfloor> + 1" by linarith+
    ultimately show ?thesis using e1 e2 unfolding c_def [symmetric] by linarith
  qed
  ultimately show ?thesis using v by blast
qed

lemma perform_simps:
  "perform steps k = (Inr (), fst (foldl exec (k, False) steps))"
  by (simp add: perform_def)

lemmas k_simps = k_then_def k_lift_def k_return_def k_throw_def perform_simps refresh_gate_def

lemma set_refines:
  assumes "knobs_ok k"
  shows "knobs_ok (snd (code_set x k)) \<and>
    spec_set x (faults_of k) = (fst (code_set x k), faults_of (snd (code_set x k)))"
proof (cases x)
  case (Latency mean jitter)
  have "int64_ok (jitter * 1000000)" if "int64_ok (mean * 1000000)" "0 \<le> jitter" "jitter \<le> mean"
    using that by (auto simp: int64_ok_def)
  with assms show ?thesis
    by (auto simp: Latency set_latency_def nanos_of_millis_def k_simps faults_of_def knobs_ok_def int64_ok_def)
next
  case (Drop p)
  show ?thesis
  proof (cases "d_le (Fin 0) p \<and> d_le p (Fin 1)")
    case True
    then obtain q where q: "p = Fin q" "0 \<le> q" "q \<le> 1" by (cases p) auto
    from ppm_of_bounds [OF q(2,3)] obtain v where "ppm_of p = Inr v" "0 \<le> v" "v \<le> 1000000" by (auto simp: q(1))
    with True assms show ?thesis
      by (auto simp: Drop set_drop_probability_def k_simps faults_of_def knobs_ok_def)
  qed (use assms in \<open>auto simp: Drop set_drop_probability_def k_simps\<close>)
next
  case (Hang b)
  with assms show ?thesis by (auto simp: set_hang_forever_def k_simps faults_of_def knobs_ok_def)
next
  case (Identity name)
  with assms show ?thesis by (auto simp: set_identity_def k_simps faults_of_def knobs_ok_def)
next
  case (Partition a b)
  show ?thesis
  proof (cases "a = [] \<or> b = [] \<or> a = b")
    case False
    obtain u v where o: "ordered a b = (u, v)" by fastforce
    with False have "string_less u v" using ordered_less by blast
    moreover have "{u, v} = {a, b}" using ordered_set [of a b] by (simp add: o)
    ultimately show ?thesis using False assms
      by (auto simp: Partition partition_nodes_def k_simps faults_of_def knobs_ok_def o)
  qed (use assms in \<open>auto simp: Partition partition_nodes_def k_simps\<close>)
next
  case (Heal a b)
  have "\<forall>(x, y) \<in> g_partitions k. string_less x y" using assms by (simp add: knobs_ok_def)
  from cut_remove [OF this, of a b] assms show ?thesis
    by (auto simp: Heal heal_def k_simps faults_of_def knobs_ok_def Let_def)
next
  case Clear
  with assms show ?thesis
    by (auto simp: clear_def clear_steps_def k_simps faults_of_def knobs_ok_def no_faults_def)
qed

interpretation knobs: simulation "\<lambda>k x. code_set x k" "\<lambda>f x. spec_set x f" faults_of knobs_ok
  by unfold_locales (rule set_refines)

text \<open>The checks with their gates are the checks of the specification without.\<close>

lemma active_iff: "knobs_ok k \<Longrightarrow> g_any k = spec_active (faults_of k)"
  by (simp add: knobs_ok_def spec_active_def faults_of_def)

lemma blocked_refines: "knobs_ok k \<Longrightarrow> blocked k peer = spec_blocked (faults_of k) peer"
  using cut_iff [of "g_partitions k" "g_identity k" peer]
  by (auto simp: blocked_def spec_blocked_def faults_of_def knobs_ok_def)

lemma should_drop_refines: "knobs_ok k \<Longrightarrow> 0 \<le> draw \<Longrightarrow> should_drop k draw \<longleftrightarrow> draw < f_ppm (faults_of k)"
  by (auto simp: should_drop_def faults_of_def knobs_ok_def)

lemma wait_refines:
  assumes "knobs_ok k" and "\<bar>draw\<bar> \<le> g_jitter_ns k"
  shows "0 \<le> spec_delay (faults_of k) draw \<and>
    injected_wait k draw = spec_wait (faults_of k) draw"
  using assms
  by (auto simp: injected_wait_def spec_wait_def spec_delay_def faults_of_def knobs_ok_def int64_ok_def Let_def)

subsection \<open>Properties\<close>

text \<open>C12: The gates are invisible. After any sequence of setter calls, accepted or refused, the knobs
  answer every check as the set of faults asked for says: the setters' own replies are those of the
  specification; something is enabled exactly when a fault is set; traffic with a peer is blocked
  exactly when this node has a name and the unordered pair was cut and not healed since; a response is
  dropped exactly when the draw is below the rate; and a response is delayed by the mean plus
  the draw, never by a negative time (a sum past the range of nanoseconds is undefined), and then hung. The one-load gate, the second gate in front
  of the lock and the ordered pairs never show.\<close>

theorem knobs_refine_faults:
  assumes "run_all (\<lambda>k x. code_set x k) initial_knobs xs = (rs, k)"
  shows "\<exists>f. run_all (\<lambda>f x. spec_set x f) no_faults xs = (rs, f) \<and>
    any_enabled k = spec_active f \<and> (\<forall>peer. blocked k peer = spec_blocked f peer) \<and>
    (\<forall>draw \<ge> 0. should_drop k draw \<longleftrightarrow> draw < f_ppm f) \<and>
    (\<forall>draw loads. \<bar>draw\<bar> \<le> f_jitter f \<longrightarrow> 0 \<le> spec_delay f draw \<and>
      before_response k draw loads =
        (if spec_active f
         then and_then (spec_wait f draw) (\<lambda>waits. and_then (hang_loop loads) (\<lambda>sleeps. Inr (waits @ sleeps)))
         else Inr []))"
proof -
  from knobs.run_simulates [OF knobs_ok_initial assms] have k: "knobs_ok k"
    and f: "run_all (\<lambda>f x. spec_set x f) no_faults xs = (rs, faults_of k)"
    by (simp_all add: faults_of_initial)
  have "0 \<le> spec_delay (faults_of k) draw \<and> before_response k draw loads =
        (if spec_active (faults_of k)
         then and_then (spec_wait (faults_of k) draw) (\<lambda>waits.
           and_then (hang_loop loads) (\<lambda>sleeps. Inr (waits @ sleeps)))
         else Inr [])" if "\<bar>draw\<bar> \<le> f_jitter (faults_of k)" for draw loads
    using wait_refines [OF k, of draw] that active_iff [OF k] by (auto simp: before_response_def faults_of_def)
  then show ?thesis
    using f active_iff [OF k] blocked_refines [OF k] should_drop_refines [OF k]
    by (intro exI [of _ "faults_of k"]) (simp add: any_enabled_def)
qed

definition cut_off :: "setter list" where
  "cut_off = [Identity ''n1'', Partition ''n2'' ''n1'', Partition ''n1'' ''n1'', Heal ''n1'' ''n3'']"

theorem knobs_refine_faults_witness:
  "blocked (snd (run_all (\<lambda>k x. code_set x k) initial_knobs cut_off)) ''n2'' \<and>
   \<not> blocked (snd (run_all (\<lambda>k x. code_set x k) initial_knobs cut_off)) ''n3''"
proof -
  obtain rs k where r: "run_all (\<lambda>k x. code_set x k) initial_knobs cut_off = (rs, k)" by fastforce
  from knobs_refine_faults [OF r] obtain f where f:
    "run_all (\<lambda>f x. spec_set x f) no_faults cut_off = (rs, f)" "\<And>peer. blocked k peer = spec_blocked f peer"
    by blast
  have "f_identity f = ''n1''" "f_cuts f = {{''n2'', ''n1''}}"
    using f(1) by (auto simp: cut_off_def no_faults_def doubleton_eq_iff)
  with f(2) show ?thesis by (auto simp: r spec_blocked_def doubleton_eq_iff insert_commute)
qed

text \<open>A hang ends when it is healed. However long \<open>g_hanging\<close> was found set, the first load that
  finds it clear lets \<open>before_response\<close> return, after one millisecond of sleep per earlier load
  and the injected delay before them; with no load that finds it clear it never returns.\<close>

theorem hang_ends_when_healed:
  assumes "g_any k" and "injected_wait k draw = Inr waits"
  shows "before_response k draw (replicate n True @ False # later) =
      Inr (waits @ replicate n 1000000) \<and>
    before_response k draw (replicate n True) = Inl Blocked"
proof -
  have "hang_loop (replicate n True @ False # later) = Inr (replicate n 1000000)"
    "hang_loop (replicate n True) = Inl Blocked"
    by (induction n) simp_all
  then show ?thesis using assms by (simp add: before_response_def)
qed

theorem hang_ends_when_healed_witness:
  "before_response (initial_knobs\<lparr>g_any := True, g_hanging := True\<rparr>) 0 [True, True, False] = Inr [1000000, 1000000]"
  using hang_ends_when_healed [of "initial_knobs\<lparr>g_any := True, g_hanging := True\<rparr>" 0 "[]" 2 "[]"]
  by (simp add: initial_knobs_def injected_wait_def numeral_2_eq_2)

text \<open>A drop probability is kept to half a millionth. \<open>set_drop_probability\<close> accepts exactly the doubles
  from 0 to 1 (no NaN), and the stored rate, out of a million draws, is within 0.5 (and 2^-32 of
  rounding) of the probability: 0 never drops and 1 always does.\<close>

theorem drop_probability_kept:
  assumes "0 \<le> q" and "q \<le> 1"
  shows "\<exists>v. set_drop_probability (Fin q) k =
      (Inr (), fst (foldl exec (k\<lparr>g_drop_ppm := v\<rparr>, False) refresh_gate)) \<and>
    0 \<le> v \<and> v \<le> 1000000 \<and> \<bar>of_int v - q * 1000000\<bar> \<le> 1 / 2 + 1 / 2 ^ 32 \<and>
    (q = 0 \<longrightarrow> v = 0) \<and> (q = 1 \<longrightarrow> v = 1000000)"
proof -
  from ppm_of_bounds [OF assms] obtain v where v: "ppm_of (Fin q) = Inr v" "0 \<le> v" "v \<le> 1000000"
    "\<bar>of_int v - q * 1000000\<bar> \<le> 1 / 2 + 1 / 2 ^ 32" by blast
  have "v = 0" if "q = 0"
  proof -
    have "\<bar>of_int v :: rat\<bar> < of_int 1" using v(4) that by simp
    then have "\<bar>v\<bar> < 1" by (metis of_int_abs of_int_less_iff)
    then show ?thesis by simp
  qed
  moreover have "v = 1000000" if "q = 1"
  proof -
    have "\<bar>of_int (v - 1000000) :: rat\<bar> < of_int 1" using v(4) that by simp
    then have "\<bar>v - 1000000\<bar> < 1" by (metis of_int_abs of_int_less_iff)
    then show ?thesis by simp
  qed
  ultimately show ?thesis using v assms by (auto simp: set_drop_probability_def k_simps)
qed

theorem drop_probability_kept_witness:
  "\<exists>v. set_drop_probability (Fin 1) initial_knobs =
      (Inr (), fst (foldl exec (initial_knobs\<lparr>g_drop_ppm := v\<rparr>, False) refresh_gate)) \<and> v = 1000000"
  using drop_probability_kept [of 1 initial_knobs] by auto

lemma code_set_throws:
  "code_set x k = (Inl e, k') \<Longrightarrow> k' = k \<and> (is_UsageError e \<or> e = Undefined ''duration overflow'')"
proof (cases x)
  case (Drop p)
  assume *: "code_set x k = (Inl e, k')"
  show ?thesis
  proof (cases "d_le (Fin 0) p \<and> d_le p (Fin 1)")
    case True
    then obtain q where "p = Fin q" "0 \<le> q" "q \<le> 1" by (cases p) auto
    with True * ppm_of_bounds [of q] show ?thesis
      by (auto simp: Drop set_drop_probability_def k_simps)
  next
    case False
    with * show ?thesis by (auto simp: Drop set_drop_probability_def k_simps)
  qed
qed (auto simp: set_latency_def nanos_of_millis_def set_hang_forever_def set_identity_def partition_nodes_def
  heal_def clear_def k_simps split: if_splits)

lemma expect_then:
  "k_then (expect words n) f k =
    (if length words \<noteq> n + 1
     then (Inl (UsageError (words ! 0 @ '' takes '' @ string_of_nat n @ '' argument(s)'')), k) else f () k)"
  by (simp add: expect_def k_simps)

definition whole :: "string kop \<Rightarrow> knobs \<Rightarrow> bool" where
  "whole m k \<longleftrightarrow> (case m k of
     (Inl e, k') \<Rightarrow> k' = k \<and> (is_UsageError e \<or> e = Undefined ''duration overflow'')
   | (Inr reply, k') \<Rightarrow> reply = ''ok'' \<and> (\<exists>x. code_set x k = (Inr (), k')) \<or>
       k' = k \<and> reply = (if any_enabled k then ''faults active'' else ''no faults''))"

lemma whole_ok: "code_set x = m \<Longrightarrow> whole (ok m) k"
proof -
  assume m: "code_set x = m"
  obtain r v where c: "code_set x k = (r, v)" by fastforce
  show ?thesis
  proof (cases r)
    case (Inl e)
    with code_set_throws [of x k e v] c m show ?thesis by (auto simp: whole_def ok_def k_simps)
  next
    case (Inr u)
    with c m show ?thesis by (auto simp: whole_def ok_def k_simps)
  qed
qed

lemmas whole_setters = code_set.simps [THEN whole_ok]

lemma whole_throw: "is_UsageError e \<Longrightarrow> whole (k_throw e) k"
  by (simp add: whole_def k_throw_def)

lemma whole_then:
  assumes "\<And>x. r = Inr x \<Longrightarrow> whole (f x) k" and "\<And>e. r = Inl e \<Longrightarrow> is_UsageError e"
  shows "whole (k_then (k_lift r) f) k"
  using assms by (cases r) (simp_all add: whole_def k_then_def k_lift_def)

lemma whole_expect: "whole (f ()) k \<Longrightarrow> whole (k_then (expect words n) f) k"
  unfolding whole_def expect_then by simp

lemma reads_usage:
  "as_millis t u = Inl e \<Longrightarrow> is_UsageError e" "as_probability t u = Inl e \<Longrightarrow> is_UsageError e"
  by (auto simp: as_millis_def as_probability_def Let_def split: option.splits if_splits)

lemma whole_command: "whole (apply_command line) k"
proof -
  define words where "words = split_on line (CHR '' '')"
  have "whole (\<lambda>k. (Inr (if any_enabled k then ''faults active'' else ''no faults''), k)) k"
    by (simp add: whole_def)
  then show ?thesis
    unfolding apply_command_def words_def [symmetric] Let_def
    by (auto intro!: whole_throw whole_then whole_expect whole_setters dest: reads_usage)
qed

text \<open>A command is carried out whole or not at all. For every line the control socket can receive:
  either the reply is an error (a \<open>UsageError\<close>, or the overflow of a duration) and no knob has
  changed; or it is \<open>ok\<close> and the change is exactly that of one accepted setter call; or it is the
  status, and nothing has changed.\<close>

theorem command_all_or_nothing:
  assumes "apply_command line k = (r, k')"
  shows "case r of
      Inl e \<Rightarrow> k' = k \<and> (is_UsageError e \<or> e = Undefined ''duration overflow'')
    | Inr reply \<Rightarrow> reply = ''ok'' \<and> (\<exists>x. code_set x k = (Inr (), k')) \<or>
        k' = k \<and> reply = (if any_enabled k then ''faults active'' else ''no faults'')"
  using whole_command [of line k] assms by (simp add: whole_def split: sum.splits)

theorem command_all_or_nothing_witness:
  "\<exists>x k'. apply_command ''hang 1'' initial_knobs = (Inr ''ok'', k') \<and> code_set x initial_knobs = (Inr (), k')"
proof -
  obtain k' where *: "apply_command ''hang 1'' initial_knobs = (Inr ''ok'', k')"
    by (simp add: apply_command_def split_on_def expect_def ok_def set_hang_forever_def k_simps)
  from command_all_or_nothing [OF this] have "\<exists>x. code_set x initial_knobs = (Inr (), k')"
    by (auto simp: any_enabled_def initial_knobs_def)
  with * show ?thesis by blast
qed

text \<open>Words without blanks come apart as they were put together.\<close>

fun unwords :: "string list \<Rightarrow> string" where
  "unwords [] = []"
| "unwords [w] = w"
| "unwords (w # ws) = w @ CHR '' '' # unwords ws"

lemma split_from_word:
  "c \<notin> set w \<Longrightarrow> split_from c current parts (w @ text) = split_from c (current @ w) parts text"
  by (induction w arbitrary: current) auto

lemma split_from_unwords:
  assumes "\<forall>w \<in> set ws. w \<noteq> [] \<and> CHR '' '' \<notin> set w"
  shows "split_from (CHR '' '') [] parts (unwords ws) = parts @ ws"
  using assms
proof (induction ws arbitrary: parts rule: unwords.induct)
  case (2 w)
  then show ?case using split_from_word [of "CHR '' ''" w "[]" parts "[]"] by simp
next
  case (3 w v ws)
  then show ?case
    using split_from_word [of "CHR '' ''" w "[]" parts "CHR '' '' # unwords (v # ws)"] by simp
qed simp

lemma split_on_unwords:
  "\<forall>w \<in> set ws. w \<noteq> [] \<and> CHR '' '' \<notin> set w \<Longrightarrow> split_on (unwords ws) (CHR '' '') = ws"
  unfolding split_on_def by (simp add: split_from_unwords)

text \<open>The latency command sets what it says. For a mean and a jitter in whole milliseconds, written in
  decimal, the command stores them in nanoseconds and replies \<open>ok\<close>, when the jitter is at most
  the mean and the mean fits the type; and it is refused, with nothing changed, when the jitter is larger.\<close>

theorem latency_command:
  assumes "m * 1000000 < 2 ^ 63" and "j * 1000000 < 2 ^ 63"
  shows "apply_command (unwords [''latency'', string_of_nat m, string_of_nat j]) k =
    (if j \<le> m
     then (Inr ''ok'', fst (foldl exec (k\<lparr>g_latency_ns := int m * 1000000, g_jitter_ns := int j * 1000000\<rparr>, False)
       refresh_gate))
     else (Inl (UsageError ''injected jitter must not exceed the mean''), k))"
proof -
  have digits: "CHR '' '' \<notin> set (string_of_nat n)" for n
    using string_of_nat_digits [of n] by (auto simp: is_digit_def)
  have read: "read_int64 (string_of_nat n) = Some (int n)" if "n * 1000000 < 2 ^ 63" for n
    using read_int64_plain [of "string_of_nat n"] string_of_nat_digits [of n] that by simp
  have fits: "int64_ok (int n * 1000000)" if "n * 1000000 < 2 ^ 63" for n
  proof -
    have "int (n * 1000000) < int (2 ^ 63)" using that by (simp only: of_nat_less_iff)
    then show ?thesis by (simp add: int64_ok_def)
  qed
  have words: "split_on (unwords [''latency'', string_of_nat m, string_of_nat j]) (CHR '' '') =
      [''latency'', string_of_nat m, string_of_nat j]"
    by (rule split_on_unwords) (use digits in auto)
  show ?thesis
    unfolding apply_command_def words Let_def
    using read [OF assms(1)] read [OF assms(2)] fits [OF assms(1)] fits [OF assms(2)]
    by (simp add: expect_def as_millis_def set_latency_def nanos_of_millis_def ok_def k_simps)
qed

theorem latency_command_witness:
  "apply_command ''latency 20 5'' initial_knobs =
    (Inr ''ok'', initial_knobs\<lparr>g_latency_ns := 20000000, g_jitter_ns := 5000000, g_any := True\<rparr>)"
proof -
  have "string_of_nat 20 = ''20''" "string_of_nat 5 = ''5''" by code_simp+
  then have "unwords [''latency'', string_of_nat 20, string_of_nat 5] = ''latency 20 5''" by simp
  with latency_command [of 20 5 initial_knobs] show ?thesis
    by (simp add: refresh_gate_def initial_knobs_def)
qed

definition interleaved :: "knobs \<Rightarrow> knobs" where
  "interleaved k =
     (let (k1, clearing) = foldl exec (k, False) (butlast clear_steps);
          (k2, hanging) = foldl exec (k1, False) (Store_Hanging True # refresh_gate);
          (k3, clearing) = exec (k2, clearing) (last clear_steps)
      in k3)"

text \<open>Two setters at once can lose a fault. The stores are atomic, but \<open>refresh_gate\<close> is a computation over
  four loads followed by a store: when \<open>set_hang_forever(true)\<close> runs between the loads and the
  store of a concurrent \<open>clear()\<close>, both calls return and the hang is set, but the gate is off, so
  \<open>before_response\<close> never hangs and \<open>status\<close> reports no faults.\<close>

theorem setters_race:
  "g_hanging (interleaved initial_knobs) \<and> \<not> any_enabled (interleaved initial_knobs) \<and>
   before_response (interleaved initial_knobs) draw loads = Inr []"
  by (simp add: interleaved_def clear_steps_def refresh_gate_def initial_knobs_def any_enabled_def
      before_response_def)

text \<open>An accepted latency can overflow the wait. A mean of 9223372036854ms is just inside the range of
  nanoseconds and so is an equal jitter; a draw above 775807ns then leaves it.\<close>

theorem jitter_overflows:
  assumes "775807 < draw"
  shows "fst (set_latency 9223372036854 9223372036854 initial_knobs) = Inr () \<and>
    before_response (snd (set_latency 9223372036854 9223372036854 initial_knobs)) draw loads =
      Inl (Undefined ''duration overflow'')"
  using assms
  by (simp add: set_latency_def nanos_of_millis_def int64_ok_def k_simps initial_knobs_def before_response_def
      injected_wait_def)

theorem jitter_overflows_witness:
  "before_response (snd (set_latency 9223372036854 9223372036854 initial_knobs)) 800000 [] =
     Inl (Undefined ''duration overflow'')"
  by (rule jitter_overflows [THEN conjunct2]) simp

text \<open>A misspelt switch is silently off. \<open>DARIYANAAP_FAULT_HANG\<close> set to anything but \<open>1\<close> and
  \<open>true\<close>, such as \<open>yes\<close> or \<open>True\<close>, raises no error and leaves the hang off, though a value that cannot be
  read is documented to throw; the same holds for the \<open>hang\<close> command.\<close>

theorem misspelt_hang_is_off:
  assumes "value \<noteq> ''1''" and "value \<noteq> ''true''"
  shows "load_from_env [''DARIYANAAP_FAULT_HANG'' \<mapsto> value] initial_knobs = (Inr (), initial_knobs)"
  using assms
  by (simp add: load_from_env_def from_env_def when_set_def set_hang_forever_def switched_on_def k_simps
      initial_knobs_def)

theorem misspelt_hang_is_off_witness:
  "load_from_env [''DARIYANAAP_FAULT_HANG'' \<mapsto> ''yes''] initial_knobs = (Inr (), initial_knobs)"
  by (rule misspelt_hang_is_off) simp_all

end
