(* ===== verification/Control.thy ===== *)
theory Control
  imports Knobs Listener Threads
begin

text \<open>
  The control socket of the fault library, \<open>src/fault/control.hpp\<close> and \<open>control.cpp\<close>: \<open>serve\<close>, which reads
  lines of a connection, applies each and replies, and the acceptor thread. Both act on the world of
  \<open>Effects\<close> and on the knobs, so the state is the pair of them; what has been set when an
  operation ends stays set. The loops are recursive functions: cutting a line off shortens the
  pending text, and every read and every accept consumes an answer of the kernel.
\<close>

type_synonym 'addr served = "'addr world \<times> knobs"

definition io :: "('addr, 'a) op \<Rightarrow> 'addr served \<Rightarrow> 'a result \<times> 'addr served" where
  "io m s = (case m (fst s) of (r, w') \<Rightarrow> (r, (w', snd s)))"

definition chop_return :: "string \<Rightarrow> string" where
  "chop_return line = (if line \<noteq> [] \<and> last line = CHR 0x0D then butlast line else line)"

text \<open>One line: its reply, or the exception that no handler here catches.\<close>

definition reply_to :: "string \<Rightarrow> string kop" where
  "reply_to line k =
     (case apply_command (chop_return line) k of
        (Inr reply, k') \<Rightarrow> (Inr (reply @ [CHR 0x0A]), k')
      | (Inl e, k') \<Rightarrow>
          if is_Error e then (Inr (''error: '' @ what e @ [CHR 0x0A]), k') else (Inl e, k'))"

text \<open>The inner loop. \<open>None\<close>: the peer is gone and \<open>serve\<close> returns; \<open>Some\<close>: what is left pending.\<close>

function serve_lines :: "string \<Rightarrow> 'addr served \<Rightarrow> string option result \<times> 'addr served" where
  "serve_lines pending (w, k) =
     (case find_char (CHR 0x0A) pending of
        None \<Rightarrow> (Inr (Some pending), (w, k))
      | Some newline \<Rightarrow>
          (case reply_to (take newline pending) k of
             (Inl e, k') \<Rightarrow> (Inl e, (w, k'))
           | (Inr reply, k') \<Rightarrow>
               (case write_all reply w of
                  (Inl e, w') \<Rightarrow> (if is_IoError e then Inr None else Inl e, (w', k'))
                | (Inr _, w') \<Rightarrow> serve_lines (drop (newline + 1) pending) (w', k'))))"
  by pat_completeness auto

termination
  by (relation "measure (\<lambda>(pending, _). length pending)") (auto dest: find_char_Some)

text \<open>The loops consume the kernel's answers.\<close>

lemma serve_lines_follows: "serve_lines pending s = (r, s') \<Longrightarrow> follows (fst s) (fst s')"
proof (induction pending s rule: serve_lines.induct)
  case (1 pending w k)
  show ?case
  proof (cases "find_char (CHR 0x0A) pending")
    case None
    with 1(2) show ?thesis by (simp add: serve_lines.simps)
  next
    case (Some newline)
    obtain a k1 where a: "reply_to (take newline pending) k = (a, k1)" by fastforce
    show ?thesis
    proof (cases a)
      case (Inl e)
      with 1(2) Some a show ?thesis by (auto simp: serve_lines.simps)
    next
      case (Inr reply)
      obtain b w1 where b: "write_all reply w = (b, w1)" by fastforce
      have f: "follows w w1" by (rule well_behavedD [OF well_behaved_write_all b])
      show ?thesis
      proof (cases b)
        case (Inl e)
        with 1(2) Some a Inr b f show ?thesis by (auto simp: serve_lines.simps)
      next
        case u: (Inr u)
        with 1(2) Some a Inr b have "serve_lines (drop (newline + 1) pending) (w1, k1) = (r, s')"
          by (simp add: serve_lines.simps [of pending])
        from 1(1) [OF Some a [symmetric] Inr b [symmetric] u this] f show ?thesis
          by (auto intro: follows_trans)
      qed
    qed
  qed
qed

text \<open>The outer loop of \<open>serve\<close>.\<close>

function serve_from :: "string \<Rightarrow> 'addr served \<Rightarrow> unit result \<times> 'addr served" where
  "serve_from pending (w, k) =
     (case read_some 4096 w of
        (Inl e, w') \<Rightarrow> (if is_IoError e then Inr () else Inl e, (w', k))
      | (Inr got, w') \<Rightarrow>
          if got = [] then (Inr (), (w', k))
          else
            (case serve_lines (pending @ got) (w', k) of
               (Inl e, s) \<Rightarrow> (Inl e, s)
             | (Inr None, s) \<Rightarrow> (Inr (), s)
             | (Inr (Some left), s) \<Rightarrow> serve_from left s))"
  by pat_completeness auto

termination
proof (relation "measure (\<lambda>(_, w, _). length (w_kernel w))")
  fix pending w k r w' got r' s a left
  assume "(r, w') = read_some 4096 w" "r = Inr got" "(r', s) = serve_lines (pending @ got) (w', k)"
  then have "length (w_kernel w') < length (w_kernel w)" "follows w' (fst s)"
    using hungryD [OF hungry_read_some, of 4096 w r w'] serve_lines_follows [of "pending @ got" "(w', k)" r' s]
    by auto
  then show "((left, s), pending, w, k) \<in> measure (\<lambda>(_, w, _). length (w_kernel w))"
    by (cases s) (auto dest: follows_shorter)
qed simp

text \<open>\<open>serve\<close> owns the connection: its destructor closes it when the loop is left.\<close>

definition serve :: "nat \<Rightarrow> 'addr served \<Rightarrow> unit result \<times> 'addr served" where
  "serve fd s =
     (case serve_from [] s of
        (Inl e, s') \<Rightarrow> (Inl e, s')
      | (Inr _, s') \<Rightarrow> io (log_action (Closed fd)) s')"

lemma serve_from_follows: "serve_from pending s = (r, s') \<Longrightarrow> follows (fst s) (fst s')"
proof (induction pending s rule: serve_from.induct)
  case (1 pending w k)
  obtain a w1 where a: "read_some 4096 w = (a, w1)" by fastforce
  have f: "follows w w1" by (rule well_behavedD [OF well_behaved_read_some a])
  show ?case
  proof (cases "\<exists>got. a = Inr got \<and> got \<noteq> []")
    case False
    with 1(2) a f show ?thesis by (auto simp: serve_from.simps [of pending] split: sum.splits)
  next
    case True
    then obtain got where got: "a = Inr got" "got \<noteq> []" by blast
    obtain b s1 where b: "serve_lines (pending @ got) (w1, k) = (b, s1)"
      by (cases "serve_lines (pending @ got) (w1, k)")
    have g: "follows w (fst s1)" using follows_trans [OF f] serve_lines_follows [OF b] by simp
    show ?thesis
    proof (cases "\<exists>left. b = Inr (Some left)")
      case False
      with 1(2) a got b g show ?thesis
        by (auto simp: serve_from.simps [of pending] split: sum.splits option.splits)
    next
      case True
      then obtain left where left: "b = Inr (Some left)" by blast
      with 1(2) a got b have "serve_from left s1 = (r, s')" by (simp add: serve_from.simps [of pending])
      from 1(1) [OF a [symmetric] got b [symmetric] left _ this] g show ?thesis by (auto intro: follows_trans)
    qed
  qed
qed

lemma io_follows: "well_behaved m \<Longrightarrow> io m s = (r, s') \<Longrightarrow> follows (fst s) (fst s')"
  by (auto simp: io_def dest: well_behavedD split: prod.splits)

lemma serve_follows: "serve fd s = (r, s') \<Longrightarrow> follows (fst s) (fst s')"
  by (auto simp: serve_def intro: follows_trans dest!: serve_from_follows io_follows [OF well_behaved_log]
      split: prod.splits sum.splits)

lemma accept_shorter: "accept address w = (Inr fd, w') \<Longrightarrow> length (w_kernel w') < length (w_kernel w)"
proof (induction "length (w_kernel w)" arbitrary: w rule: less_induct)
  case less
  show ?case
  proof (cases "w_kernel w")
    case Nil
    with less(2) show ?thesis by (simp add: accept_step)
  next
    case (Cons r rs)
    show ?thesis
    proof (cases r)
      case (Done n s)
      with less(2) Cons have "adopt n (w\<lparr>w_kernel := rs, w_log := w_log w @ [Opened n]\<rparr>) = (Inr fd, w')"
        by (simp add: accept_step)
      from follows_shorter [OF well_behavedD [OF well_behaved_adopt this]] Cons show ?thesis by simp
    next
      case (Fail e)
      with less(2) Cons have "accept address (w\<lparr>w_kernel := rs\<rparr>) = (Inr fd, w')"
        by (simp add: accept_step split: if_splits)
      from less(1) [OF _ this] Cons show ?thesis by simp
    qed
  qed
qed

subsection \<open>The acceptor thread and the destructor\<close>

text \<open>\<open>stopping n\<close> is what the load of the flag after the \<open>n\<close>-th accept finds. An exception that leaves this
  function leaves the thread, and the process terminates.\<close>

function acceptor :: "'addr \<Rightarrow> (nat \<Rightarrow> bool) \<Rightarrow> nat \<Rightarrow> 'addr served \<Rightarrow> unit result \<times> 'addr served" where
  "acceptor address stopping n (w, k) =
     (case accept address w of
        (Inl e, w') \<Rightarrow> (Inl e, (w', k))
      | (Inr fd, w') \<Rightarrow>
          if stopping n then io (log_action (Closed fd)) (w', k)
          else
            (case io (owning fd (set_timeouts 600000 10000)) (w', k) of
               (Inl e, s) \<Rightarrow> (Inl e, s)
             | (Inr _, s) \<Rightarrow>
                 (case serve fd s of
                    (Inl e, s') \<Rightarrow> (Inl e, s')
                  | (Inr _, s') \<Rightarrow> acceptor address stopping (Suc n) s')))"
  by pat_completeness auto

termination
proof (relation "measure (\<lambda>(_, _, _, w, _). length (w_kernel w))")
  fix address and stopping :: "nat \<Rightarrow> bool" and n k r fd a s b s' u v and w w' :: "'addr world"
  assume "(r, w') = accept address w" "r = Inr fd" "(a, s) = io (owning fd (set_timeouts 600000 10000)) (w', k)"
    "(b, s') = serve fd s"
  then have "length (w_kernel w') < length (w_kernel w)" "follows w' (fst s')"
    using follows_trans [of w' "fst s" "fst s'"] accept_shorter [of address w fd w'] serve_follows [of fd s b s']
      io_follows [OF well_behaved_owning [OF well_behaved_setters(3)], of fd 600000 10000 "(w', k)" a s]
    by auto
  then show "((address, stopping, Suc n, s'), address, stopping, n, w, k) \<in> measure (\<lambda>(_, _, _, w, _). length (w_kernel w))"
    by (cases s') (auto dest: follows_shorter)
qed simp

text \<open>The connection that wakes the acceptor. An \<open>IoError\<close> is taken to mean that there is nothing to wake.\<close>

definition poke :: "resolver \<Rightarrow> u16 \<Rightarrow> (socket_address, unit) op" where
  "poke getaddrinfo port =
     catching is_IoError
       (op_then (lift (make_endpoint ''127.0.0.1'' port)) (\<lambda>e.
        op_then (lift (resolve getaddrinfo e)) (\<lambda>addresses.
        op_then (connect_any addresses 500) (\<lambda>fd. log_action (Closed fd)))))
       (\<lambda>_. return_op ())"

text \<open>The constructor's listener, and the destructor: the poke on the destroying thread's world \<open>w\<close>, then the join, which
  returns when the acceptor, on its own world, does.\<close>

definition control_listener ::
  "resolver \<Rightarrow> sockname \<Rightarrow> string \<Rightarrow> u16 \<Rightarrow> (socket_address, listener) op" where
  "control_listener getaddrinfo sockname host port =
     (if port = 0 then bind_ephemeral getaddrinfo sockname host kDefaultBacklog
      else op_then (lift (make_endpoint host port)) (\<lambda>e.
        bind_listener getaddrinfo sockname e kDefaultBacklog))"

definition destroy_control ::
  "resolver \<Rightarrow> listener \<Rightarrow> socket_address world \<Rightarrow> (nat \<Rightarrow> bool) \<Rightarrow> nat \<Rightarrow> socket_address served \<Rightarrow> unit result" where
  "destroy_control getaddrinfo l w stopping n s =
     (case poke getaddrinfo (l_port l) w of
        (Inl e, _) \<Rightarrow> Inl e
      | (Inr _, _) \<Rightarrow> fatal (fst (acceptor (l_address l) stopping n s)))"

subsection \<open>Properties\<close>

text \<open>A peer and a kernel that take a reply: \<open>takes data answers pieces\<close> lists the answers to the writes of
  \<open>data\<close>, with signals and partial writes as they come, and the pieces accepted.\<close>

inductive takes :: "string \<Rightarrow> sysret list \<Rightarrow> string list \<Rightarrow> bool" where
  all_taken: "takes [] [] []"
| interrupted: "data \<noteq> [] \<Longrightarrow> takes data rs ps \<Longrightarrow> takes data (Fail EINTR # rs) ps"
| piece: "0 < n \<Longrightarrow> n \<le> length data \<Longrightarrow> takes (drop n data) rs ps \<Longrightarrow>
    takes data (Done n s # rs) (take n data # ps)"

lemma takes_pieces: "takes data rs ps \<Longrightarrow> concat ps = data"
  by (induction rule: takes.induct) auto

lemma takes_write:
  assumes "takes rest rs ps" and "rest = drop sent data" and "sent \<le> length data" and "w_kernel w = rs @ later"
  shows "iterate (write_turn data) sent w = (Inr (), w\<lparr>w_kernel := later, w_log := w_log w @ map Sent ps\<rparr>)"
  using assms
proof (induction arbitrary: sent w rule: takes.induct)
  case all_taken
  then have "write_turn data sent w = (Inr (Exit ()), w)" by (simp add: write_turn_def return_op_def)
  with all_taken show ?case
    by (simp add: iterate_unfold [OF consumes_write, of data sent] op_then_def return_op_def)
next
  case (interrupted d rs ps)
  let ?w = "w\<lparr>w_kernel := rs @ later\<rparr>"
  have "write_turn data sent w = (Inr (Again sent), ?w)"
    using interrupted.hyps(1) interrupted.prems by (auto simp: write_turn_def op_then_def op_simps syscall_def)
  with interrupted.IH [of sent ?w] interrupted.prems show ?case
    by (simp add: iterate_unfold [OF consumes_write, of data sent] op_then_def)
next
  case (piece n d rs ps s)
  let ?w = "w\<lparr>w_kernel := rs @ later, w_log := w_log w @ [Sent (take n (drop sent data))]\<rparr>"
  have n: "n \<le> length data - sent" "0 < n" using piece by auto
  then have "write_turn data sent w = (Inr (Again (sent + n)), ?w)"
    using piece.prems by (auto simp: write_turn_def op_then_def op_simps syscall_def Let_def min_def)
  with piece.IH [of "sent + n" ?w] piece.prems n show ?case
    by (simp add: iterate_unfold [OF consumes_write, of data sent] op_then_def add.commute)
qed

lemma takes_write_all:
  "takes data rs ps \<Longrightarrow> w_kernel w = rs @ later \<Longrightarrow>
    write_all data w = (Inr (), w\<lparr>w_kernel := later, w_log := w_log w @ map Sent ps\<rparr>)"
  unfolding write_all_def by (rule takes_write [of data]) simp_all

text \<open>The lines of a stream, and the answers to a list of lines.\<close>

fun lines_of :: "string \<Rightarrow> string \<Rightarrow> string list \<times> string" where
  "lines_of current [] = ([], current)"
| "lines_of current (c # s) =
     (if c = CHR 0x0A then (case lines_of [] s of (ls, left) \<Rightarrow> (current # ls, left))
      else lines_of (current @ [c]) s)"

fun answers :: "string list \<Rightarrow> knobs \<Rightarrow> (string list \<times> knobs) option" where
  "answers [] k = Some ([], k)"
| "answers (line # ls) k =
     (case reply_to line k of
        (Inl e, k') \<Rightarrow> None
      | (Inr reply, k') \<Rightarrow>
          (case answers ls k' of None \<Rightarrow> None | Some (replies, k'') \<Rightarrow> Some (reply # replies, k'')))"

lemma lines_of_append:
  "lines_of current (s @ t) =
    (case lines_of current s of (ls, left) \<Rightarrow> (case lines_of left t of (ls', left') \<Rightarrow> (ls @ ls', left')))"
  by (induction current s rule: lines_of.induct) (auto split: prod.splits)

lemma lines_of_none: "CHR 0x0A \<notin> set s \<Longrightarrow> lines_of current s = ([], current @ s)"
  by (induction s arbitrary: current) auto

lemma lines_of_first:
  "find_char (CHR 0x0A) s = Some n \<Longrightarrow>
    lines_of current s = (case lines_of [] (drop (Suc n) s) of (ls, left) \<Rightarrow> ((current @ take n s) # ls, left))"
  by (induction s arbitrary: current n) (auto split: prod.splits if_splits)

lemma lines_of_left: "CHR 0x0A \<notin> set current \<Longrightarrow> CHR 0x0A \<notin> set (snd (lines_of current s))"
  by (induction current s rule: lines_of.induct) (auto split: prod.splits)

lemma answers_append:
  "answers (ls @ ls') k =
    (case answers ls k of None \<Rightarrow> None | Some (replies, k') \<Rightarrow>
       map_option (\<lambda>(replies', k''). (replies @ replies', k'')) (answers ls' k'))"
  by (induction ls k rule: answers.induct)
    (auto simp: option.map_id split: prod.splits sum.splits option.splits)

text \<open>All replies taken, one after the other.\<close>

inductive all_take :: "string list \<Rightarrow> sysret list \<Rightarrow> string list \<Rightarrow> bool" where
  "all_take [] [] []"
| "takes reply rs ps \<Longrightarrow> all_take replies rs' ps' \<Longrightarrow> all_take (reply # replies) (rs @ rs') (ps @ ps')"

inductive_cases all_take_ConsE: "all_take (reply # replies) rs ps"
inductive_cases all_take_NilE: "all_take [] rs ps"

lemma all_take_pieces: "all_take replies rs ps \<Longrightarrow> concat ps = concat replies"
  by (induction rule: all_take.induct) (simp_all add: takes_pieces)

lemma serve_lines_answers:
  assumes "lines_of [] pending = (ls, left)" and "answers ls k = Some (replies, k')"
    and "all_take replies rs ps" and "w_kernel w = rs @ later"
  shows "serve_lines pending (w, k) =
    (Inr (Some left), (w\<lparr>w_kernel := later, w_log := w_log w @ map Sent ps\<rparr>, k'))"
  using assms
proof (induction "length pending" arbitrary: pending ls k replies rs ps w rule: less_induct)
  case less
  show ?case
  proof (cases "find_char (CHR 0x0A) pending")
    case None
    then have "ls = []" "left = pending" using less.prems(1) lines_of_none by (auto simp: find_char_None)
    with less.prems None show ?thesis by (auto simp: serve_lines.simps [of pending] elim!: all_take_NilE)
  next
    case (Some n)
    obtain ls' where ls: "lines_of [] (drop (Suc n) pending) = (ls', left)" "ls = take n pending # ls'"
      using lines_of_first [OF Some, of "[]"] less.prems(1) by (auto split: prod.splits)
    then obtain reply k1 replies' where r: "reply_to (take n pending) k = (Inr reply, k1)"
      "answers ls' k1 = Some (replies', k')" "replies = reply # replies'"
      using less.prems(2) by (auto split: prod.splits sum.splits option.splits)
    from less.prems(3) obtain rs1 rs2 ps1 ps2 where t: "takes reply rs1 ps1" "all_take replies' rs2 ps2"
      "rs = rs1 @ rs2" "ps = ps1 @ ps2" unfolding r(3) by (elim all_take_ConsE) blast
    let ?w = "w\<lparr>w_kernel := rs2 @ later, w_log := w_log w @ map Sent ps1\<rparr>"
    have "write_all reply w = (Inr (), ?w)"
      using takes_write_all [OF t(1), of w "rs2 @ later"] less.prems(4) t(3) by simp
    moreover have "length (drop (Suc n) pending) < length pending" using find_char_Some [OF Some] by auto
    ultimately show ?thesis
      using less.hyps [OF _ ls(1) r(2) t(2), of ?w] Some r(1) t(4) by (simp add: serve_lines.simps [of pending])
  qed
qed

text \<open>A conversation: \<open>dialogue pending k chunks rs ps\<close> when the peer's bytes arrive as \<open>chunks\<close>, in whatever
  pieces the network makes of them, its end takes every reply, and it then hangs up; \<open>rs\<close> are the kernel's
  answers and \<open>ps\<close> the pieces of the replies.\<close>

inductive dialogue :: "string \<Rightarrow> knobs \<Rightarrow> string list \<Rightarrow> sysret list \<Rightarrow> string list \<Rightarrow> bool" where
  hangs_up: "dialogue pending k [] [Done n ''''] []"
| signalled: "dialogue pending k cs rs ps \<Longrightarrow> dialogue pending k cs (Fail EINTR # rs) ps"
| chunk: "c \<noteq> [] \<Longrightarrow> length c \<le> 4096 \<Longrightarrow> lines_of [] (pending @ c) = (ls, left) \<Longrightarrow>
    answers ls k = Some (replies, k') \<Longrightarrow> all_take replies rs ps \<Longrightarrow> dialogue left k' cs rs' ps' \<Longrightarrow>
    dialogue pending k (c # cs) (Done n c # rs @ rs') (ps @ ps')"

lemma read_some_step:
  "read_some 4096 w =
     (case w_kernel w of
        Fail EINTR # rs \<Rightarrow> read_some 4096 (w\<lparr>w_kernel := rs\<rparr>)
      | Done n s # rs \<Rightarrow> (Inr (take 4096 s), w\<lparr>w_kernel := rs\<rparr>)
      | _ \<Rightarrow> read_some 4096 w)"
  by (auto simp: read_some_def iterate_unfold [OF consumes_read, of _ "()" w] read_turn_def op_then_def
      syscall_def op_simps split: list.splits sysret.splits errno.splits)

lemma dialogue_serves:
  assumes "dialogue pending k chunks rs ps" and "CHR 0x0A \<notin> set pending" and "w_kernel w = rs @ later"
  shows "\<exists>replies k'. answers (fst (lines_of [] (pending @ concat chunks))) k = Some (replies, k') \<and>
    concat ps = concat replies \<and>
    serve_from pending (w, k) = (Inr (), (w\<lparr>w_kernel := later, w_log := w_log w @ map Sent ps\<rparr>, k'))"
  using assms
proof (induction arbitrary: w rule: dialogue.induct)
  case (hangs_up pending k n)
  then have "read_some 4096 w = (Inr '''', w\<lparr>w_kernel := later\<rparr>)" by (simp add: read_some_step)
  with hangs_up show ?case by (simp add: serve_from.simps [of pending] lines_of_none)
next
  case (signalled pending k cs rs ps)
  let ?w = "w\<lparr>w_kernel := rs @ later\<rparr>"
  have "read_some 4096 w = read_some 4096 ?w" using signalled.prems by (simp add: read_some_step [of w])
  then have "serve_from pending (w, k) = serve_from pending (?w, k)"
    by (simp add: serve_from.simps [of pending])
  with signalled.IH [of ?w] signalled.prems show ?case by simp
next
  case (chunk c pending ls left k replies k1 rs ps cs rs' ps' n)
  let ?w = "w\<lparr>w_kernel := rs @ rs' @ later\<rparr>"
  let ?v = "?w\<lparr>w_kernel := rs' @ later, w_log := w_log w @ map Sent ps\<rparr>"
  have read: "read_some 4096 w = (Inr c, ?w)" using chunk by (simp add: read_some_step)
  have "serve_lines (pending @ c) (?w, k) = (Inr (Some left), (?v, k1))"
    using serve_lines_answers [OF chunk.hyps(3,4,5), of ?w "rs' @ later"] by simp
  with read chunk.hyps(1) have go: "serve_from pending (w, k) = serve_from left (?v, k1)"
    by (simp add: serve_from.simps [of pending "w"])
  have "CHR 0x0A \<notin> set left" using lines_of_left [of "[]" "pending @ c"] chunk.hyps(3) by simp
  from chunk.IH [OF this, of ?v] obtain replies' k' where
    r: "answers (fst (lines_of [] (left @ concat cs))) k1 = Some (replies', k')" "concat ps' = concat replies'"
      "serve_from left (?v, k1) = (Inr (), (?v\<lparr>w_kernel := later, w_log := w_log ?v @ map Sent ps'\<rparr>, k'))" by auto
  have "lines_of [] (left @ concat cs) = lines_of left (concat cs)"
    using lines_of_append [of "[]" left "concat cs"] lines_of_none [of left "[]"] \<open>CHR 0x0A \<notin> set left\<close>
    by (simp split: prod.splits)
  then have "lines_of [] (pending @ c @ concat cs) = (ls @ fst (lines_of [] (left @ concat cs)),
      snd (lines_of [] (left @ concat cs)))"
    using lines_of_append [of "[]" "pending @ c" "concat cs"] chunk.hyps(3) by (simp split: prod.splits)
  with go r chunk.hyps(4) all_take_pieces [OF chunk.hyps(5)] show ?case
    by (intro exI [of _ "replies @ replies'"] exI [of _ k']) (simp add: answers_append)
qed

lemma serve_dialogue:
  assumes "dialogue [] k chunks rs ps" and "w_kernel w = rs @ later"
  shows "\<exists>replies k'. answers (fst (lines_of [] (concat chunks))) k = Some (replies, k') \<and>
    concat ps = concat replies \<and>
    serve fd (w, k) =
      (Inr (), (w\<lparr>w_kernel := later, w_log := w_log w @ map Sent ps @ [Closed fd]\<rparr>, k'))"
proof -
  from dialogue_serves [OF assms(1) _ assms(2)] obtain replies k' where
    "answers (fst (lines_of [] (concat chunks))) k = Some (replies, k')" "concat ps = concat replies"
    "serve_from [] (w, k) = (Inr (), (w\<lparr>w_kernel := later, w_log := w_log w @ map Sent ps\<rparr>, k'))" by auto
  then show ?thesis
    by (intro exI [of _ replies] exI [of _ k']) (simp add: serve_def io_def log_action_def)
qed

text \<open>C15: Packets do not matter to the control socket. However the operator's bytes are cut into chunks by the
  network, however signals interrupt the calls and however the replies are accepted piece by piece,
  \<open>serve\<close> executes exactly the lines of the concatenated stream, in order and each once, sends exactly their
  replies, each ending in a newline, and closes the connection when the peer hangs up; an
  unfinished last line is not executed.\<close>

theorem control_framing:
  assumes "dialogue [] k chunks rs ps" and "w_kernel w = rs @ later"
  shows "\<exists>replies k'. answers (fst (lines_of [] (concat chunks))) k = Some (replies, k') \<and>
    concat ps = concat replies \<and>
    serve fd (w, k) =
      (Inr (), (w\<lparr>w_kernel := later, w_log := w_log w @ map Sent ps @ [Closed fd]\<rparr>, k'))"
  using assms by (rule serve_dialogue)

lemma takes_whole: "data \<noteq> [] \<Longrightarrow> takes data [Done (length data) ''''] [data]"
  using piece [of "length data" data "[]" "[]" "''''"] all_taken by simp

lemma all_take_one: "takes reply rs ps \<Longrightarrow> all_take [reply] rs ps"
  using all_take.intros(2) [OF _ all_take.intros(1), of reply rs ps] by simp

definition line_feed :: string where
  "line_feed = [CHR 0x0A]"

definition hung :: knobs where
  "hung = initial_knobs\<lparr>g_any := True, g_hanging := True\<rparr>"

lemma reply_hang: "reply_to (''hang 1'' @ [CHR 0x0D]) initial_knobs = (Inr (''ok'' @ line_feed), hung)"
  by (simp add: reply_to_def chop_return_def apply_command_def split_on_def expect_def ok_def
      set_hang_forever_def switched_on_def k_simps line_feed_def hung_def initial_knobs_def)

lemmas reply_hang_chars = reply_hang [simplified append.simps]

definition split_hang :: "string list" where
  "split_hang = [''ha'', ''ng 1'' @ [CHR 0x0D], line_feed @ ''sta'']"

definition hang_answers :: "sysret list" where
  "hang_answers =
     [Done 2 ''ha'', Done 5 (''ng 1'' @ [CHR 0x0D]), Fail EINTR, Done 4 (line_feed @ ''sta''), Done 3 '''', Done 0 '''']"

lemma hang_dialogue:
  "dialogue [] initial_knobs split_hang
     hang_answers
     [''ok'' @ line_feed]"
proof -
  have d1: "dialogue ''sta'' hung [] [Done 0 ''''] []" by (rule hangs_up)
  have t: "all_take [''ok'' @ line_feed] [Done 3 ''''] [''ok'' @ line_feed]"
    using all_take_one [OF takes_whole [of "''ok'' @ line_feed"]] by (simp add: line_feed_def numeral_3_eq_3)
  have "dialogue (''hang 1'' @ [CHR 0x0D]) initial_knobs [line_feed @ ''sta'']
      (Done 4 (line_feed @ ''sta'') # [Done 3 ''''] @ [Done 0 '''']) ([''ok'' @ line_feed] @ [])"
    by (rule chunk [OF _ _ _ _ t d1, where ls = "[''hang 1'' @ [CHR 0x0D]]"])
      (simp_all add: line_feed_def reply_hang_chars [unfolded line_feed_def])
  then have d2: "dialogue (''hang 1'' @ [CHR 0x0D]) initial_knobs [line_feed @ ''sta'']
      [Fail EINTR, Done 4 (line_feed @ ''sta''), Done 3 '''', Done 0 ''''] [''ok'' @ line_feed]"
    by (intro signalled) simp
  have "dialogue ''ha'' initial_knobs [''ng 1'' @ [CHR 0x0D], line_feed @ ''sta'']
      (Done 5 (''ng 1'' @ [CHR 0x0D]) # [] @ [Fail EINTR, Done 4 (line_feed @ ''sta''), Done 3 '''', Done 0 ''''])
      ([] @ [''ok'' @ line_feed])"
    by (rule chunk [OF _ _ _ _ all_take.intros(1) d2, where ls = "[]"]) simp_all
  then have d3: "dialogue ''ha'' initial_knobs [''ng 1'' @ [CHR 0x0D], line_feed @ ''sta'']
      [Done 5 (''ng 1'' @ [CHR 0x0D]), Fail EINTR, Done 4 (line_feed @ ''sta''), Done 3 '''', Done 0 '''']
      [''ok'' @ line_feed]" by simp
  have "dialogue [] initial_knobs split_hang
      (Done 2 ''ha'' # [] @ [Done 5 (''ng 1'' @ [CHR 0x0D]), Fail EINTR, Done 4 (line_feed @ ''sta''), Done 3 '''', Done 0 ''''])
      ([] @ [''ok'' @ line_feed])"
    unfolding split_hang_def by (rule chunk [OF _ _ _ _ all_take.intros(1) d3, where ls = "[]"]) simp_all
  then show ?thesis by (simp add: hang_answers_def)
qed

theorem control_framing_witness:
  "fst (serve 7 (quiet_world hang_answers, initial_knobs)) = Inr () \<and>
    snd (snd (serve 7 (quiet_world hang_answers, initial_knobs))) = hung"
proof -
  have lines: "fst (lines_of [] (concat split_hang)) = [''hang 1'' @ [CHR 0x0D]]"
    by (simp add: split_hang_def line_feed_def)
  have reply: "answers [''hang 1'' @ [CHR 0x0D]] initial_knobs = Some ([''ok'' @ line_feed], hung)"
    by (simp only: answers.simps reply_hang prod.case sum.case option.case)
  show ?thesis
    using control_framing [OF hang_dialogue, of "quiet_world hang_answers" "[]" 7] lines reply
    by (auto simp: quiet_world_def)
qed

lemma command_keeps:
  assumes "apply_command line k = (r, k')" and "knobs_ok k"
  shows "knobs_ok k' \<and> (\<forall>e. r = Inl e \<longrightarrow> is_UsageError e \<or> e = Undefined ''duration overflow'')"
proof -
  have "knobs_ok (snd (code_set x k))" for x using set_refines [OF assms(2)] by simp
  then have "knobs_ok k'" if "code_set x k = (Inr (), k')" for x by (metis snd_conv that)
  then show ?thesis using whole_command [of line k] assms by (auto simp: whole_def split: sum.splits)
qed

lemma reply_keeps:
  assumes "reply_to line k = (r, k')" and "knobs_ok k"
  shows "knobs_ok k' \<and> (\<forall>e. r = Inl e \<longrightarrow> e = Undefined ''duration overflow'')"
proof -
  obtain a k1 where a: "apply_command (chop_return line) k = (a, k1)" by fastforce
  with command_keeps [OF a assms(2)] assms(1) show ?thesis
    by (auto simp: reply_to_def is_UsageError_is_Error split: sum.splits if_splits)
qed

text \<open>How an operation on the control connection may end.\<close>

fun ends_well :: "'a result \<Rightarrow> bool" where
  "ends_well (Inr _) = True"
| "ends_well (Inl e) = (e = Blocked \<or> e = Undefined ''duration overflow'')"

lemma serve_lines_keeps:
  "serve_lines pending s = (r, s') \<Longrightarrow> knobs_ok (snd s) \<Longrightarrow> knobs_ok (snd s') \<and> ends_well r"
proof (induction pending s rule: serve_lines.induct)
  case (1 pending w k)
  show ?case
  proof (cases "find_char (CHR 0x0A) pending")
    case None
    with 1 show ?thesis by (auto simp: serve_lines.simps [of pending])
  next
    case (Some newline)
    obtain a k1 where a: "reply_to (take newline pending) k = (a, k1)" by fastforce
    have k1: "knobs_ok k1" "\<forall>e. a = Inl e \<longrightarrow> e = Undefined ''duration overflow''"
      using reply_keeps [OF a] 1(3) by auto
    show ?thesis
    proof (cases a)
      case (Inl e)
      with 1(2) Some a k1 show ?thesis by (auto simp: serve_lines.simps [of pending])
    next
      case (Inr reply)
      obtain b w1 where b: "write_all reply w = (b, w1)" by fastforce
      show ?thesis
      proof (cases b)
        case (Inl e)
        then have "e = Blocked \<or> is_IoError e" using write_all_pieces [OF b] by auto
        with 1(2) Some a Inr b Inl k1 show ?thesis
          by (auto simp: serve_lines.simps [of pending] split: if_splits)
      next
        case u: (Inr u)
        with 1(2) Some a Inr b have "serve_lines (drop (newline + 1) pending) (w1, k1) = (r, s')"
          by (simp add: serve_lines.simps [of pending])
        from 1(1) [OF Some a [symmetric] Inr b [symmetric] u this] k1 show ?thesis by simp
      qed
    qed
  qed
qed

lemma serve_from_keeps:
  "serve_from pending s = (r, s') \<Longrightarrow> knobs_ok (snd s) \<Longrightarrow> knobs_ok (snd s') \<and> ends_well r"
proof (induction pending s rule: serve_from.induct)
  case (1 pending w k)
  obtain a w1 where a: "read_some 4096 w = (a, w1)" by fastforce
  have e: "e = Blocked \<or> is_IoError e" if "a = Inl e" for e
    using a that by (auto simp: read_first_answer split: list.splits sysret.splits if_splits)
  show ?case
  proof (cases "\<exists>got. a = Inr got \<and> got \<noteq> []")
    case False
    with 1(2,3) a e show ?thesis by (auto simp: serve_from.simps [of pending] split: sum.splits if_splits)
  next
    case True
    then obtain got where got: "a = Inr got" "got \<noteq> []" by blast
    obtain b s1 where b: "serve_lines (pending @ got) (w1, k) = (b, s1)"
      by (cases "serve_lines (pending @ got) (w1, k)")
    have g: "knobs_ok (snd s1) \<and> ends_well b" using serve_lines_keeps [OF b] 1(3) by simp
    show ?thesis
    proof (cases "\<exists>left. b = Inr (Some left)")
      case False
      with 1(2) a got b g show ?thesis
        by (auto simp: serve_from.simps [of pending] split: sum.splits option.splits)
    next
      case True
      then obtain left where left: "b = Inr (Some left)" by blast
      with 1(2) a got b have "serve_from left s1 = (r, s')" by (simp add: serve_from.simps [of pending])
      from 1(1) [OF a [symmetric] got b [symmetric] left _ this] g show ?thesis by auto
    qed
  qed
qed

text \<open>C25: No operator can break the knobs. Whatever bytes arrive on a control connection, however it fails
  and however its replies are refused, \<open>serve\<close> lets no exception out (the one exit that is not a return is the
  overflow of a latency too large for nanoseconds), and the knobs it leaves are well-formed: the
  gates agree with the faults, the cuts are ordered pairs, the jitter is at most the mean and the drop rate
  at most a million.\<close>

theorem control_keeps_knobs:
  assumes "serve fd (w, k) = (r, (w', k'))" and "knobs_ok k"
  shows "knobs_ok k' \<and> (r = Inr () \<or> r = Inl Blocked \<or> r = Inl (Undefined ''duration overflow''))"
proof -
  obtain a s where a: "serve_from [] (w, k) = (a, s)" by (cases "serve_from [] (w, k)")
  with serve_from_keeps [OF a] assms show ?thesis
    by (cases a) (auto simp: serve_def io_def log_action_def split: prod.splits)
qed

theorem control_keeps_knobs_witness:
  "\<exists>r w' k'. serve 7 (quiet_world [Done 2 ''xy''], initial_knobs) = (r, (w', k')) \<and> knobs_ok k'"
proof -
  obtain r w' k' where s: "serve 7 (quiet_world [Done 2 ''xy''], initial_knobs) = (r, (w', k'))"
    using prod_cases3 by blast
  from control_keeps_knobs [OF s knobs_ok_initial] s show ?thesis by blast
qed

text \<open>A failing accept ends the process. Nothing in the acceptor thread catches an exception of \<open>accept\<close>, so a
  connection that is reset in the backlog (\<open>ECONNABORTED\<close>) or a moment without descriptors (\<open>EMFILE\<close>)
  leaves the thread function as an \<open>IoError\<close>, and an exception that leaves a thread ends the service that
  links the library.\<close>

theorem accept_failure_escapes:
  assumes "e \<noteq> EINTR" and "w_kernel w = Fail e # rs"
  shows "acceptor address stopping n (w, k) =
    (Inl (IoError (describe ''accept on'' address e w)), (w\<lparr>w_kernel := rs\<rparr>, k))"
  using assms by (simp add: acceptor.simps [of address stopping n w] accept_step)

theorem accept_failure_escapes_witness:
  "fst (acceptor ''::1'' (\<lambda>_. False) 0 (quiet_world [Fail (Errno 103)], initial_knobs)) =
    Inl (IoError ''accept on ::1: Undefined error: 0'')"
  using accept_failure_escapes [of "Errno 103" "quiet_world [Fail (Errno 103)]" "[]" "''::1''" "\<lambda>_. False" 0 initial_knobs]
  by (simp add: quiet_world_def describe_def test_strerror_def)

text \<open>The addresses that an operation tries to connect to, and what bounds them.\<close>

definition knocked :: "'addr world \<Rightarrow> 'addr world \<Rightarrow> 'addr set" where
  "knocked v v' = {a. Connecting a \<in> set (drop (length (w_log v)) (w_log v'))}"

fun knocks_in :: "'addr set \<Rightarrow> 'addr action \<Rightarrow> bool" where
  "knocks_in A (Connecting a) \<longleftrightarrow> a \<in> A"
| "knocks_in A _ \<longleftrightarrow> True"

lemma logs_knocked: "logs (knocks_in A) m \<Longrightarrow> m v = (r, v') \<Longrightarrow> knocked v v' \<subseteq> A"
  by (force simp: knocked_def dest: logsD)

lemma logs_lifted: "(\<And>x. r = Inr x \<Longrightarrow> logs P (f x)) \<Longrightarrow> logs P (op_then (lift r) f)"
  by (cases r) (auto simp: logs_def op_then_def lift_def)

lemma logs_connect_in:
  assumes "a \<in> A"
  shows "logs (knocks_in A) (connect a timeout)"
proof -
  have io: "logs (knocks_in A) (disable_sigpipe fd)" "logs (knocks_in A) (set_nonblocking fd on)"
    "logs (knocks_in A) (owning fd m)" if "logs (knocks_in A) m" for fd on and m :: "('a, nat) op"
    using that unfolding disable_sigpipe_def set_nonblocking_def owning_def by (auto intro!: logging)
  have poll: "logs (knocks_in A) (poll_turn a timeout deadline u)" for deadline u
    unfolding poll_turn_def by (auto intro!: logging split: sysret.split)
  have owned: "logs (knocks_in A) (connect_owned fd a timeout)" for fd
    unfolding connect_owned_def finish_connect_def await_writable_def
    using assms io(2) [OF logs_basic(1)] by (auto intro!: logging poll split: sysret.split)
  show ?thesis
    unfolding connect_def adopt_def
    by (auto intro!: logging io(3) owned io(1) [OF logs_basic(1)])
qed

lemma logs_connect_any_in:
  assumes "set addresses \<subseteq> A"
  shows "logs (knocks_in A) (connect_any addresses timeout)"
proof -
  have "set as \<subseteq> A \<Longrightarrow> logs (knocks_in A) (connect_from b fs as timeout)" for b fs as
    by (induction b fs as timeout rule: connect_from.induct) (auto intro!: logging logs_connect_in)
  with assms show ?thesis unfolding connect_any_def by (auto intro!: logging)
qed

text \<open>The destructor only tries the addresses of 127.0.0.1.\<close>

definition local_addresses :: "resolver \<Rightarrow> socket_address set" where
  "local_addresses getaddrinfo =
     {a. \<exists>port addresses. getaddrinfo ''127.0.0.1'' port = Inr addresses \<and> a \<in> set addresses}"

lemma poke_knocks:
  assumes "poke getaddrinfo port v = (r, v')"
  shows "knocked v v' \<subseteq> local_addresses getaddrinfo"
proof -
  have "set addresses \<subseteq> local_addresses getaddrinfo"
    if "make_endpoint ''127.0.0.1'' port = Inr e" "resolve getaddrinfo e = Inr addresses" for e addresses
  proof -
    have "c_str (ep_host e) = ''127.0.0.1''"
      using that(1) by (auto simp: make_endpoint_def c_str_def split: if_splits)
    then show ?thesis
      using that(2) by (auto simp: resolve_def local_addresses_def split: sum.splits if_splits)
  qed
  then have "logs (knocks_in (local_addresses getaddrinfo)) (poke getaddrinfo port)"
    unfolding poke_def by (auto intro!: logging logs_lifted logs_connect_any_in)
  then show ?thesis using assms by (rule logs_knocked)
qed

lemma knocked_follows: "knocked v u \<subseteq> knocked v w" if "follows v u" and "follows u w"
  using that by (auto simp: follows_def knocked_def)

lemma knocked_first:
  assumes "w_kernel v = Done fd t # Done i t1 # Done j t2 # Done m t3 # rs" and "connect_any (a # as) timeout v = (r, v')"
  shows "a \<in> knocked v v'"
proof -
  obtain x u where c: "connect a timeout v = (x, u)" by fastforce
  let ?u = "v\<lparr>w_kernel := rs, w_log := w_log v @ [Opened fd, No_Sigpipe fd, Nonblocking fd True, Connecting a]\<rparr>"
  obtain G where G: "connect_owned fd a timeout =
      op_then (set_nonblocking fd True) (\<lambda>_. op_then (log_action (Connecting a)) (\<lambda>_. G))" and "well_behaved G"
  proof
    show "connect_owned fd a timeout = op_then (set_nonblocking fd True) (\<lambda>_. op_then (log_action (Connecting a))
        (\<lambda>_. op_then syscall (\<lambda>r. case r of
         Done _ _ \<Rightarrow> finish_connect fd
       | Fail e \<Rightarrow>
           if e \<noteq> EINPROGRESS then throws (\<lambda>w. IoError (describe ''connect to'' a e w))
           else
             op_then (await_writable a timeout) (\<lambda>_.
             op_then (checked_call (describe ''getsockopt(SO_ERROR) for'' a)) (\<lambda>pending.
               if pending \<noteq> 0 then throws (\<lambda>w. IoError (describe ''connect to'' a (Errno pending) w))
               else finish_connect fd)))))" by (rule connect_owned_def)
  qed (auto simp: finish_connect_def intro!: behaved split: sysret.split)
  then have "well_behaved (owning fd G)" by (intro behaved)
  moreover have "owning fd G ?u = (x, u)"
    using c assms(1)
    by (simp add: connect_def adopt_def owning_def catching_def checked_eq op_then_def op_simps disable_sigpipe_def
        set_nonblocking_def G)
  ultimately have u: "follows ?u u" by (rule well_behavedD)
  then have "a \<in> knocked v u" by (auto simp: follows_def knocked_def)
  moreover have "follows v u" using well_behavedD [OF well_behaved_connect c] .
  moreover have "follows u v'"
    using assms(2) c well_behavedD [OF well_behaved_connect_from]
    by (auto simp: connect_any_def catching_def split: sum.splits if_splits)
  ultimately show ?thesis using knocked_follows by blast
qed

text \<open>C39: The destructor may wait for ever. Let the acceptor get, beside no other client, the connection that the
  destructor makes to wake it when, and only when, one of the addresses which it tries reaches the address that the
  listener is bound to (\<open>covers\<close>, which is the network's). Then the destructor returns when this is so, and waits for ever
  in the join when it is not; and the addresses which it tries are those of 127.0.0.1, whatever the listener is bound to,
  the first of them whenever a socket can be made.
  So with a listener that those do not reach, on \<open>::1\<close> or on one interface, it waits for ever: the
  refusal is taken to mean that nothing needs waking.\<close>

theorem destructor_waits_for_ever:
  assumes "poke getaddrinfo (l_port l) v = (Inr (), v')" and "stopping n"
    and "w_kernel w = (if \<exists>a \<in> knocked v v'. covers a (l_address l) then [Done peer s, Done b t] else [])"
  shows "destroy_control getaddrinfo l v stopping n (w, k) =
      (if \<exists>a \<in> knocked v v'. covers a (l_address l) then Inr () else Inl Blocked) \<and>
    ((\<forall>a \<in> local_addresses getaddrinfo. \<not> covers a (l_address l)) \<longrightarrow>
      destroy_control getaddrinfo l v stopping n (w, k) = Inl Blocked) \<and>
    (make_endpoint ''127.0.0.1'' (l_port l) = Inr e \<and> resolve getaddrinfo e = Inr (a # as) \<and>
      w_kernel v = Done fd s0 # Done i s1 # Done j s2 # Done m s3 # rs \<longrightarrow> a \<in> knocked v v')"
proof -
  have "destroy_control getaddrinfo l v stopping n (w, k) =
      (if \<exists>a \<in> knocked v v'. covers a (l_address l) then Inr () else Inl Blocked)"
    using assms
    by (simp add: destroy_control_def acceptor.simps [of "l_address l" stopping n w] accept_step adopt_def owning_def
        catching_def disable_sigpipe_def op_then_def checked_eq op_simps io_def)
  moreover have "a \<in> knocked v v'" if "make_endpoint ''127.0.0.1'' (l_port l) = Inr e"
    "resolve getaddrinfo e = Inr (a # as)" "w_kernel v = Done fd s0 # Done i s1 # Done j s2 # Done m s3 # rs"
  proof -
    obtain x u where c: "connect_any (a # as) 500 v = (x, u)" by fastforce
    from knocked_first [OF that(3) c] have "a \<in> knocked v u" .
    moreover have "follows v u" using well_behavedD [OF well_behaved_connect_any c] .
    moreover have "follows u v'"
      using assms(1) that(1,2) c
      by (cases x) (auto simp: poke_def catching_def op_then_def lift_def log_action_def return_op_def follows_def
        split: if_splits)
    ultimately show ?thesis using knocked_follows by blast
  qed
  ultimately show ?thesis using poke_knocks [OF assms(1)] by auto
qed

definition loopback :: resolver where
  "loopback host port = Inr [\<lparr>sa_family = AF_INET, sa_port = 7777, sa_rest = host\<rparr>]"

definition refusing :: "socket_address world" where
  "refusing = \<lparr>w_clock = test_clock, w_reads = 0, w_kernel = refused, w_log = [], w_strerror = test_strerror, w_name = sa_rest\<rparr>"

lemma loopback_refused:
  "\<exists>v'. connect_any [\<lparr>sa_family = AF_INET, sa_port = 7777, sa_rest = ''127.0.0.1''\<rparr>] 500 refusing =
    (Inl (IoError ''connect to 127.0.0.1: Connection refused''), v')"
  by (simp add: catching_def op_then_def op_simps connect_any_def
      connect_def adopt_def owning_def checked_call_def syscall_def disable_sigpipe_def set_nonblocking_def
      connect_owned_def refused_def refusing_def add_failure_def describe_def test_strerror_def)

text \<open>A network that connects an address to a listener bound to it, or to every address of its family.\<close>

definition plain_network :: "socket_address \<Rightarrow> socket_address \<Rightarrow> bool" where
  "plain_network a b \<longleftrightarrow> sa_family a = sa_family b \<and> sa_port a = sa_port b \<and> sa_rest b \<in> {sa_rest a, ''0.0.0.0'', ''::''}"

definition listening :: "family \<Rightarrow> string \<Rightarrow> listener" where
  "listening f host = \<lparr>l_fd = 5, l_address = \<lparr>sa_family = f, sa_port = 7777, sa_rest = host\<rparr>, l_port = 7777\<rparr>"

theorem destructor_waits_for_ever_witness:
  "destroy_control loopback (listening AF_INET6 ''::1'') refusing (\<lambda>_. True) 0
     (refusing\<lparr>w_kernel := []\<rparr>, initial_knobs) = Inl Blocked"
proof -
  let ?l = "listening AF_INET6 ''::1''"
  from loopback_refused obtain v' where c: "connect_any [\<lparr>sa_family = AF_INET, sa_port = 7777,
      sa_rest = ''127.0.0.1''\<rparr>] 500 refusing = (Inl (IoError ''connect to 127.0.0.1: Connection refused''), v')" by blast
  have p: "poke loopback (l_port ?l) refusing = (Inr (), v')"
    by (simp add: poke_def make_endpoint_def resolve_def loopback_def c_str_def c catching_def op_then_def lift_def
        return_op_def listening_def)
  have away: "\<forall>a \<in> local_addresses loopback. \<not> plain_network a (l_address ?l)"
    by (auto simp: local_addresses_def loopback_def plain_network_def listening_def)
  with poke_knocks [OF p] have "\<not> (\<exists>a \<in> knocked refusing v'. plain_network a (l_address ?l))" by blast
  with destructor_waits_for_ever [OF p, of "\<lambda>_. True" 0 "refusing\<lparr>w_kernel := []\<rparr>" plain_network] away
  show ?thesis by simp
qed

end
