(* ===== verification/Null_Target.thy ===== *)
theory Null_Target
  imports Control Flags Csv Exchange
begin

text \<open>
  The null target, \<open>apps/dariyanaap_null.cpp\<close>: the echo loop of a connection with its stall and fault
  checks, and \<open>main\<close>. A connection's thread runs on a world of its own; what it reads of the state shared with
  other threads or draws at random for its \<open>n\<close>-th request is \<open>request_env\<close>. The knobs are set
  from the environment before the first connection and never again.\<close>

record request_env =
  re_stalled :: "bool list"
  re_draw :: int
  re_hanging :: "bool list"
  re_drop :: int

fun delays :: "nanos list \<Rightarrow> ('addr, unit) op" where
  "delays [] = return_op ()"
| "delays (d # ds) = op_then (log_action (Delayed d)) (\<lambda>_. delays ds)"

subsection \<open>The stall thread\<close>

text \<open>The first \<open>n\<close> rounds of its endless loop: each step sleeps and then stores into \<open>g_stalled\<close>.\<close>

definition stall_periodically :: "millis \<Rightarrow> millis \<Rightarrow> nat \<Rightarrow> (millis \<times> bool) list" where
  "stall_periodically period duration n = concat (replicate n [(period, True), (duration, False)])"

text \<open>What a load at time \<open>t\<close> after the start of such a thread finds, when the sleeps last as long as asked.\<close>

fun flag_at :: "(millis \<times> bool) list \<Rightarrow> bool \<Rightarrow> millis \<Rightarrow> bool" where
  "flag_at [] flag t = flag"
| "flag_at ((sleep, stored) # rest) flag t = (if t < sleep then flag else flag_at rest stored (t - sleep))"

lemma stalled_periods:
  assumes "0 < period" and "0 < duration" and "0 \<le> t" and "t < int n * (period + duration)"
  shows "flag_at (stall_periodically period duration n) False t \<longleftrightarrow> period \<le> t mod (period + duration)"
  using assms(3,4)
proof (induction n arbitrary: t)
  case (Suc n)
  let ?u = "t - (period + duration)"
  show ?case
  proof (cases "t < period + duration")
    case True
    with Suc.prems assms(1,2) show ?thesis by (auto simp: stall_periodically_def)
  next
    case False
    then have "flag_at (stall_periodically period duration n) False ?u \<longleftrightarrow> period \<le> ?u mod (period + duration)"
      using Suc by (simp add: algebra_simps)
    then show ?thesis
      using False assms(1,2) by (simp add: stall_periodically_def diff_diff_eq)
  qed
qed simp

subsection \<open>A connection\<close>

text \<open>\<open>while (have < payload)\<close>: the buffer so far; \<open>None\<close> is a clean hang-up. Bytes that arrive beyond the
  payload are in the buffer too.\<close>

definition fill_turn :: "nat \<Rightarrow> nat \<Rightarrow> string \<Rightarrow> ('addr, (string, string option) turn) op" where
  "fill_turn room payload have =
     (if payload \<le> length have then return_op (Exit (Some have))
      else
        op_then (read_some (room - length have)) (\<lambda>got.
          if got = [] then return_op (Exit None) else return_op (Again (have @ got))))"

definition fill_request :: "nat \<Rightarrow> ('addr, string option) op" where
  "fill_request payload = iterate (fill_turn (max payload (64 * 1024)) payload) []"

definition request_turn :: "knobs \<Rightarrow> nat \<Rightarrow> (nat \<Rightarrow> request_env) \<Rightarrow> nat \<Rightarrow> ('addr, (nat, unit) turn) op" where
  "request_turn k payload env n =
     op_then (fill_request payload) (\<lambda>r. case r of
         None \<Rightarrow> return_op (Exit ())
       | Some have \<Rightarrow>
           op_then (lift (hang_loop (re_stalled (env n)))) (\<lambda>stalls.
           op_then (delays stalls) (\<lambda>_.
           op_then (lift (before_response k (re_draw (env n)) (re_hanging (env n)))) (\<lambda>sleeps.
           op_then (delays sleeps) (\<lambda>_.
             if should_drop k (re_drop (env n)) then return_op (Again (Suc n))
             else op_then (write_all (take payload have)) (\<lambda>_. return_op (Again (Suc n))))))))"

definition null_serve :: "nat \<Rightarrow> knobs \<Rightarrow> nat \<Rightarrow> (nat \<Rightarrow> request_env) \<Rightarrow> ('addr, unit) op" where
  "null_serve fd k payload env =
     op_then (catching is_IoError (iterate (request_turn k payload env) 0) (\<lambda>_. return_op ())) (\<lambda>_.
       log_action (Closed fd))"

subsection \<open>The program\<close>

record null_config =
  nc_host :: string
  nc_port :: u64
  nc_payload :: u64
  nc_backlog :: u64

definition null_flag_names :: "string list" where
  "null_flag_names = [''host'', ''port'', ''payload'', ''backlog'', ''stall-every'', ''stall-for'']"

definition null_config_of :: "flags \<Rightarrow> null_config result" where
  "null_config_of flags =
     (let host = text_flag flags ''host'' ''127.0.0.1'' in
      and_then (number flags ''port'' 0) (\<lambda>port.
      and_then (number flags ''payload'' 64) (\<lambda>payload.
      and_then (number flags ''backlog'' (of_int kDefaultBacklog)) (\<lambda>backlog.
        if 65535 < port then Inl (UsageError ''--port must be at most 65535'')
        else if payload = 0 then Inl (UsageError ''--payload must be at least 1 byte'')
        else Inr \<lparr>nc_host = host, nc_port = port, nc_payload = payload, nc_backlog = backlog\<rparr>))))"

definition null_listener :: "resolver \<Rightarrow> sockname \<Rightarrow> null_config \<Rightarrow> (socket_address, listener) op" where
  "null_listener getaddrinfo sockname c =
     (let backlog = to_int32 (uint (nc_backlog c)) in
      if nc_port c = 0 then bind_ephemeral getaddrinfo sockname (nc_host c) backlog
      else op_then (lift (make_endpoint (nc_host c) (ucast (nc_port c)))) (\<lambda>e.
        bind_listener getaddrinfo sockname e backlog))"

definition stall_of :: "flags \<Rightarrow> (u64 \<times> u64) result" where
  "stall_of flags =
     and_then (number flags ''stall-every'' 0) (\<lambda>stall_every.
     and_then (number flags ''stall-for'' 0) (\<lambda>stall_for.
       if (stall_every = 0) \<noteq> (stall_for = 0)
       then Inl (UsageError ''--stall-every and --stall-for must be given together'')
       else Inr (stall_every, stall_for)))"

definition null_usage :: string where
  "null_usage = concat (map (\<lambda>l. l @ [newline])
     [''usage: dariyanaap-null [options]'',
      ''  --host H            bind address (default 127.0.0.1)'',
      ''  --port P            0 for a kernel-chosen port (default 0)'',
      ''  --payload N         bytes echoed each way (default 64)'',
      ''  --backlog N         listen backlog; macOS clamps to somaxconn'',
      ''  --stall-every MS    freeze every connection periodically'',
      ''  --stall-for MS      for this long (both or neither)'',
      '''',
      ''also reads the fault library's environment, for a steady'',
      ''service time rather than a periodic freeze:'',
      ''  DARIYANAAP_FAULT_LATENCY_MS, DARIYANAAP_FAULT_JITTER_MS'',
      ''  DARIYANAAP_FAULT_DROP, DARIYANAAP_FAULT_HANG''])"

text \<open>The line that a sweep script reads the port from.\<close>

definition listening_line :: "listener \<Rightarrow> null_config \<Rightarrow> u64 \<times> u64 \<Rightarrow> (socket_address, unit) op" where
  "listening_line l c stall =
     (case stall of (stall_every, stall_for) \<Rightarrow>
        (\<lambda>w. log_action (Printed
           (''listening '' @ w_name w (l_address l) @ '' payload '' @ print_u64 (nc_payload c) @
            '' backlog '' @ print_u64 (nc_backlog c) @ '' stall '' @ print_u64 stall_for @ ''/'' @
            print_u64 stall_every @ '' ms'' @ [newline])) w))"

text \<open>The detached thread that stalls the connections.\<close>

definition start_staller :: "u64 \<times> u64 \<Rightarrow> ('addr, unit) op" where
  "start_staller stall =
     (case stall of (stall_every, stall_for) \<Rightarrow>
        if 0 < stall_every then log_action (Stalling (sint stall_every) (sint stall_for)) else return_op ())"

text \<open>The accept loop, with the number of thread handles in \<open>connections\<close> (starting a thread succeeds); it ends with the exception that left it.\<close>

definition connection_turn :: "'addr \<Rightarrow> nat \<Rightarrow> ('addr, (nat, nat \<times> error) turn) op" where
  "connection_turn address connections =
     op_then (attempt_io (op_then (accept address) (\<lambda>fd.
         op_then (owning fd (set_timeouts 30000 30000)) (\<lambda>_. return_op fd)))) (\<lambda>r. case r of
       Inl e \<Rightarrow> return_op (Exit (connections, e))
     | Inr fd \<Rightarrow> return_op (Again (if 4096 \<le> connections + 1 then 0 else connections + 1)))"

text \<open>An exception that unwinds \<open>main\<close> destroys \<open>connections\<close>, and a joinable handle among them ends the process
  (\<open>std::terminate\<close>) before any handler runs.\<close>

datatype ending = Exit_Code int | Terminated

definition code_of :: "error \<Rightarrow> int" where
  "code_of e = (if is_UsageError e then 2 else 1)"

definition complaint :: "error \<Rightarrow> string" where
  "complaint e = ''dariyanaap-null: '' @ what e @ [newline]"

definition null_run ::
  "resolver \<Rightarrow> sockname \<Rightarrow> (string \<Rightarrow> string option) \<Rightarrow> string list \<Rightarrow> (socket_address, ending) op" where
  "null_run getaddrinfo sockname env argv =
     op_then (lift (fst (load_from_env env initial_knobs))) (\<lambda>_.
     op_then (lift (flags_parse argv null_flag_names)) (\<lambda>flags.
     op_then (lift (null_config_of flags)) (\<lambda>c.
     op_then (null_listener getaddrinfo sockname c) (\<lambda>l.
     owning (l_fd l) (
       op_then (lift (stall_of flags)) (\<lambda>stall.
       op_then (start_staller stall) (\<lambda>_.
       op_then (listening_line l c stall) (\<lambda>_.
       op_then (iterate (connection_turn (l_address l)) 0) (\<lambda>(connections, e).
         if connections = 0 then throw e else return_op Terminated)))))))))"

definition null_main ::
  "resolver \<Rightarrow> sockname \<Rightarrow> (string \<Rightarrow> string option) \<Rightarrow> string list \<Rightarrow> (socket_address, ending) op" where
  "null_main getaddrinfo sockname env argv =
     (if wants_help argv then op_then (log_action (Printed null_usage)) (\<lambda>_. return_op (Exit_Code 0))
      else
        catching is_Error (null_run getaddrinfo sockname env argv)
          (\<lambda>e. op_then (log_action (Complained (complaint e))) (\<lambda>_. return_op (Exit_Code (code_of e)))))"

subsection \<open>The loops make progress\<close>

lemma well_behaved_delays [behaved]: "well_behaved (delays ds)"
  by (induction ds) (auto intro!: behaved)

lemma well_behaved_fill [behaved]: "well_behaved (fill_turn room payload have)"
  unfolding fill_turn_def by (auto intro!: behaved)

lemma read_some_shorter: "read_some room w = (Inr got, w') \<Longrightarrow> length (w_kernel w') < length (w_kernel w)"
  using hungryD [OF hungry_read_some, of room w "Inr got" w'] by simp

lemma consumes_fill: "consumes (fill_turn room payload)"
  unfolding consumes_def fill_turn_def
  by (auto simp: return_op_def elim!: op_then_InrE dest: read_some_shorter split: if_splits)

lemma well_behaved_fill_request [behaved]: "well_behaved (fill_request payload)"
  unfolding fill_request_def by (intro behaved)

lemma fill_step:
  "iterate (fill_turn room payload) have w =
     (if payload \<le> length have then (Inr (Some have), w)
      else case read_some (room - length have) w of
          (Inl e, v) \<Rightarrow> (Inl e, v)
        | (Inr got, v) \<Rightarrow> if got = [] then (Inr None, v) else iterate (fill_turn room payload) (have @ got) v)"
proof (cases "payload \<le> length have")
  case True
  then have "fill_turn room payload have w = (Inr (Exit (Some have)), w)" by (simp add: fill_turn_def return_op_def)
  with True show ?thesis
    by (simp add: iterate_unfold [OF consumes_fill, of room payload "have"] op_then_def return_op_def)
next
  case False
  obtain a v where a: "read_some (room - length have) w = (a, v)" by fastforce
  with False have "fill_turn room payload have w = (case a of Inl e \<Rightarrow> (Inl e, v)
      | Inr got \<Rightarrow> (Inr (if got = [] then Exit None else Again (have @ got)), v))"
    by (simp add: fill_turn_def op_then_def return_op_def split: sum.splits)
  with False a show ?thesis
    by (simp add: iterate_unfold [OF consumes_fill, of room payload "have"] op_then_def return_op_def split: sum.splits)
qed

lemma fill_reads:
  assumes "fill_request payload w = (Inr (Some have), w')" and "0 < payload"
  shows "length (w_kernel w') < length (w_kernel w)"
proof -
  let ?R = "max payload (64 * 1024)"
  obtain a v where a: "read_some ?R w = (a, v)" by fastforce
  obtain got where got: "a = Inr got" "iterate (fill_turn ?R payload) got v = (Inr (Some have), w')"
    using assms a unfolding fill_request_def fill_step [of ?R payload "[]" w]
    by (cases a) (auto split: if_splits)
  have "well_behaved (iterate (fill_turn ?R payload) got)" by (intro behaved)
  from follows_shorter [OF well_behavedD [OF this got(2)]] read_some_shorter [OF a [unfolded got(1)]]
  show ?thesis by simp
qed

lemma consumes_request:
  assumes "0 < payload"
  shows "consumes (request_turn k payload env)"
  unfolding consumes_def
proof (intro allI impI)
  fix n w n' w' assume "request_turn k payload env n w = (Inr (Again n'), w')"
  then obtain r v where r: "fill_request payload w = (Inr r, v)" and go: "(case r of None \<Rightarrow> return_op (Exit ())
       | Some have \<Rightarrow>
           op_then (lift (hang_loop (re_stalled (env n)))) (\<lambda>stalls.
           op_then (delays stalls) (\<lambda>_.
           op_then (lift (before_response k (re_draw (env n)) (re_hanging (env n)))) (\<lambda>sleeps.
           op_then (delays sleeps) (\<lambda>_.
             if should_drop k (re_drop (env n)) then return_op (Again (Suc n))
             else op_then (write_all (take payload have)) (\<lambda>_. return_op (Again (Suc n)))))))) v = (Inr (Again n'), w')"
    unfolding request_turn_def by (elim op_then_InrE) blast
  then obtain "have" where h: "r = Some have" by (cases r) (auto simp: return_op_def)
  have "follows v w'"
    using go unfolding h option.case
    by (rule well_behavedD [rotated]) (auto intro!: behaved)
  from follows_shorter [OF this] fill_reads [OF r [unfolded h] assms]
  show "length (w_kernel w') < length (w_kernel w)" by simp
qed

subsection \<open>Echoing\<close>

text \<open>The bytes of a log.\<close>

fun sent_bytes :: "'addr action list \<Rightarrow> string" where
  "sent_bytes [] = []"
| "sent_bytes (Sent s # acts) = s @ sent_bytes acts"
| "sent_bytes (_ # acts) = sent_bytes acts"

lemma sent_bytes_append [simp]: "sent_bytes (a @ b) = sent_bytes a @ sent_bytes b"
  by (induction a rule: sent_bytes.induct) simp_all

lemma sent_bytes_pieces [simp]: "sent_bytes (map Sent ps) = concat ps"
  by (induction ps) simp_all

lemma sent_bytes_delays [simp]: "sent_bytes (map Delayed ds) = []"
  by (induction ds) simp_all

text \<open>A request arrives: in any chunks, with any signals between them.\<close>

inductive arrives :: "string \<Rightarrow> sysret list \<Rightarrow> bool" where
  arrived: "arrives [] []"
| arrive_signal: "data \<noteq> [] \<Longrightarrow> arrives data rs \<Longrightarrow> arrives data (Fail EINTR # rs)"
| arrive_chunk: "c \<noteq> [] \<Longrightarrow> arrives data rs \<Longrightarrow> arrives (c @ data) (Done n c # rs)"

lemma read_signal:
  "0 < room \<Longrightarrow> w_kernel w = Fail EINTR # rs \<Longrightarrow> read_some room w = read_some room (w\<lparr>w_kernel := rs\<rparr>)"
  by (simp add: read_first_answer cong: list.case_cong sysret.case_cong if_cong)

text \<open>What the reads return until a payload is complete: the last one may return bytes beyond it.\<close>

inductive gathers :: "nat \<Rightarrow> string \<Rightarrow> sysret list \<Rightarrow> bool" where
  gathered: "gathers 0 [] []"
| gather_signal: "0 < need \<Longrightarrow> gathers need data rs \<Longrightarrow> gathers need data (Fail EINTR # rs)"
| gather_chunk: "c \<noteq> [] \<Longrightarrow> 0 < need \<Longrightarrow> gathers (need - length c) data rs \<Longrightarrow> gathers need (c @ data) (Done n c # rs)"

lemma arrives_gathers: "arrives data rs \<Longrightarrow> gathers (length data) data rs"
  by (induction rule: arrives.induct) (auto intro: gathers.intros)

lemma gathers_enough: "gathers need data rs \<Longrightarrow> need \<le> length data"
  by (induction rule: gathers.induct) auto

lemma gathers_fill:
  assumes "gathers need rest rs" and "need = payload - length have" and "length have + length rest \<le> room"
    and "w_kernel w = rs @ later"
  shows "iterate (fill_turn room payload) have w = (Inr (Some (have @ rest)), w\<lparr>w_kernel := later\<rparr>)"
  using assms
proof (induction arbitrary: "have" w rule: gathers.induct)
  case gathered
  then show ?case by (simp add: fill_step [of room payload "have"])
next
  case (gather_signal need data rs)
  let ?w = "w\<lparr>w_kernel := rs @ later\<rparr>"
  have "length have < payload" using gather_signal by auto
  moreover from this have "read_some (room - length have) w = read_some (room - length have) ?w"
    using gather_signal gathers_enough [of need data rs] by (intro read_signal) auto
  ultimately have "iterate (fill_turn room payload) have w = iterate (fill_turn room payload) have ?w"
    by (simp add: fill_step [of room payload "have"])
  with gather_signal.IH [of "have" ?w] gather_signal.prems show ?case by simp
next
  case (gather_chunk c need data rs n)
  let ?w = "w\<lparr>w_kernel := rs @ later\<rparr>"
  have "length have < payload" "length c \<le> room - length have" "0 < room - length have"
    using gather_chunk by (cases c; auto)+
  with gather_chunk have "read_some (room - length have) w = (Inr c, ?w)" by (simp add: read_first_answer)
  with gather_chunk.IH [of "have @ c" ?w] gather_chunk.prems gather_chunk.hyps \<open>length have < payload\<close>
  show ?case by (simp add: fill_step [of room payload "have"])
qed

lemma delays_run: "delays ds w = (Inr (), w\<lparr>w_log := w_log w @ map Delayed ds\<rparr>)"
  by (induction ds arbitrary: w) (simp_all add: op_then_def op_simps)

text \<open>A client that sends, takes the replies, and hangs up, while every stall and every injected hang comes to an
  end. A batch is what the reads for one request return: the payload, and what a client that does not wait for the
  reply has sent with its last bytes, as far as the buffer has room.\<close>

inductive client ::
  "knobs \<Rightarrow> nat \<Rightarrow> (nat \<Rightarrow> request_env) \<Rightarrow> nat \<Rightarrow> string list \<Rightarrow> sysret list \<Rightarrow> bool"
  for k payload env where
  client_leaves: "client k payload env n [] [Done m '''']"
| client_sends: "gathers payload r rs \<Longrightarrow> length r \<le> max payload (64 * 1024) \<Longrightarrow> hang_loop (re_stalled (env n)) = Inr stalls \<Longrightarrow>
    before_response k (re_draw (env n)) (re_hanging (env n)) = Inr sleeps \<Longrightarrow>
    (if should_drop k (re_drop (env n)) then ws = [] else takes (take payload r) ws ps) \<Longrightarrow>
    client k payload env (Suc n) requests later \<Longrightarrow> client k payload env n (r # requests) (rs @ ws @ later)"

fun echoed :: "knobs \<Rightarrow> (nat \<Rightarrow> request_env) \<Rightarrow> nat \<Rightarrow> string list \<Rightarrow> string" where
  "echoed k env n [] = []"
| "echoed k env n (r # requests) =
     (if should_drop k (re_drop (env n)) then [] else r) @ echoed k env (Suc n) requests"

lemma client_served:
  assumes "client k payload env n requests rs" and "0 < payload" and "w_kernel w = rs @ later"
  shows "\<exists>acts. iterate (request_turn k payload env) n w =
      (Inr (), w\<lparr>w_kernel := later, w_log := w_log w @ acts\<rparr>) \<and>
    sent_bytes acts = echoed k env n (map (take payload) requests) \<and> opened acts = [] \<and> closed_fds acts = []"
  using assms(1,3)
proof (induction arbitrary: w rule: client.induct)
  case (client_leaves n m)
  let ?w = "w\<lparr>w_kernel := later\<rparr>"
  have "fill_request payload w = (Inr None, ?w)"
    using client_leaves assms(2) unfolding fill_request_def fill_step [of _ payload "[]" w]
    by (simp add: read_first_answer)
  then have "request_turn k payload env n w = (Inr (Exit ()), ?w)"
    by (simp add: request_turn_def op_then_def return_op_def)
  then show ?case
    by (intro exI [of _ "[]"])
      (simp add: iterate_unfold [OF consumes_request [OF assms(2)], of k env n] op_then_def return_op_def)
next
  case (client_sends r rs n stalls sleeps ws ps requests later')
  let ?u = "w\<lparr>w_kernel := ws @ later' @ later\<rparr>"
  let ?v = "?u\<lparr>w_log := w_log w @ map Delayed stalls @ map Delayed sleeps\<rparr>"
  have fill: "fill_request payload w = (Inr (Some r), ?u)"
    using gathers_fill [OF client_sends.hyps(1), of payload "[]" _ w "ws @ later' @ later"]
      client_sends.hyps(2) client_sends.prems unfolding fill_request_def by simp
  obtain acts1 where turn: "request_turn k payload env n w = (Inr (Again (Suc n)),
      ?v\<lparr>w_kernel := later' @ later, w_log := w_log ?v @ acts1\<rparr>)"
    and a1: "sent_bytes acts1 = (if should_drop k (re_drop (env n)) then [] else take payload r)" "opened acts1 = []"
      "closed_fds acts1 = []"
  proof (cases "should_drop k (re_drop (env n))")
    case True
    with fill client_sends show ?thesis
      by (intro that [of "[]"]) (auto simp: request_turn_def op_then_def lift_def delays_run return_op_def)
  next
    case False
    with client_sends.hyps(5) have t: "takes (take payload r) ws ps" by simp
    have q: "opened (map Sent ps :: 'a action list) = [] \<and> closed_fds (map Sent ps :: 'a action list) = []"
      by (rule fd_quiet_acts) auto
    have "write_all (take payload r) ?v = (Inr (), ?v\<lparr>w_kernel := later' @ later, w_log := w_log ?v @ map Sent ps\<rparr>)"
      using takes_write_all [OF t, of ?v "later' @ later"] by simp
    with False fill client_sends.hyps takes_pieces [OF t] q show ?thesis
      by (intro that [of "map Sent ps"]) (auto simp: request_turn_def op_then_def lift_def delays_run return_op_def)
  qed
  let ?x = "?v\<lparr>w_kernel := later' @ later, w_log := w_log ?v @ acts1\<rparr>"
  from client_sends.IH [of ?x] obtain acts2 where
    go: "iterate (request_turn k payload env) (Suc n) ?x =
      (Inr (), ?x\<lparr>w_kernel := later, w_log := w_log ?x @ acts2\<rparr>)" and
    a2: "sent_bytes acts2 = echoed k env (Suc n) (map (take payload) requests)" "opened acts2 = []" "closed_fds acts2 = []" by auto
  have q: "opened (map Delayed ds :: 'a action list) = [] \<and> closed_fds (map Delayed ds :: 'a action list) = []" for ds
    by (rule fd_quiet_acts) auto
  show ?case
    using turn go a1 a2 q
    by (intro exI [of _ "map Delayed stalls @ map Delayed sleeps @ acts1 @ acts2"])
      (simp add: iterate_unfold [OF consumes_request [OF assms(2)], of k env n] op_then_def)
qed

lemma null_serve_echoes:
  assumes "client k payload env 0 requests rs" and "0 < payload" and "w_kernel w = rs @ later"
  shows "\<exists>acts. null_serve fd k payload env w =
      (Inr (), w\<lparr>w_kernel := later, w_log := w_log w @ acts @ [Closed fd]\<rparr>) \<and>
    sent_bytes acts = echoed k env 0 (map (take payload) requests) \<and> closed_fds (acts @ [Closed fd]) = [fd]"
proof -
  from client_served [OF assms] obtain acts where
    "iterate (request_turn k payload env) 0 w = (Inr (), w\<lparr>w_kernel := later, w_log := w_log w @ acts\<rparr>)"
    "sent_bytes acts = echoed k env 0 (map (take payload) requests)" "closed_fds acts = []" by blast
  then show ?thesis
    by (intro exI [of _ acts]) (simp add: null_serve_def catching_def op_then_def log_action_def)
qed


definition calm :: "nat \<Rightarrow> request_env" where
  "calm n = \<lparr>re_stalled = [False], re_draw = 0, re_hanging = [False], re_drop = 999999\<rparr>"

definition one_echo :: "sysret list" where
  "one_echo = [Done 1 ''a'', Fail EINTR, Done 1 ''b'', Done 1 '''', Done 1 '''', Done 0 '''']"

lemma one_echo_client: "client initial_knobs 2 calm 0 [''ab''] one_echo"
proof -
  have a: "arrives ''ab'' [Done 1 ''a'', Fail EINTR, Done 1 ''b'']"
    using arrive_chunk [of "''a''" "''b''" "[Fail EINTR, Done 1 ''b'']" 1]
      arrive_signal [of "''b''" "[Done 1 ''b'']"] arrive_chunk [of "''b''" "[]" "[]" 1] arrived by simp
  have g: "gathers 2 ''ab'' [Done 1 ''a'', Fail EINTR, Done 1 ''b'']"
    using arrives_gathers [OF a] by (simp add: numeral_2_eq_2)
  have t: "takes ''ab'' [Done 1 '''', Done 1 ''''] [''a'', ''b'']"
    using piece [of 1 "''ab''" "[Done 1 '''']" "[''b'']" "''''"] piece [of 1 "''b''" "[]" "[]" "''''"] all_taken by simp
  have "client initial_knobs 2 calm 0 [''ab''] ([Done 1 ''a'', Fail EINTR, Done 1 ''b''] @ [Done 1 '''', Done 1 ''''] @ [Done 0 ''''])"
    by (rule client_sends [OF g _ _ _ _ client_leaves, where ps = "[''a'', ''b'']"])
      (simp_all add: calm_def before_response_def should_drop_def initial_knobs_def t [unfolded One_nat_def])
  then show ?thesis by (simp add: one_echo_def)
qed

text \<open>A client that sends two requests at once gets one reply.\<close>

definition two_at_once :: "sysret list" where
  "two_at_once = [Done 1 ''a'', Fail EINTR, Done 3 ''bcd'', Done 2 '''', Done 0 '''']"

lemma two_at_once_client: "client initial_knobs 2 calm 0 [''abcd''] two_at_once"
proof -
  have "gathers 2 (''a'' @ ''bcd'' @ []) [Done 1 ''a'', Fail EINTR, Done 3 ''bcd'']"
    by (intro gathers.intros) (simp_all add: gathered)
  then have g: "gathers 2 ''abcd'' [Done 1 ''a'', Fail EINTR, Done 3 ''bcd'']" by simp
  have t: "takes (take 2 ''abcd'') [Done 2 ''''] [''ab'']"
    using piece [of 2 "''ab''" "[]" "[]" "''''"] all_taken by simp
  have "client initial_knobs 2 calm 0 [''abcd''] ([Done 1 ''a'', Fail EINTR, Done 3 ''bcd''] @ [Done 2 ''''] @ [Done 0 ''''])"
    by (rule client_sends [OF g _ _ _ _ client_leaves, where ps = "[''ab'']"])
      (simp_all add: calm_def before_response_def should_drop_def initial_knobs_def t [simplified])
  then show ?thesis by (simp add: two_at_once_def)
qed


subsection \<open>How the program ends\<close>

text \<open>A wrong command line is exit code 2. When the flags do not parse, a number does not read, the port is over
  65535 or the payload is zero, \<open>main\<close> returns 2, has said why and has made no system call: no port is opened for a run
  that would not be the one asked for.\<close>

theorem null_usage_error:
  assumes "\<not> wants_help argv" and "fst (load_from_env env initial_knobs) = Inr ()"
    and "and_then (flags_parse argv null_flag_names) null_config_of = Inl e"
  shows "null_main getaddrinfo sockname env argv w =
    (Inr (Exit_Code 2), w\<lparr>w_log := w_log w @ [Complained (complaint e)]\<rparr>)"
proof -
  have n: "is_UsageError e" if "number flags name d = Inl e" for flags name d e
    using that by (auto simp: number_def split: option.splits if_splits decimal.splits)
  have c: "is_UsageError e" if "null_config_of flags = Inl e" for flags e
    using that n by (auto simp: null_config_of_def Let_def and_then_Inl_iff split: if_splits)
  have e: "is_UsageError e"
    using assms(3) c by (auto simp: and_then_Inl_iff flags_parse_def dest: parse_args_Inl)
  have "null_run getaddrinfo sockname env argv w = (Inl e, w)"
    using assms(2,3) by (auto simp: null_run_def op_then_def lift_def and_then_Inl_iff split: sum.splits)
  with e assms(1) show ?thesis
    by (simp add: null_main_def catching_def is_UsageError_is_Error code_of_def op_then_def op_simps)
qed

definition zero_payload :: "string list" where
  "zero_payload = [''dariyanaap-null'', ''--payload'', ''0'']"

theorem null_usage_error_witness:
  "null_main loopback chosen_port (\<lambda>_. None) zero_payload busy_then_bound =
    (Inr (Exit_Code 2), busy_then_bound\<lparr>w_log :=
       [Complained (''dariyanaap-null: --payload must be at least 1 byte'' @ [newline])]\<rparr>)"
proof -
  have h: "\<not> wants_help zero_payload" by (simp add: wants_help_def zero_payload_def)
  have l: "fst (load_from_env (\<lambda>_. None) initial_knobs) = Inr ()"
    by (simp add: load_from_env_def from_env_def when_set_def k_simps)
  have "flags_parse zero_payload null_flag_names = Inr [''payload'' \<mapsto> ''0'']"
    by (simp add: flags_parse_def zero_payload_def null_flag_names_def Let_def)
  then have "and_then (flags_parse zero_payload null_flag_names) null_config_of =
      Inl (UsageError ''--payload must be at least 1 byte'')"
    by (simp add: null_config_of_def number_def Let_def is_digit_def digit_val_def)
  from null_usage_error [OF h l this] show ?thesis by (simp add: busy_then_bound_def complaint_def)
qed

text \<open>A client accepted and set up takes four answers: the accept, \<open>SO_NOSIGPIPE\<close> and the two timeouts.\<close>

lemma consumes_connection:
  fixes address :: 'a
  shows "consumes (connection_turn address)"
proof (rule consumes_eats)
  have "hungry (accept address :: ('a, nat) op)"
    unfolding accept_def
  proof (rule hungry_iterate)
    show "hungry (accept_turn address u :: ('a, (unit, nat) turn) op)" for u
      unfolding accept_turn_def by (rule hungry_first [OF hungry_syscall]) (auto intro!: behaved split: sysret.split)
  qed
  then have h: "hungry (attempt_io (op_then (accept address) (\<lambda>fd.
      op_then (owning fd (set_timeouts 30000 30000)) (\<lambda>_. return_op fd))) :: ('a, error + nat) op)"
    by (intro hungry_attempt hungry_first behaved)
  have "hungry (connection_turn address n :: ('a, (nat, nat \<times> error) turn) op)" for n
    unfolding connection_turn_def by (rule hungry_first [OF h]) (auto intro!: behaved split: sum.split)
  then show "eats (connection_turn address n :: ('a, (nat, nat \<times> error) turn) op)" for n
    using hungryD unfolding eats_def by blast
qed

lemma connection_accepted:
  assumes "w_kernel w = [Done fd s, Done a t, Done b u, Done c v] @ rs" and "n < 4095"
  shows "connection_turn address n w = (Inr (Again (Suc n)),
    w\<lparr>w_kernel := rs, w_log := w_log w @ [Opened fd, No_Sigpipe fd]\<rparr>)"
  using assms
  by (simp add: connection_turn_def attempt_io_def catching_def op_then_def accept_step adopt_def owning_def
      disable_sigpipe_def checked_eq set_timeouts_def op_simps)

lemma connection_fails:
  assumes "w_kernel w = Fail e # rs" and "e \<noteq> EINTR"
  shows "connection_turn address n w =
    (Inr (Exit (n, IoError (describe ''accept on'' address e w))), w\<lparr>w_kernel := rs\<rparr>)"
  using assms by (simp add: connection_turn_def attempt_io_def catching_def op_then_def accept_step op_simps)

lemma connections_end:
  assumes "w_kernel w = (if first then [Done fd s, Done a t, Done b u, Done c v] else []) @ Fail e # rs"
    and "e \<noteq> EINTR"
  shows "iterate (connection_turn address) 0 w =
    (Inr (if first then 1 else 0, IoError (describe ''accept on'' address e w)),
     w\<lparr>w_kernel := rs, w_log := w_log w @ (if first then [Opened fd, No_Sigpipe fd] else [])\<rparr>)"
proof (cases first)
  case True
  let ?w = "w\<lparr>w_kernel := Fail e # rs, w_log := w_log w @ [Opened fd, No_Sigpipe fd]\<rparr>"
  have "connection_turn address 0 w = (Inr (Again 1), ?w)"
    using connection_accepted [of w fd s a t b u c v "Fail e # rs" 0 address] assms(1) True by simp
  moreover have "connection_turn address 1 ?w =
      (Inr (Exit (1, IoError (describe ''accept on'' address e ?w))), ?w\<lparr>w_kernel := rs\<rparr>)"
    by (rule connection_fails) (use assms(2) in simp_all)
  ultimately show ?thesis
    using True
    by (simp add: iterate_unfold [OF consumes_connection, of address 0] iterate_unfold [OF consumes_connection, of address "Suc 0"]
        op_then_def return_op_def)
next
  case False
  then have "connection_turn address 0 w = (Inr (Exit (0, IoError (describe ''accept on'' address e w))), w\<lparr>w_kernel := rs\<rparr>)"
    using assms by (intro connection_fails) simp_all
  with False show ?thesis
    by (simp add: iterate_unfold [OF consumes_connection, of address 0] op_then_def return_op_def)
qed

fun complaints :: "'addr action list \<Rightarrow> string list" where
  "complaints [] = []"
| "complaints (Complained text # acts) = text # complaints acts"
| "complaints (_ # acts) = complaints acts"

lemma complaints_append [simp]: "complaints (a @ b) = complaints a @ complaints b"
  by (induction a rule: complaints.induct) simp_all

text \<open>The error exit of the null target is lost. When \<open>accept\<close> fails before any client has come, the handler
  prints the reason on the standard error and the exit code is 1; when it fails after the first client, the exception
  destroys the vector of joinable threads on its way to the handler, and the process is terminated with neither.\<close>

theorem null_accept_failure:
  assumes "\<not> wants_help argv" and "fst (load_from_env env initial_knobs) = Inr ()"
    and "flags_parse argv null_flag_names = Inr flags" and "null_config_of flags = Inr config"
    and "null_listener getaddrinfo sockname config w = (Inr l, v)" and "stall_of flags = Inr stalls"
    and "w_kernel v = (if first then [Done fd s, Done a t, Done b u, Done c x] else []) @ Fail e # rs"
    and "e \<noteq> EINTR"
  shows "\<exists>w'. null_main getaddrinfo sockname env argv w = (Inr (if first then Terminated else Exit_Code 1), w') \<and>
    complaints (w_log w') = complaints (w_log v) @
      (if first then [] else [complaint (IoError (describe ''accept on'' (l_address l) e v))])"
proof -
  define z where "z = snd (op_then (start_staller stalls) (\<lambda>_. listening_line l config stalls) v)"
  have z: "op_then (start_staller stalls) (\<lambda>_. op_then (listening_line l config stalls) f) v = f () z"
      "w_kernel z = w_kernel v" "complaints (w_log z) = complaints (w_log v)"
      "describe doing (l_address l) e z = describe doing (l_address l) e v" for f :: "unit \<Rightarrow> (socket_address, ending) op" and doing
    by (auto simp: z_def start_staller_def listening_line_def op_then_def op_simps split: prod.splits)
  from connections_end [of z first fd s a t b u c x e rs "l_address l"] assms(7,8) z
  have "iterate (connection_turn (l_address l)) 0 z =
    (Inr (if first then 1 else 0, IoError (describe ''accept on'' (l_address l) e v)),
     z\<lparr>w_kernel := rs, w_log := w_log z @ (if first then [Opened fd, No_Sigpipe fd] else [])\<rparr>)" by simp
  with assms(1-6) z show ?thesis
    by (auto simp: null_main_def null_run_def catching_def op_then_def owning_def code_of_def op_simps)
qed

definition bound_then :: "sysret list \<Rightarrow> socket_address world" where
  "bound_then rs = \<lparr>w_clock = test_clock, w_reads = 0, w_kernel = rs, w_log = [], w_strerror = test_strerror, w_name = sa_rest\<rparr>"

definition free_port :: "sysret list" where
  "free_port = [Done 4 '''', Done 0 '''', Done 0 '''', Done 0 '''', Done 0 '''', Done 0 '''']"

definition plain_config :: null_config where
  "plain_config = \<lparr>nc_host = ''127.0.0.1'', nc_port = 0, nc_payload = 64, nc_backlog = 128\<rparr>"

lemma plain_listener:
  "\<exists>l log. null_listener loopback chosen_port plain_config (bound_then (free_port @ rs)) =
    (Inr l, (bound_then rs)\<lparr>w_log := log\<rparr>)"
  by (simp add: null_listener_def plain_config_def bind_ephemeral_def make_endpoint_def resolve_def loopback_def
      c_str_def listen_on_def bind_one_def adopt_def disable_sigpipe_def bound_port_def op_then_def owning_def
      catching_def checked_eq syscall_def op_simps with_port_def bound_then_def free_port_def chosen_port_def
      any_v4_def Let_def)

theorem null_accept_failure_witness:
  "fst (null_main loopback chosen_port (\<lambda>_. None) [''dariyanaap-null'']
     (bound_then (free_port @ [Done 5 '''', Done 0 '''', Done 0 '''', Done 0 '''', Fail (Errno 24)]))) =
    Inr Terminated"
proof -
  have h: "\<not> wants_help [''dariyanaap-null'']" by (simp add: wants_help_def)
  have k: "fst (load_from_env (\<lambda>_. None) initial_knobs) = Inr ()"
    by (simp add: load_from_env_def from_env_def when_set_def k_simps)
  have f: "flags_parse [''dariyanaap-null''] null_flag_names = Inr (\<lambda>_. None)" by (simp add: flags_parse_def)
  have c: "null_config_of (\<lambda>_. None) = Inr plain_config"
    by (simp add: null_config_of_def number_def text_flag_def plain_config_def kDefaultBacklog_def Let_def)
  have s: "stall_of (\<lambda>_. None) = Inr (0, 0)" by (simp add: stall_of_def number_def)
  from plain_listener [of "[Done 5 '''', Done 0 '''', Done 0 '''', Done 0 '''', Fail (Errno 24)]"]
  obtain l log where l: "null_listener loopback chosen_port plain_config
      (bound_then (free_port @ [Done 5 '''', Done 0 '''', Done 0 '''', Done 0 '''', Fail (Errno 24)])) =
    (Inr l, (bound_then [Done 5 '''', Done 0 '''', Done 0 '''', Done 0 '''', Fail (Errno 24)])\<lparr>w_log := log\<rparr>)" by blast
  show ?thesis
    using null_accept_failure [OF h k f c l s, of True 5 "''''" 0 "''''" 0 "''''" 0 "''''" "Errno 24" "[]"]
    by (auto simp: bound_then_def)
qed

end
