(* ===== verification/Loopback.thy ===== *)
theory Loopback
  imports Null_Target
begin

text \<open>
  What the two ends make of each other. A protocol that does not give up on the beginning of a response
  (\<open>patient\<close>) lets an exchange succeed however the network cuts the response; \<open>RawEcho\<close> and
  \<open>Http11Get\<close> are such protocols. The null target's echo is then what the rig's exchange waits for.
\<close>

subsection \<open>Patient protocols\<close>

text \<open>\<open>bounded\<close> are the complete responses whose beginnings are all waited for.\<close>

locale patient = framing +
  fixes bounded :: "string \<Rightarrow> bool"
  assumes waits: "consume (s @ t) = Complete \<Longrightarrow> bounded (s @ t) \<Longrightarrow> length (s @ t) < 2 ^ 64 \<Longrightarrow>
    t \<noteq> [] \<Longrightarrow> consume s = NeedMore"
begin

text \<open>On one stream the verdict is a function of the number of bytes alone.\<close>

lemma verdict:
  assumes "consume r = Complete" and "bounded r" and "length (r @ s) < 2 ^ 64" and "m \<le> length (r @ s)"
  shows "consume (take m (r @ s)) =
    (if m < length r then NeedMore else if m = length r then Complete else Malformed)"
proof (cases "m < length r")
  case True
  then have "drop m r \<noteq> []" "length r < 2 ^ 64" using assms(3) by simp_all
  with True waits [of "take m r" "drop m r"] assms(1,2) show ?thesis by simp
next
  case False
  then have t: "take m (r @ s) = r @ take (m - length r) s" by simp
  show ?thesis
  proof (cases "m = length r")
    case True
    with t assms(1) show ?thesis by simp
  next
    case m: False
    then have "take (m - length r) s \<noteq> []" using False assms(4) by auto
    moreover have "length (r @ take (m - length r) s) < 2 ^ 64" using assms(3) by auto
    ultimately show ?thesis using one_response [OF assms(1)] t m False by simp
  qed
qed

end

interpretation raw: patient "raw_consume (raw_payload (Suc n))" "\<lambda>_. True" for n
  by unfold_locales (auto simp: raw_consume_def split: if_splits)

definition headers_fit :: "string \<Rightarrow> bool" where
  "headers_fit r \<longleftrightarrow> (case find_str blank_line r of None \<Rightarrow> False | Some b \<Rightarrow> b + 3 \<le> kMaxHeaderBytes)"

interpretation http: patient http_consume headers_fit
proof unfold_locales
  fix s t :: string
  assume c: "http_consume (s @ t) = Complete" and fit: "headers_fit (s @ t)" and len: "length (s @ t) < 2 ^ 64"
    and t: "t \<noteq> []"
  from fit obtain b where b: "find_str blank_line (s @ t) = Some b" "b + 3 \<le> kMaxHeaderBytes"
    by (auto simp: headers_fit_def split: option.splits)
  show "http_consume s = NeedMore"
  proof (cases "find_str blank_line s")
    case None
    have "length s < b + 4"
      using find_str_front [OF b(1)] None by fastforce
    with http_consume_before_blank [OF b(1) _ b(2), of "length s"] show ?thesis by simp
  next
    case (Some a)
    note p = find_blank_prefix(1,2) [OF Some, of t] find_blank_prefix(3) [OF Some]
    moreover have "length s + length t \<noteq> a + 4" using find_blank_prefix(3) [OF Some] t by (cases t) auto
    ultimately show ?thesis using c b(1) t
      by (auto simp: http_consume_def Let_def Some split: option.splits if_splits)
  qed
qed

subsection \<open>An exchange with a peer that answers\<close>

text \<open>Each part of a response but the last is waited for.\<close>

definition awaited :: "protocol \<Rightarrow> string \<Rightarrow> bool" where
  "awaited p response \<longleftrightarrow> p_consume p response = Complete \<and>
     (\<forall>s t. response = s @ t \<longrightarrow> t \<noteq> [] \<longrightarrow> p_consume p s = NeedMore)"

context patient
begin

lemma awaited_response:
  "consume r = Complete \<Longrightarrow> bounded r \<Longrightarrow> length r < 2 ^ 64 \<Longrightarrow> p_consume p = consume \<Longrightarrow> awaited p r"
  unfolding awaited_def using waits by auto

end

lemma exchange_turn_got:
  assumes "read_some room w = (Inr got, v)" and "got \<noteq> []"
  shows "exchange_turn p room sent s w =
    (case p_consume p (s @ got) of
       NeedMore \<Rightarrow> (Inr (Again (s @ got)), v)
     | Malformed \<Rightarrow> (Inr (Exit (fresh_exchange\<lparr>x_outcome := Protocol_Error\<rparr>, s @ got)), v)
     | Complete \<Rightarrow>
         op_then (elapsed_since sent) (\<lambda>d.
         op_then (lift (p_succeeded p (s @ got))) (\<lambda>yes. return_op (Exit
           (\<lparr>x_outcome = (if yes then Succeeded else Rejected), x_elapsed = d, x_usable = True\<rparr>, s @ got)))) v)"
  using assms
  by (simp add: exchange_turn_def attempt_io_def catching_def op_then_def return_op_def Let_def
      split: response_state.split)

text \<open>A read returns at most what its buffer holds; the buffer need not hold the response.\<close>

fun chunk_in :: "nat \<Rightarrow> sysret \<Rightarrow> bool" where
  "chunk_in room (Done n c) \<longleftrightarrow> length c \<le> room"
| "chunk_in room (Fail e) \<longleftrightarrow> True"

lemma arrives_chunk_in:
  "arrives data rs \<Longrightarrow> length data \<le> room \<Longrightarrow> list_all (chunk_in room) rs"
  by (induction rule: arrives.induct) auto

lemma exchange_arrives:
  assumes "arrives rest rs" and "rest \<noteq> []" and "response = s @ rest" and "awaited p response"
    and "p_succeeded p response = Inr yes" and "0 < room" and "list_all (chunk_in room) rs"
    and "clock_ok (w_clock w)" and "sent = w_clock w i" and "w_kernel w = rs @ later"
  shows "iterate (exchange_turn p room sent) s w =
    (Inr (\<lparr>x_outcome = (if yes then Succeeded else Rejected), x_elapsed = w_clock w (w_reads w) - sent,
       x_usable = True\<rparr>, response), w\<lparr>w_kernel := later, w_reads := Suc (w_reads w)\<rparr>)"
  using assms
proof (induction arbitrary: s w rule: arrives.induct)
  case (arrive_signal data rs)
  let ?w = "w\<lparr>w_kernel := rs @ later\<rparr>"
  have "read_some room w = read_some room ?w" using arrive_signal.prems(5,9) by (intro read_signal) auto
  then have "exchange_turn p room sent s w = exchange_turn p room sent s ?w"
    by (simp add: exchange_turn_def attempt_io_def catching_def op_then_def)
  then have "iterate (exchange_turn p room sent) s w = iterate (exchange_turn p room sent) s ?w"
    by (simp add: iterate_unfold [OF consumes_exchange, of p room sent s] op_then_def)
  with arrive_signal.IH [of s ?w] arrive_signal.prems show ?case by simp
next
  case (arrive_chunk c data rs n)
  let ?w = "w\<lparr>w_kernel := rs @ later\<rparr>"
  have "length c \<le> room" "0 < room" using arrive_chunk.prems(5,6) by simp_all
  then have read: "read_some room w = (Inr c, ?w)" using arrive_chunk.prems(9) by (simp add: read_first_answer)
  note turn = exchange_turn_got [OF read arrive_chunk.hyps(1), of p sent s]
  show ?case
  proof (cases "data = []")
    case True
    with arrive_chunk.hyps(2) have rs: "rs = []" by (auto elim: arrives.cases)
    have r: "s @ c = response" using True arrive_chunk.prems(2) by simp
    have "p_consume p response = Complete" using arrive_chunk.prems(3) by (simp add: awaited_def)
    then have "exchange_turn p room sent s w =
        (Inr (Exit (\<lparr>x_outcome = (if yes then Succeeded else Rejected), x_elapsed = w_clock w (w_reads w) - sent,
           x_usable = True\<rparr>, response)), w\<lparr>w_kernel := later, w_reads := Suc (w_reads w)\<rparr>)"
      using turn arrive_chunk.prems(4,7,8) between_clock [OF arrive_chunk.prems(7), of i "w_reads w"] rs
      by (simp add: r elapsed_since_def op_then_def op_simps)
    then show ?thesis
      by (simp add: iterate_unfold [OF consumes_exchange, of p room sent s] op_then_def return_op_def)
  next
    case False
    with arrive_chunk.prems(2,3) have "p_consume p (s @ c) = NeedMore" by (auto simp: awaited_def)
    with turn have "iterate (exchange_turn p room sent) s w = iterate (exchange_turn p room sent) (s @ c) ?w"
      by (simp add: iterate_unfold [OF consumes_exchange, of p room sent s] op_then_def)
    with arrive_chunk.IH [of "s @ c" ?w] arrive_chunk.prems False show ?thesis by simp
  qed
qed simp

lemma exchange_answered:
  assumes "takes (p_request p) ws ps" and "arrives response rs" and "response \<noteq> []" and "awaited p response"
    and "p_succeeded p response = Inr yes" and "0 < room" and "list_all (chunk_in room) rs" and "clock_ok (w_clock w)"
    and "w_kernel w = ws @ rs @ later"
  shows "\<exists>d. perform_request p room w =
    (Inr (\<lparr>x_outcome = (if yes then Succeeded else Rejected), x_elapsed = d, x_usable = True\<rparr>, response),
     w\<lparr>w_kernel := later, w_reads := w_reads w + 2, w_log := w_log w @ map Sent ps\<rparr>)"
proof -
  let ?u = "w\<lparr>w_reads := Suc (w_reads w)\<rparr>"
  let ?v = "?u\<lparr>w_kernel := rs @ later, w_log := w_log w @ map Sent ps\<rparr>"
  have "write_all (p_request p) ?u = (Inr (), ?v)"
    using takes_write_all [OF assms(1), of ?u "rs @ later"] assms(9) by simp
  moreover note exchange_arrives [OF assms(2,3) _ assms(4-7), of "[]" ?v "w_clock w (w_reads w)" "w_reads w" later]
  ultimately show ?thesis
    using assms(8) by (simp add: perform_request_def attempt_io_def catching_def op_then_def op_simps)
qed

subsection \<open>Properties\<close>

text \<open>C11: An HTTP answer is reported, however it is cut. When the request goes out and a complete response arrives
  whose headers keep the limit of the code, in any chunks with any signals between them, one buffer able to hold it, the exchange ends with that response: it
  neither waits for more nor gives up on a part, the outcome is \<open>Succeeded\<close> for a status of 200 to 299 and
  \<open>Rejected\<close> otherwise, and the connection stays usable.\<close>

theorem http_answer_is_reported:
  assumes "make_http11_get host path = Inr p" and "http_consume response = Complete" and "headers_fit response"
    and "takes (p_request p) ws ps" and "arrives response rs" and "length response \<le> room" and "room < 2 ^ 64"
    and "clock_ok (w_clock w)" and "w_kernel w = ws @ rs @ later"
  shows "\<exists>x w'. perform_request p room w = (Inr (x, response), w') \<and> x_usable x \<and> w_kernel w' = later \<and>
    x_outcome x = (case status_code response of
        None \<Rightarrow> Rejected | Some status \<Rightarrow> if 200 \<le> status \<and> status < 300 then Succeeded else Rejected)"
proof -
  have p: "p_consume p = http_consume" "p_succeeded p = http_succeeded"
    using assms(1) by (auto simp: make_http11_get_def and_then_Inr_iff)
  have a: "awaited p response" using assms(2,3,6,7) p by (intro http.awaited_response) auto
  have full: "response \<noteq> []" using assms(2) http.needs_bytes by auto
  then have room: "0 < room" using assms(6) by (cases response) auto
  obtain yes where "p_succeeded p response = Inr yes"
    "yes = (case status_code response of None \<Rightarrow> False | Some status \<Rightarrow> 200 \<le> status \<and> status < 300)"
    using assms(2) by (simp add: p http_succeeded_def)
  then show ?thesis
    using exchange_answered [OF assms(4,5) full a _ room arrives_chunk_in [OF assms(5,6)] assms(8,9)] by (auto split: option.splits)
qed

definition ok_response :: string where
  "ok_response = ''HTTP/1.1 204 No'' @ blank_line"

lemma ok_complete: "http_consume ok_response = Complete" "headers_fit ok_response" "status_code ok_response = Some 204"
proof -
  have f: "find_str blank_line ok_response = Some 15" "status_code ok_response = Some 204"
    "header_value (take 15 ok_response) ''transfer-encoding'' = None" "content_length (take 15 ok_response) = None"
    "length ok_response = 19" by code_simp+
  show "http_consume ok_response = Complete" "headers_fit ok_response"
    by (simp_all add: http_consume_def headers_fit_def f carries_no_body_def kMaxHeaderBytes_def)
  show "status_code ok_response = Some 204" by (rule f)
qed

theorem http_answer_is_reported_witness:
  "\<exists>p x w'. make_http11_get ''h'' ''/'' = Inr p \<and>
    perform_request p 100 (quiet_world [Done (length (p_request p)) '''', Done 5 ''HTTP/'', Fail EINTR,
      Done 14 (drop 5 ok_response)]) = (Inr (x, ok_response), w') \<and> x_outcome x = Succeeded"
proof -
  obtain p where p: "make_http11_get ''h'' ''/'' = Inr p" "p_request p \<noteq> []"
    by (auto simp: make_http11_get_def build_get_def reject_crlf_def cr_def lf_def and_then_Inr_iff)
  let ?rs = "[Done 5 ''HTTP/'', Fail EINTR, Done 14 (drop 5 ok_response)]"
  let ?w = "quiet_world ([Done (length (p_request p)) ''''] @ ?rs)"
  have s: "''HTTP/'' @ drop 5 ok_response = ok_response" "drop 5 ok_response \<noteq> []" "length ok_response \<le> 100"
    by code_simp+
  have r: "arrives ok_response ?rs"
    using arrive_chunk [of "''HTTP/''" "drop 5 ok_response" "[Fail EINTR, Done 14 (drop 5 ok_response)]" 5]
      arrive_signal [of "drop 5 ok_response" "[Done 14 (drop 5 ok_response)]"]
      arrive_chunk [of "drop 5 ok_response" "[]" "[]" 14] arrived s(1,2) by simp
  have c: "clock_ok (w_clock ?w)" by (simp add: quiet_world_def clock_ok_test)
  have k: "w_kernel ?w = [Done (length (p_request p)) ''''] @ ?rs @ []" by (simp add: quiet_world_def)
  from http_answer_is_reported [OF p(1) ok_complete(1,2) takes_whole [OF p(2)] r s(3) _ c k] ok_complete(3)
  obtain x w' where "perform_request p 100 ?w = (Inr (x, ok_response), w')" "x_outcome x = Succeeded" by auto
  with p(1) show ?thesis by auto
qed

text \<open>C7: The rig measures the null target. For every payload size below \<open>2 ^ 64\<close>, also one that is larger than the
  buffer the rig reads with, the rig's \<open>RawEcho\<close> exchange and a connection of the null target are made for each
  other: the request leaves the rig in pieces, these pieces arrive at the target, the target sends what it sends, and
  when that arrives at the rig, cut in any way in which no read returns more than the buffer holds, the exchange
  is \<open>Succeeded\<close> with the payload as its response and the connection is kept. This holds when the request is not one
  that the target was told to drop and when the injected hangs and stalls that it meets come to an end.\<close>

theorem echo_end_to_end:
  assumes "make_raw_echo n = Inr payload" and "takes payload ws ps"
    and "client k n env 0 [concat ps] ss" and "w_kernel u = ss" and "null_serve fd k n env u = (r, u')"
    and "w_log u' = w_log u @ acts" and "\<not> should_drop k (re_drop (env 0))"
    and "arrives (sent_bytes acts) rs" and "w_kernel w = ws @ rs @ later" and "0 < room"
    and "list_all (chunk_in room) rs" and "n < 2 ^ 64"
    and "clock_ok (w_clock w)"
  shows "\<exists>d w'. r = Inr () \<and> perform_request (raw_echo payload) room w =
    (Inr (\<lparr>x_outcome = Succeeded, x_elapsed = d, x_usable = True\<rparr>, payload), w') \<and> w_kernel w' = later"
proof -
  from assms(1) obtain m where n: "n = Suc m" and payload: "payload = raw_payload (Suc m)"
    by (cases n) (auto simp: make_raw_echo_def)
  have pieces: "concat ps = payload" using takes_pieces [OF assms(2)] .
  from null_serve_echoes [OF assms(3) _ , of u "[]" fd] obtain acts' where
    served: "null_serve fd k n env u = (Inr (), u\<lparr>w_kernel := [], w_log := w_log u @ acts' @ [Closed fd]\<rparr>)"
    "sent_bytes acts' = echoed k env 0 (map (take n) [concat ps])" using n assms(4) by auto
  have log: "acts = acts' @ [Closed fd]" and r: "r = Inr ()" using served(1) assms(5,6) by auto
  have "length payload = Suc m" by (simp add: payload)
  then have "sent_bytes acts = payload" and full: "payload \<noteq> []" using served(2) log pieces assms(7) n by auto
  with assms(8) have arrives: "arrives payload rs" by simp
  have aw: "awaited (raw_echo payload) payload"
  proof (rule raw.awaited_response)
    show "raw_consume (raw_payload (Suc m)) payload = Complete" by (simp add: raw_consume_def payload)
    show "length payload < 2 ^ 64" using assms(12) by (simp add: payload n)
  qed (simp_all add: raw_echo_def payload)
  have yes: "p_succeeded (raw_echo payload) payload = Inr True"
    by (simp add: raw_echo_def raw_succeeded_def raw_consume_def)
  have "takes (p_request (raw_echo payload)) ws ps" using assms(2) by (simp add: raw_echo_def)
  from exchange_answered [OF this arrives full aw yes assms(10,11,13,9)] r show ?thesis by auto
qed

theorem echo_end_to_end_witness:
  "\<exists>d w'. perform_request (raw_echo ''ab'') 1
      (quiet_world [Done 1 '''', Done 1 '''', Done 1 ''a'', Fail EINTR, Done 1 ''b'']) =
    (Inr (\<lparr>x_outcome = Succeeded, x_elapsed = d, x_usable = True\<rparr>, ''ab''), w')"
proof -
  have m: "make_raw_echo 2 = Inr ''ab''"
    by (simp add: make_raw_echo_def raw_payload_def upt_rec char_of_def bit_iff_odd)
  have t: "takes ''ab'' [Done 1 '''', Done 1 ''''] [''a'', ''b'']"
    using piece [of 1 "''ab''" "[Done 1 '''']" "[''b'']" "''''"] piece [of 1 "''b''" "[]" "[]" "''''"] all_taken by simp
  have a: "arrives ''ab'' [Done 1 ''a'', Fail EINTR, Done 1 ''b'']"
    using arrive_chunk [of "''a''" "''b''" "[Fail EINTR, Done 1 ''b'']" 1]
      arrive_signal [of "''b''" "[Done 1 ''b'']"] arrive_chunk [of "''b''" "[]" "[]" 1] arrived by simp
  have keep: "\<not> should_drop initial_knobs (re_drop (calm 0))" by (simp add: should_drop_def initial_knobs_def)
  from null_serve_echoes [OF one_echo_client, of "quiet_world one_echo" "[]" 9] obtain acts where
    served: "null_serve 9 initial_knobs 2 calm (quiet_world one_echo) =
      (Inr (), (quiet_world [])\<lparr>w_log := acts @ [Closed 9]\<rparr>)"
    "sent_bytes acts = echoed initial_knobs calm 0 (map (take 2) [''ab''])" by (auto simp: quiet_world_def)
  let ?rs = "[Done 1 ''a'', Fail EINTR, Done 1 ''b'']"
  let ?w = "quiet_world ([Done 1 '''', Done 1 ''''] @ ?rs)"
  have "arrives (sent_bytes (acts @ [Closed 9])) ?rs" using a served(2) keep by simp
  moreover have "client initial_knobs 2 calm 0 [concat [''a'', ''b'']] one_echo" using one_echo_client by simp
  moreover have "w_log ((quiet_world [])\<lparr>w_log := acts @ [Closed 9]\<rparr>) =
      w_log (quiet_world one_echo) @ acts @ [Closed 9]" by (simp add: quiet_world_def)
  moreover have "w_kernel ?w = [Done 1 '''', Done 1 ''''] @ ?rs @ []" "clock_ok (w_clock ?w)"
    "w_kernel (quiet_world one_echo) = one_echo"
    by (simp_all add: quiet_world_def clock_ok_test)
  ultimately show ?thesis
    using echo_end_to_end [OF m t _ _ served(1) _ keep, where acts = "acts @ [Closed 9]" and rs = ?rs and
        w = ?w and later = "[]" and room = 1] by auto
qed

end
