(* ===== verification/Verifier.thy ===== *)
theory Verifier
  imports Csv Clock
begin

text \<open>
  The program \<open>apps/hist_verify.cpp\<close>, which records samples in a histogram, sorts them, and compares five
  percentiles with the exact order statistics. The random draws and the readings of the clock are arguments; the
  result is the exit code and what is printed. What is shown is that its verdict is never a failure.
\<close>

definition verify_sample :: "int \<Rightarrow> int \<Rightarrow> int" where
  "verify_sample spike body = max (if spike = 1 then 500000000 else body) 1"

text \<open>\<open>std::clamp\<close>, which needs bounds in order, \<open>std::max\<close> and \<open>fabs\<close> on doubles.\<close>

definition d_clamp :: "double \<Rightarrow> double \<Rightarrow> double \<Rightarrow> double result" where
  "d_clamp v lo hi =
     (if d_less hi lo then Inl (Undefined ''clamp with bounds out of order'')
      else Inr (if d_less v lo then lo else if d_less hi v then hi else v))"

definition d_max :: "double \<Rightarrow> double \<Rightarrow> double" where
  "d_max a b = (if d_less a b then b else a)"

fun d_abs :: "double \<Rightarrow> double" where
  "d_abs (Fin a) = Fin \<bar>a\<bar>"
| "d_abs (Infinity s) = Infinity False"
| "d_abs NaN = NaN"

definition verify_rank :: "double \<Rightarrow> u64 \<Rightarrow> nat result" where
  "verify_rank p samples =
     and_then (d_clamp (d_ceil (d_mul (d_div p (Fin 100)) (d_of_u64 samples))) (Fin 1) (d_of_u64 samples)) (\<lambda>x.
     and_then (cast_u64 x) (\<lambda>rank. Inr (unat rank)))"

definition verify_line :: "double \<Rightarrow> int \<Rightarrow> int \<Rightarrow> double \<Rightarrow> string" where
  "verify_line p truth got error =
     right_aligned 11 (print_fixed 1 p) @ ''% '' @ right_aligned 14 (string_of_int truth) @ '' '' @
     right_aligned 14 (string_of_int got) @ '' '' @ right_aligned 8 (print_fixed 4 (d_mul error (Fin 100))) @
     ''%'' @ [newline]"

definition verify_failed :: string where
  "verify_failed =
     ''  FAIL: reported below the true value '' @ em_dash @ '' the never-under-report guarantee is broken'' @ [newline]"

text \<open>The loop over the percentiles, with what it prints; \<open>None\<close> is the early return of a value below the true one.\<close>

fun verify_from :: "int list \<Rightarrow> histogram \<Rightarrow> double \<Rightarrow> double list \<Rightarrow> (double option \<times> string) result" where
  "verify_from exact h worst [] = Inr (Some worst, [])"
| "verify_from exact h worst (p # ps) =
     and_then (verify_rank p (of_nat (length exact))) (\<lambda>rank.
     and_then (percentile_value h p) (\<lambda>got.
       let truth = exact ! (rank - 1);
           error = d_div (d_of_i64 (got - truth)) (d_of_i64 truth);
           line = verify_line p truth got error
       in if got < truth then Inr (None, line @ verify_failed)
          else
            and_then (verify_from exact h (d_max worst (d_abs error)) ps) (\<lambda>(verdict, lines).
              Inr (verdict, line @ lines))))"

definition verify_percentiles :: "double list" where
  "verify_percentiles = map to_double [50, 90, 99, 999 / 10, 100]"

text \<open>The slots and the three counters.\<close>

definition sizeof_Histogram :: u64 where
  "sizeof_Histogram = of_int ((kCount + 3) * 8)"

definition verify_header :: "u64 \<Rightarrow> nanos \<Rightarrow> histogram \<Rightarrow> string" where
  "verify_header samples elapsed h =
     ''samples          '' @ print_u64 samples @ [newline] @
     ''record() cost    '' @ print_fixed 1 (d_div (d_of_i64 elapsed) (d_of_u64 samples)) @ '' ns/op'' @ [newline] @
     ''histogram        '' @ print_u64 sizeof_Histogram @ '' bytes, fixed'' @ [newline] @
     ''exact percentiles need '' @ print_u64 (samples * 8) @ '' bytes of samples ('' @
       print_fixed 0 (d_div (d_of_u64 (samples * 8)) (d_of_u64 sizeof_Histogram)) @ ''x more)'' @ [newline] @
     ''overflow         '' @ print_u64 (h_overflow h) @ [newline] @
     newline # right_aligned 12 ''percentile'' @ '' '' @ right_aligned 14 ''exact ns'' @ '' '' @
       right_aligned 14 ''reported ns'' @ '' '' @ right_aligned 9 ''error'' @ [newline]"

definition verify_bound :: double where
  "verify_bound = d_div (Fin 1) (d_of_i64 kSubBuckets)"

definition verify_verdict :: "double \<Rightarrow> string" where
  "verify_verdict worst =
     newline # ''worst error '' @ print_fixed 4 (d_mul worst (Fin 100)) @ ''%, bound '' @
       print_fixed 4 (d_mul verify_bound (Fin 100)) @ ''%: '' @
       (if d_le worst verify_bound then ''PASS'' else ''FAIL'') @ [newline]"

definition verify_count :: "string list \<Rightarrow> u64" where
  "verify_count argv = (if 1 < length argv then strtoull10 (argv ! 1) else 1000000)"

text \<open>\<open>main\<close>: \<open>draws i\<close> is the pair of the spike and the body drawn for sample \<open>i\<close>; the clock is read around the
  loop of \<open>record\<close>.\<close>

definition verify_samples :: "string list \<Rightarrow> (nat \<Rightarrow> int \<times> int) \<Rightarrow> int list" where
  "verify_samples argv draws =
     map (\<lambda>i. verify_sample (fst (draws i)) (snd (draws i))) [0..<unat (verify_count argv)]"

definition hist_verify ::
  "string list \<Rightarrow> (nat \<Rightarrow> int \<times> int) \<Rightarrow> (nat \<Rightarrow> instant) \<Rightarrow> (int \<times> string) result" where
  "hist_verify argv draws clock =
     (let exact = verify_samples argv draws in
      and_then (fold_result hist_record empty_histogram exact) (\<lambda>h.
      and_then (between (clock 0) (clock 1)) (\<lambda>elapsed.
      and_then (verify_from (sort exact) h (Fin 0) verify_percentiles) (\<lambda>(verdict, lines).
        let out = verify_header (verify_count argv) elapsed h @ lines in
        Inr (case verdict of
            None \<Rightarrow> (1, out)
          | Some worst \<Rightarrow> (if d_le worst verify_bound then 0 else 1, out @ verify_verdict worst))))))"

subsection \<open>Properties\<close>

lemma d_of_i64_exact: "\<bar>v\<bar> \<le> 2 ^ 53 \<Longrightarrow> d_of_i64 v = Fin (of_int v)"
  using rnd_of_int [of v] to_double_Fin [of "of_int v"]
proof -
  assume v: "\<bar>v\<bar> \<le> 2 ^ 53"
  then have "(of_int \<bar>v\<bar> :: rat) \<le> of_int (2 ^ 53)" by (simp only: of_int_le_iff)
  then have "\<bar>of_int v :: rat\<bar> \<le> 2 ^ 1023" by simp
  with rnd_of_int [OF v] show ?thesis by (simp add: d_of_i64_def to_double_Fin)
qed

lemma verify_rank_nat:
  assumes "0 \<le> p" and "p \<le> 100" and "0 < n" and "n \<le> 2 ^ 53"
  shows "verify_rank (Fin p) (of_nat n) = Inr (rank_nat p n)"
proof -
  let ?y = "rank_product p n"
  let ?c = "\<lceil>?y\<rceil>"
  have n63: "n \<le> 2 ^ 63" using assms(4) by simp
  note b = rank_product_bounds [OF assms(1,2) n63]
  have un: "unat (of_nat n :: u64) = n" using assms(4) by (intro unat_u64_of_nat) simp
  have dn: "d_of_u64 (of_nat n) = Fin (of_nat n)" using rnd_of_nat [OF assms(4)] by (simp add: d_of_u64_Fin un)
  have f: "rnd (p / 100) * of_nat n \<le> 1 * 2 ^ 53"
    using rank_factor [OF assms(1,2)] assms(4) by (intro mult_mono) (simp_all add: of_nat_le_iff [of n "2 ^ 53", simplified])
  have "to_double (p / 100) = Fin (rnd (p / 100))" using assms(1,2) by (intro to_double_Fin) simp
  moreover have "to_double (rnd (p / 100) * of_nat n) = Fin ?y"
    unfolding rank_product_def rnd_of_nat [OF assms(4)]
    using f rank_factor [OF assms(1,2)] by (intro to_double_Fin) (simp add: abs_mult)
  ultimately have c: "d_ceil (d_mul (d_div (Fin p) (Fin 100)) (d_of_u64 (of_nat n))) = Fin (of_int ?c)"
    by (simp add: dn)
  have "d_clamp (Fin (of_int ?c)) (Fin 1) (Fin (of_nat n)) = Inr (Fin (of_nat (rank_nat p n)))"
  proof -
    have "0 \<le> ?c" using b(1) by simp
    then obtain m where m: "?c = int m" by (metis nonneg_int_cases)
    show ?thesis using assms(3) by (auto simp: d_clamp_def rank_nat_def m max_def min_def)
  qed
  moreover have "rank_nat p n < 2 ^ 64" using rank_nat_bounds [OF assms(3), of p] assms(4) by simp
  then have "unat (word_of_int (int (rank_nat p n)) :: u64) = rank_nat p n" "int (rank_nat p n) < 2 ^ 64"
    using unat_u64_of_nat [of "rank_nat p n"] by (simp_all add: of_nat_less_iff [of _ "2 ^ 64", simplified])
  ultimately show ?thesis unfolding verify_rank_def c unfolding dn by (simp add: trunc_def)
qed

lemma verify_error:
  assumes "1 \<le> s" and "s \<le> kMaxValue" and "s \<le> g" and "(g - s) * 128 \<le> s"
  shows "\<exists>e. d_abs (d_div (d_of_i64 (g - s)) (d_of_i64 s)) = Fin e \<and> 0 \<le> e \<and> e \<le> 1 / 128"
proof -
  have k: "kMaxValue \<le> 2 ^ 53" by (simp add: kMaxValue_def)
  have g: "d_of_i64 (g - s) = Fin (of_int (g - s))" "d_of_i64 s = Fin (of_int s)"
    using assms k by (simp_all add: d_of_i64_exact [of "g - s"] d_of_i64_exact [of s] abs_le_iff)
  let ?q = "of_int (g - s) / of_int s :: rat"
  have "of_int ((g - s) * 128) \<le> (of_int s :: rat)" using assms(4) by (simp only: of_int_le_iff)
  then have q: "0 \<le> ?q" "?q \<le> 1 / 128" using assms(1,3) by (simp_all add: divide_simps)
  have "rnd (1 / 128) = 1 / 128" using rnd_powi [of "- 7"] by (simp add: power_int_def power_one_over)
  then have r: "0 \<le> rnd ?q" "rnd ?q \<le> 1 / 128" using q rnd_upper [OF q(2)] by simp_all
  have "\<bar>?q\<bar> \<le> 1" unfolding abs_of_nonneg [OF q(1)] using q(2) by (rule order_trans) simp
  moreover have "(1 :: rat) \<le> 2 ^ 1023" by (rule one_le_power) simp
  ultimately have "to_double ?q = Fin (rnd ?q)" by (intro to_double_Fin) (rule order_trans)
  with g r assms(1) show ?thesis by simp
qed

lemma verify_from_passes:
  assumes ns: "\<forall>l \<in> set ns. 1 \<le> l \<and> l \<le> kMaxValue" "ns \<noteq> []" "length ns \<le> 2 ^ 53"
    and ps: "\<forall>p \<in> set ps. 0 \<le> p \<and> p \<le> 100" and w: "0 \<le> w" "w \<le> 1 / 128"
  shows "\<exists>v lines. verify_from (sort ns) (hist_of (mset ns)) (Fin w) (map Fin ps) = Inr (Some (Fin v), lines) \<and>
    v \<le> 1 / 128"
  using ps w
proof (induction ps arbitrary: w)
  case Nil
  then show ?case by simp
next
  case (Cons p ps)
  let ?M = "mset ns" and ?r = "rank_nat p (length ns)"
  define s where "s = sample_of_rank ?M ?r"
  have n: "0 < length ns" "length ns \<le> 2 ^ 63" using ns(2,3) by simp_all
  have M: "\<forall>l \<in># ?M. 0 \<le> l \<and> l < 2 ^ 63" using ns(1) by (auto simp: kMaxValue_def)
  have r: "1 \<le> ?r" "?r \<le> length ns" using rank_nat_bounds [OF n(1), of p] by auto
  have mem: "s \<in># ?M" unfolding s_def using r by (intro sample_of_rank_in) auto
  then have s: "1 \<le> s" "s \<le> kMaxValue" "0 \<le> s" "s < 2 ^ 63" using ns(1) M by auto
  have "percentile (hist_of ?M) (Fin p) = Inr (Some (reported ?M s))"
    unfolding s_def using percentile_hist_of [OF M, of p] ns(2) n(2) Cons.prems(1) by simp
  then have v: "percentile_value (hist_of ?M) (Fin p) = Inr (reported ?M s)"
    by (simp add: percentile_value_def)
  have rank: "verify_rank (Fin p) (of_nat (length (sort ns))) = Inr ?r"
    using verify_rank_nat [of p "length ns"] Cons.prems(1) n(1) ns(3) by simp
  have truth: "sort ns ! (?r - 1) = s" by (simp add: s_def sample_of_rank_def)
  note b = reported_bounds [OF mem s(3,4)]
  from verify_error [OF s(1,2) b(1) b(2) [OF s(2)]] obtain e where
    e: "d_abs (d_div (d_of_i64 (reported ?M s - s)) (d_of_i64 s)) = Fin e" "0 \<le> e" "e \<le> 1 / 128" by blast
  have m: "d_max (Fin w) (Fin e) = Fin (max w e)" by (simp add: d_max_def max_def)
  have step: "verify_from (sort ns) (hist_of ?M) (Fin w) (map Fin (p # ps)) =
      and_then (verify_from (sort ns) (hist_of ?M) (Fin (max w e)) (map Fin ps)) (\<lambda>(verdict, lines).
        Inr (verdict, verify_line (Fin p) s (reported ?M s)
          (d_div (d_of_i64 (reported ?M s - s)) (d_of_i64 s)) @ lines))"
    using b(1) by (simp add: rank v truth e(1) m Let_def del: length_sort One_nat_def)
  have "0 \<le> max w e" "max w e \<le> 1 / 128" "\<forall>p \<in> set ps. 0 \<le> p \<and> p \<le> 100" using Cons.prems e by auto
  from Cons.IH [OF this(3,1,2)] obtain v lines where
    "verify_from (sort ns) (hist_of ?M) (Fin (max w e)) (map Fin ps) = Inr (Some (Fin v), lines)" "v \<le> 1 / 128" by blast
  then show ?case unfolding step by auto
qed

lemma verify_percentiles_fin: "\<exists>ps. verify_percentiles = map Fin ps \<and> (\<forall>p \<in> set ps. 0 \<le> p \<and> p \<le> 100)"
proof -
  have "rnd (999 / 10) \<le> 100" using rnd_upper [of "999 / 10" 100] rnd_of_int [of 100] by simp
  then show ?thesis
    unfolding verify_percentiles_def
    by (intro exI [of _ "map rnd [50, 90, 99, 999 / 10, 100]"])
      (use rnd_of_int [of 50] rnd_of_int [of 90] rnd_of_int [of 99] rnd_of_int [of 100] in
        \<open>simp add: to_double_Fin\<close>)
qed

text \<open>C9: The verifier always passes. For any draws of up to 60s, at least one and up to 2^53 of
  them, \<open>hist_verify\<close> prints \<open>PASS\<close> and ends with exit code 0: none of the five reported percentiles is below the true
  order statistic, and the worst relative error, as computed in doubles, is within the bound 1/128 that
  \<open>buckets.hpp\<close> claims.\<close>

theorem verifier_always_passes:
  assumes "0 < unat (verify_count argv)" and "unat (verify_count argv) \<le> 2 ^ 53"
    and "\<forall>i. snd (draws i) \<le> kMaxValue" and "clock_ok clock"
  shows "\<exists>text. hist_verify argv draws clock = Inr (0, text @ ''PASS'' @ [newline])"
proof -
  let ?ns = "verify_samples argv draws"
  have ns: "\<forall>l \<in> set ?ns. 1 \<le> l \<and> l \<le> kMaxValue" "?ns \<noteq> []" "length ?ns \<le> 2 ^ 53"
    using assms(1-3) by (auto simp: verify_samples_def verify_sample_def kMaxValue_def)
  obtain ps where ps: "verify_percentiles = map Fin ps" "\<forall>p \<in> set ps. 0 \<le> p \<and> p \<le> 100"
    using verify_percentiles_fin by blast
  obtain v lines where v: "verify_from (sort ?ns) (hist_of (mset ?ns)) (Fin 0) verify_percentiles =
      Inr (Some (Fin v), lines)" "v \<le> 1 / 128"
    using verify_from_passes [OF ns ps(2), of 0] ps(1) by auto
  have "rnd (1 / 128) = 1 / 128" using rnd_powi [of "- 7"] by (simp add: power_int_def power_one_over)
  then have b: "verify_bound = Fin (1 / 128)"
    by (simp add: verify_bound_def d_of_i64_exact to_double_Fin)
  have "fold_result hist_record empty_histogram ?ns = Inr (hist_of (mset ?ns))"
    using ns(1) by (intro fold_record_hist) auto
  with v show ?thesis
    by (simp add: b hist_verify_def Let_def between_clock [OF assms(4)] verify_verdict_def)
qed

theorem verifier_always_passes_witness:
  "\<exists>text. hist_verify [''hist_verify'', ''5''] (\<lambda>i. (int i, 200000 + int (min i 9))) (\<lambda>i. int (min i 9)) =
    Inr (0, text @ ''PASS'' @ [newline])"
proof -
  have "verify_count [''hist_verify'', ''5''] = 5"
    by (simp add: verify_count_def strtoull10_def read_sign_def is_space_def is_digit_def digit_val_def Let_def)
  then show ?thesis
    by (intro verifier_always_passes) (auto simp: kMaxValue_def clock_ok_def mono_def)
qed

text \<open>Without samples, which is what an argument that is no number means, the bounds of the clamp are out of order.\<close>

theorem verifier_of_nothing:
  assumes "verify_count argv = 0" and "clock_ok clock"
  shows "hist_verify argv draws clock = Inl (Undefined ''clamp with bounds out of order'')"
  using assms(1)
  by (simp add: hist_verify_def Let_def between_clock [OF assms(2)] verify_samples_def verify_percentiles_def
      verify_rank_def d_clamp_def d_of_u64_def to_double_Fin)

end
