(* ===== verification/Cost.thy ===== *)
theory Cost
  imports Knobs Report
begin

text \<open>
  The program \<open>apps/fault_cost.cpp\<close>, which measures what a disabled fault check costs: the number of iterations
  it makes of its argument, the timed loops, the arithmetic of the verdict, the text and the exit code. The
  readings of the clock and the random draws are arguments.
\<close>

text \<open>What an iteration draws and loads, if the checks are on.\<close>

record chance =
  ch_draw :: int
  ch_loads :: "bool list"
  ch_drop :: int

text \<open>The loop over the two checks: the sleeps it caused, and what the last check left in the sink.\<close>

fun check_loop :: "knobs \<Rightarrow> (nat \<Rightarrow> chance) \<Rightarrow> nat \<Rightarrow> bool \<Rightarrow> (nanos list \<times> bool) result" where
  "check_loop k env 0 sink = Inr ([], sink)"
| "check_loop k env (Suc n) sink =
     and_then (check_loop k env n sink) (\<lambda>(sleeps, _).
     and_then (before_response k (ch_draw (env n)) (ch_loads (env n))) (\<lambda>more.
       Inr (sleeps @ more, should_drop k (ch_drop (env n)))))"

definition parity_loop :: "nat \<Rightarrow> bool \<Rightarrow> bool" where
  "parity_loop n sink = (if n = 0 then sink else odd (n - 1))"

definition per_call_ns ::
  "knobs \<Rightarrow> (nat \<Rightarrow> chance) \<Rightarrow> u64 \<Rightarrow> bool \<Rightarrow> instant \<Rightarrow> instant \<Rightarrow> bool \<Rightarrow> (double \<times> bool) result" where
  "per_call_ns k env iterations call_fault start finish sink =
     and_then (if call_fault
               then and_then (check_loop k env (unat iterations) sink) (\<lambda>(_, sink). Inr sink)
               else Inr (parity_loop (unat iterations) sink)) (\<lambda>sink.
     and_then (between start finish) (\<lambda>d. Inr (d_div (d_of_i64 d) (d_of_u64 iterations), sink)))"

text \<open>A number right-aligned in six columns, \<open>%6.3f\<close>.\<close>

definition wide :: "double \<Rightarrow> string" where
  "wide x = right_aligned 6 (print_fixed 3 x)"

definition cost_report :: "u64 \<Rightarrow> double \<Rightarrow> double \<Rightarrow> double \<Rightarrow> string" where
  "cost_report iterations baseline all_off zero_drop =
     ''iterations            '' @ print_u64 iterations @ [newline] @
     ''no fault calls        '' @ wide baseline @ '' ns/op'' @ [newline] @
     ''fault linked, all off '' @ wide all_off @ '' ns/op   (+'' @
       print_fixed 3 (d_sub all_off baseline) @ '' ns)'' @ [newline] @
     ''drop_probability(0.0) '' @ wide zero_drop @ '' ns/op   (+'' @
       print_fixed 3 (d_sub zero_drop baseline) @ '' ns)'' @ [newline]"

definition added_cost :: "double \<Rightarrow> double \<Rightarrow> double \<Rightarrow> double" where
  "added_cost baseline all_off zero_drop =
     d_sub (if d_less zero_drop all_off then all_off else zero_drop) baseline"

definition cost_verdict :: "double \<Rightarrow> string" where
  "cost_verdict added =
     newline # ''added cost '' @ print_fixed 3 added @ '' ns/op '' @ em_dash @ '' '' @
     (if d_less added (Fin 5) then ''PASS'' else ''FAIL'') @ '' (budget 5 ns)'' @ [newline]"

text \<open>\<open>main\<close>: the clock is read before and after each of the four loops.\<close>

definition cost_iterations :: "string list \<Rightarrow> u64" where
  "cost_iterations argv = (if 1 < length argv then strtoull10 (argv ! 1) else 50000000)"

definition cost_main ::
  "string list \<Rightarrow> (nat \<Rightarrow> chance) \<Rightarrow> (nat \<Rightarrow> instant) \<Rightarrow> knobs \<Rightarrow> (int \<times> string) result \<times> knobs" where
  "cost_main argv env clock =
     (let n = cost_iterations argv in
      k_then (\<lambda>k. (per_call_ns k env (n div 10) True (clock 0) (clock 1) False, k)) (\<lambda>(_, sink).
      k_then clear (\<lambda>_.
      k_then (\<lambda>k. (per_call_ns k env n False (clock 2) (clock 3) sink, k)) (\<lambda>(baseline, sink).
      k_then (\<lambda>k. (per_call_ns k env n True (clock 4) (clock 5) sink, k)) (\<lambda>(all_off, sink).
      k_then (set_drop_probability (Fin 0)) (\<lambda>_.
      k_then (\<lambda>k. (per_call_ns k env n True (clock 6) (clock 7) sink, k)) (\<lambda>(zero_drop, _).
        let added = added_cost baseline all_off zero_drop in
        k_return (if d_less added (Fin 5) then 0 else 1,
          cost_report n baseline all_off zero_drop @ cost_verdict added))))))))"

subsection \<open>What the program does\<close>

lemma check_loop_disabled: "\<not> g_any k \<Longrightarrow> check_loop k env n sink = Inr ([], if n = 0 then sink else False)"
  by (induction n) (simp_all add: before_response_def should_drop_def)

lemma per_call_disabled:
  assumes "\<not> g_any k" and "clock_ok clock"
  shows "\<exists>sink'. per_call_ns k env iterations call_fault (clock i) (clock j) sink =
    Inr (d_div (d_of_i64 (clock j - clock i)) (d_of_u64 iterations), sink')"
  using assms by (simp add: per_call_ns_def check_loop_disabled between_clock)

lemma knobs_stay_clear:
  "clear initial_knobs = (Inr (), initial_knobs)" "set_drop_probability (Fin 0) initial_knobs = (Inr (), initial_knobs)"
proof -
  show "clear initial_knobs = (Inr (), initial_knobs)"
    by (simp add: clear_def clear_steps_def k_simps initial_knobs_def)
  have "to_double (1 / 2) = Fin (1 / 2)" "to_double 0 = Fin 0"
    using to_double_Fin [of "1 / 2"] rnd_powi [of "- 1"] to_double_Fin [of 0] by (simp_all add: power_int_def)
  then have "ppm_of (Fin 0) = Inr 0"
    by (simp add: ppm_of_def trunc_def int64_ok_def floor_eq_iff)
  then show "set_drop_probability (Fin 0) initial_knobs = (Inr (), initial_knobs)"
    by (simp add: set_drop_probability_def k_simps initial_knobs_def)
qed

text \<open>The verdict over no iterations at all: whatever the clock said, the difference is not a number.\<close>

lemma no_iterations_fail:
  assumes "0 \<le> a" and "0 \<le> b" and "0 \<le> c"
  shows "\<not> d_less (added_cost (d_div (Fin a) (Fin 0)) (d_div (Fin b) (Fin 0)) (d_div (Fin c) (Fin 0))) (Fin 5)"
  using assms by (auto simp: added_cost_def d_sub_def)

lemma elapsed_double:
  assumes "clock_ok clock" and "i \<le> j"
  shows "\<exists>a \<ge> 0. d_of_i64 (clock j - clock i) = Fin a"
proof -
  have "0 \<le> clock j - clock i" "clock j - clock i < 2 ^ 63"
    using clock_ok_mono [OF assms] clock_ok_range [OF assms(1), of i] clock_ok_range [OF assms(1), of j] by auto
  then have "0 \<le> (of_int (clock j - clock i) :: rat)" "(of_int (clock j - clock i) :: rat) \<le> of_int (2 ^ 63)"
    by (simp_all only: of_int_0_le_iff of_int_le_iff less_imp_le)
  then show ?thesis
    using to_double_Fin [of "of_int (clock j - clock i)"] rnd_lower [of 0 "of_int (clock j - clock i)"]
    by (intro exI [of _ "rnd (of_int (clock j - clock i))"]) (simp add: d_of_i64_def)
qed

text \<open>The program injects no fault into itself: no call of a check sleeps, hangs or drops, the knobs are clear at
  the end as they were, and it always reports. A number of iterations of 0, which is what an argument that is no
  number means, fails.\<close>

theorem cost_injects_nothing:
  assumes "clock_ok clock"
  shows "\<exists>code out. cost_main argv env clock initial_knobs = (Inr (code, out), initial_knobs) \<and>
    (cost_iterations argv = 0 \<longrightarrow> code = 1)"
proof -
  let ?n = "cost_iterations argv"
  let ?t = "\<lambda>i. d_div (d_of_i64 (clock (Suc i) - clock i)) (d_of_u64 ?n)"
  have off: "\<not> g_any initial_knobs" by (simp add: initial_knobs_def)
  note call = per_call_disabled [OF off assms]
  obtain s1 where "per_call_ns initial_knobs env (?n div 10) True (clock 0) (clock 1) False =
      Inr (d_div (d_of_i64 (clock 1 - clock 0)) (d_of_u64 (?n div 10)), s1)" using call by blast
  moreover obtain s2 where "per_call_ns initial_knobs env ?n False (clock 2) (clock 3) s1 = Inr (?t 2, s2)"
    using call [of env ?n False 2 3] by (auto simp: numeral_eq_Suc)
  moreover obtain s3 where "per_call_ns initial_knobs env ?n True (clock 4) (clock 5) s2 = Inr (?t 4, s3)"
    using call [of env ?n True 4 5] by (auto simp: numeral_eq_Suc)
  moreover obtain s4 where "per_call_ns initial_knobs env ?n True (clock 6) (clock 7) s3 = Inr (?t 6, s4)"
    using call [of env ?n True 6 7] by (auto simp: numeral_eq_Suc)
  ultimately have m: "cost_main argv env clock initial_knobs =
      (Inr (if d_less (added_cost (?t 2) (?t 4) (?t 6)) (Fin 5) then 0 else 1,
        cost_report ?n (?t 2) (?t 4) (?t 6) @ cost_verdict (added_cost (?t 2) (?t 4) (?t 6))), initial_knobs)"
    by (simp add: cost_main_def Let_def k_then_def k_return_def knobs_stay_clear del: d_div.simps)
  have "\<not> d_less (added_cost (?t 2) (?t 4) (?t 6)) (Fin 5)" if "?n = 0"
  proof -
    have "d_of_u64 0 = Fin 0" using to_double_Fin [of 0] by (simp add: d_of_u64_def)
    moreover obtain a b c where "d_of_i64 (clock (Suc 2) - clock 2) = Fin a" "d_of_i64 (clock (Suc 4) - clock 4) = Fin b"
      "d_of_i64 (clock (Suc 6) - clock 6) = Fin c" "0 \<le> a" "0 \<le> b" "0 \<le> c"
      using elapsed_double [OF assms, of 2 "Suc 2"] elapsed_double [OF assms, of 4 "Suc 4"]
        elapsed_double [OF assms, of 6 "Suc 6"] by auto
    ultimately show ?thesis using no_iterations_fail that by metis
  qed
  with m show ?thesis by auto
qed

lemma cost_of_a_word: "cost_iterations [''fault_cost'', ''lots''] = 0"
  by code_simp

end
