(* ===== verification/Operator.thy ===== *)
theory Operator
  imports Control
begin

text \<open>
  What the operator of a control connection is promised, across \<open>src/fault/control.cpp\<close> and \<open>knobs.cpp\<close>: the
  meaning of a command line as a setter of the specification, and that a service whose operator has typed some
  lines behaves as one in which those lines' faults are set. The locale \<open>simulation\<close> is interpreted a second time,
  between the replies of the code to lines and the meaning of the lines.
\<close>

subsection \<open>The meaning of a line\<close>

text \<open>The grammar that \<open>knobs.hpp\<close> gives for \<open>apply_command\<close>, \<open>hang <0|1>\<close> among it; a line outside it is to be
  refused.\<close>

definition probability_of :: "string \<Rightarrow> double option" where
  "probability_of text =
     (case read_decimal text of
        Some x \<Rightarrow> if d_isfinite (to_double x) then Some (to_double x) else None
      | None \<Rightarrow> None)"

fun meaning :: "string list \<Rightarrow> setter option" where
  "meaning [verb] = (if verb = ''clear'' then Some Clear else None)"
| "meaning [verb, a] =
     (if verb = ''drop'' then map_option Drop (probability_of a)
      else if verb = ''hang'' then (if a = ''1'' then Some (Hang True) else if a = ''0'' then Some (Hang False) else None)
      else if verb = ''identity'' then Some (Identity a) else None)"
| "meaning [verb, a, b] =
     (if verb = ''latency''
      then (case (read_int64 a, read_int64 b) of (Some mean, Some jitter) \<Rightarrow> Some (Latency mean jitter) | _ \<Rightarrow> None)
      else if verb = ''partition'' then Some (Partition a b)
      else if verb = ''heal'' then Some (Heal a b) else None)"
| "meaning _ = None"

definition words_of :: "string \<Rightarrow> string list" where
  "words_of line = split_on (chop_return line) (CHR '' '')"

text \<open>Where the code leaves the grammar: it takes every word after \<open>hang\<close>, \<open>true\<close> as 1 and any other as 0.\<close>

fun taken_as :: "string list \<Rightarrow> string list" where
  "taken_as [verb, a] =
     (if verb = ''hang'' \<and> a \<notin> {''0'', ''1''} then [verb, if a = ''true'' then ''1'' else ''0''] else [verb, a])"
| "taken_as words = words"

lemma taken_as_documented: "meaning words \<noteq> None \<Longrightarrow> taken_as words = words"
  by (cases words rule: taken_as.cases) (auto split: if_splits)

text \<open>Whether the specification accepts the words of a line, and the faults after it.\<close>

definition obey :: "faults \<Rightarrow> string list \<Rightarrow> bool \<times> faults" where
  "obey f words =
     (case meaning words of
        None \<Rightarrow> (False, f)
      | Some x \<Rightarrow> (case spec_set x f of (r, f') \<Rightarrow> (r = Inr (), f')))"

text \<open>The same of the code: whether the reply is \<open>ok\<close>, and the knobs after it.\<close>

definition reply_ok :: "string \<Rightarrow> bool" where
  "reply_ok reply \<longleftrightarrow> reply = ''ok'' @ [CHR 0x0A]"

definition served :: "knobs \<Rightarrow> string \<Rightarrow> bool \<times> knobs" where
  "served k line =
     (case reply_to line k of
        (Inl e, k') \<Rightarrow> (False, k')
      | (Inr reply, k') \<Rightarrow> (reply_ok reply, k'))"

subsection \<open>A line is carried out as it means\<close>

definition carries_out :: "setter option \<Rightarrow> string kop \<Rightarrow> knobs \<Rightarrow> bool" where
  "carries_out x m k \<longleftrightarrow>
     (case x of
        None \<Rightarrow> snd (m k) = k \<and> fst (m k) \<noteq> Inr ''ok''
      | Some x \<Rightarrow> m k = (case code_set x k of (Inl e, k') \<Rightarrow> (Inl e, k') | (Inr _, k') \<Rightarrow> (Inr ''ok'', k')))"

lemma carries_out_ok: "code_set x = m \<Longrightarrow> carries_out (Some x) (ok m) k"
  by (auto simp: carries_out_def ok_def k_simps split: sum.splits prod.splits)

lemmas carries_out_setters = code_set.simps [THEN carries_out_ok]

lemma carries_out_throw: "carries_out None (k_throw e) k"
  by (simp add: carries_out_def k_throw_def)

lemma carries_out_expect:
  "carries_out x (k_then (expect words n) f) k \<longleftrightarrow>
    (if length words = n + 1 then carries_out x (f ()) k
     else carries_out x (k_throw (UsageError (words ! 0 @ '' takes '' @ string_of_nat n @ '' argument(s)''))) k)"
  by (cases "length words = n + 1"; cases x) (simp_all add: carries_out_def expect_then k_throw_def)

lemma as_millis_read:
  "as_millis text label = (case read_int64 text of Some v \<Rightarrow> Inr v
     | None \<Rightarrow> Inl (UsageError (label @ '' must be a whole number of ms, got '' @ in_quotes text)))"
  by (simp add: as_millis_def split: option.split)

lemma as_probability_read:
  "as_probability text label = (case probability_of text of Some p \<Rightarrow> Inr p
     | None \<Rightarrow> Inl (UsageError (label @ '' must be a number, got '' @ in_quotes text)))"
  by (simp add: as_probability_def probability_of_def Let_def split: option.split)

lemma k_then_lift: "k_then (k_lift r) f k = (case r of Inl e \<Rightarrow> (Inl e, k) | Inr x \<Rightarrow> f x k)"
  by (simp add: k_simps split: sum.split)

lemma carries_out_lift:
  "carries_out x (k_then (k_lift r) f) k \<longleftrightarrow>
    (case r of Inl e \<Rightarrow> carries_out x (k_throw e) k | Inr y \<Rightarrow> carries_out x (f y) k)"
  by (cases x; cases r) (simp_all add: carries_out_def k_then_lift k_throw_def)

lemma status_no_ok: "carries_out None (\<lambda>k. (Inr (if any_enabled k then ''faults active'' else ''no faults''), k)) k"
  by (simp add: carries_out_def)

lemma words_cases:
  fixes words :: "string list"
  obtains (none) "words = []" | (one) v where "words = [v]" | (two) v a where "words = [v, a]"
  | (three) v a b where "words = [v, a, b]" | (more) v a b c rest where "words = v # a # b # c # rest"
proof (cases words rule: meaning.cases)
qed (rule one two three none more, assumption)+

lemma command_meaning: "carries_out (meaning (taken_as (split_on line (CHR '' '')))) (apply_command line) k"
proof (cases "split_on line (CHR '' '')" rule: words_cases)
  case (one verb)
  then show ?thesis
    by (simp add: apply_command_def Let_def carries_out_expect carries_out_throw carries_out_setters status_no_ok)
next
  case (two verb a)
  then show ?thesis
    by (simp add: apply_command_def Let_def carries_out_expect carries_out_throw carries_out_setters
        carries_out_lift as_probability_read switched_on_def split: option.split)
next
  case (three verb a b)
  then show ?thesis
    by (simp add: apply_command_def Let_def carries_out_expect carries_out_throw carries_out_setters
        carries_out_lift as_millis_read split: option.split)
next
  case none
  then show ?thesis by (simp add: apply_command_def carries_out_throw)
next
  case (more v a b c rest)
  then show ?thesis
    by (simp add: apply_command_def Let_def carries_out_expect carries_out_throw)
qed

lemma served_simulates:
  assumes "knobs_ok k"
  shows "knobs_ok (snd (served k line)) \<and>
    obey (faults_of k) (taken_as (words_of line)) = (fst (served k line), faults_of (snd (served k line)))"
proof (cases "meaning (taken_as (words_of line))")
  case None
  with command_meaning [of "chop_return line" k] obtain r where
    "apply_command (chop_return line) k = (r, k)" "r \<noteq> Inr ''ok''"
    by (cases "apply_command (chop_return line) k") (auto simp: carries_out_def words_of_def)
  with None assms show ?thesis
    by (auto simp: served_def reply_to_def obey_def reply_ok_def split: sum.splits)
next
  case (Some x)
  obtain r k' where c: "code_set x k = (r, k')" by fastforce
  with command_meaning [of "chop_return line" k] Some have a: "apply_command (chop_return line) k =
      (case r of Inl e \<Rightarrow> (Inl e, k') | Inr _ \<Rightarrow> (Inr ''ok'', k'))"
    by (auto simp: carries_out_def words_of_def split: sum.splits)
  from set_refines [OF assms, of x] c Some a show ?thesis
    by (auto simp: served_def reply_to_def obey_def reply_ok_def split: sum.splits)
qed

interpretation operator: simulation served "\<lambda>f line. obey f (taken_as (words_of line))" faults_of knobs_ok
  by unfold_locales (rule served_simulates)

lemma run_all_map: "run_all (\<lambda>s x. f s (g x)) s xs = run_all f s (map g xs)"
  by (induction xs arbitrary: s) (simp_all split: prod.split)

lemma answers_served:
  "answers lines k = Some (replies, k') \<Longrightarrow> run_all served k lines = (map reply_ok replies, k')"
  by (induction lines k arbitrary: replies k' rule: answers.induct)
    (auto simp: served_def split: sum.splits prod.splits option.splits)

text \<open>What a service asks its knobs, as the specification answers it.\<close>

definition behaves_as :: "knobs \<Rightarrow> faults \<Rightarrow> bool" where
  "behaves_as k f \<longleftrightarrow>
     any_enabled k = spec_active f \<and> (\<forall>peer. blocked k peer = spec_blocked f peer) \<and>
     (\<forall>draw \<ge> 0. should_drop k draw \<longleftrightarrow> draw < f_ppm f) \<and>
     (\<forall>draw loads. \<bar>draw\<bar> \<le> f_jitter f \<longrightarrow> before_response k draw loads =
        (if spec_active f
         then and_then (spec_wait f draw) (\<lambda>waits. and_then (hang_loop loads) (\<lambda>sleeps. Inr (waits @ sleeps)))
         else Inr []))"

lemma knobs_behave: "knobs_ok k \<Longrightarrow> behaves_as k (faults_of k)"
  using active_iff [of k] blocked_refines [of k] should_drop_refines [of k] wait_refines [of k]
  by (auto simp: behaves_as_def any_enabled_def before_response_def faults_of_def)

text \<open>A \<open>hang\<close> with a word that the grammar does not have is answered with \<open>ok\<close>, and switches a hang off.\<close>

lemma misspelt_hang_answers_ok:
  assumes "knobs_ok k" and "words_of line = [''hang'', a]" and "a \<notin> {''0'', ''1'', ''true''}"
  shows "meaning (words_of line) = None" and "fst (served k line) \<and> \<not> g_hanging (snd (served k line))"
proof -
  show "meaning (words_of line) = None" using assms(2,3) by simp
  have "taken_as (words_of line) = [''hang'', ''0'']" using assms(2,3) by simp
  with served_simulates [OF assms(1), of line] have
    "obey (faults_of k) [''hang'', ''0''] = (fst (served k line), faults_of (snd (served k line)))" by simp
  moreover have "obey (faults_of k) [''hang'', ''0''] = (True, faults_of k\<lparr>f_hanging := False\<rparr>)"
    by (simp add: obey_def)
  ultimately have "fst (served k line)" "faults_of (snd (served k line)) = faults_of k\<lparr>f_hanging := False\<rparr>" by auto
  then show "fst (served k line) \<and> \<not> g_hanging (snd (served k line))" by (simp add: faults_of_def)
qed

text \<open>C13: The operator gets the faults asked for. However the bytes of a control connection are cut up and its replies
  accepted, after it has hung up the service answers every check as if exactly the lines typed had been
  obeyed, in order: a line is answered with \<open>ok\<close> exactly when it means a setter that the
  specification accepts, and every other line changes nothing. The meaning of the lines is the documented grammar, with
  one exception, which is stated (\<open>taken_as\<close>): after \<open>hang\<close> the documentation has 0 and 1 and refuses anything else,
  while the code takes \<open>true\<close> as 1 and any other word as 0, and answers \<open>ok\<close>. When no line is such a \<open>hang\<close>, the
  documented meaning is what the service does.\<close>

theorem operator_sets_faults:
  assumes "dialogue [] k chunks rs ps" and "knobs_ok k" and "w_kernel w = rs @ later"
  shows "\<exists>replies k' f. concat ps = concat replies \<and>
    serve fd (w, k) = (Inr (), (w\<lparr>w_kernel := later, w_log := w_log w @ map Sent ps @ [Closed fd]\<rparr>, k')) \<and>
    run_all obey (faults_of k) (map (taken_as \<circ> words_of) (fst (lines_of [] (concat chunks)))) =
      (map reply_ok replies, f) \<and> behaves_as k' f \<and>
    ((\<forall>line \<in> set (fst (lines_of [] (concat chunks))). taken_as (words_of line) = words_of line) \<longrightarrow>
      run_all obey (faults_of k) (map words_of (fst (lines_of [] (concat chunks)))) = (map reply_ok replies, f))"
proof -
  from serve_dialogue [OF assms(1,3), of fd] obtain replies k' where
    a: "answers (fst (lines_of [] (concat chunks))) k = Some (replies, k')" and "concat ps = concat replies"
    "serve fd (w, k) = (Inr (), (w\<lparr>w_kernel := later, w_log := w_log w @ map Sent ps @ [Closed fd]\<rparr>, k'))" by blast
  moreover from operator.run_simulates [OF assms(2) answers_served [OF a]] knobs_behave [of k'] have
    run: "run_all obey (faults_of k) (map (taken_as \<circ> words_of) (fst (lines_of [] (concat chunks)))) =
      (map reply_ok replies, faults_of k')"
    and "behaves_as k' (faults_of k')"
    by (simp_all add: run_all_map [of obey "\<lambda>line. taken_as (words_of line)"] comp_def)
  moreover have "run_all obey (faults_of k) (map words_of (fst (lines_of [] (concat chunks)))) =
      (map reply_ok replies, faults_of k')"
    if "\<forall>line \<in> set (fst (lines_of [] (concat chunks))). taken_as (words_of line) = words_of line"
  proof -
    have "map (taken_as \<circ> words_of) (fst (lines_of [] (concat chunks))) = map words_of (fst (lines_of [] (concat chunks)))"
      using that by simp
    with run show ?thesis by (simp only:)
  qed
  ultimately show ?thesis by blast
qed

theorem operator_sets_faults_witness:
  "\<exists>k'. snd (snd (serve 9 (quiet_world (hang_answers), initial_knobs))) = k' \<and>
     before_response k' 0 [] = Inl Blocked"
proof -
  have "w_kernel (quiet_world hang_answers) = hang_answers @ []" by (simp add: quiet_world_def)
  from operator_sets_faults [OF hang_dialogue knobs_ok_initial this, of 9] obtain replies k' f where
    s: "snd (snd (serve 9 (quiet_world hang_answers, initial_knobs))) = k'"
    and r: "run_all obey (faults_of initial_knobs) (map (taken_as \<circ> words_of) (fst (lines_of [] (concat split_hang)))) =
      (map reply_ok replies, f)"
    and b: "behaves_as k' f" by (elim exE conjE) simp
  have "run_all obey no_faults (map (taken_as \<circ> words_of) [''hang 1'' @ [CHR 0x0D]]) = ([True], no_faults\<lparr>f_hanging := True\<rparr>)"
    by (simp add: obey_def words_of_def chop_return_def split_on_def)
  then have "f = no_faults\<lparr>f_hanging := True\<rparr>"
    using r by (simp add: faults_of_initial split_hang_def line_feed_def)
  with b s show ?thesis
    by (auto simp: behaves_as_def spec_active_def no_faults_def spec_wait_def spec_delay_def int64_ok_def)
qed

end
