(* ===== verification/Interleaving.thy ===== *)
theory Interleaving
  imports Open_Loop
begin

text \<open>
  The threads of an open-loop run as a step relation, and why \<open>Open_Loop\<close> may run them one after the other. The
  state of the run is the shared schedule and, of every thread, where it stands in \<open>OpenLoopWorker::run\<close>. A
  step is one turn of one thread's loop, made against the schedule as all threads before it have left it.
  Nothing else is shared: a thread has its own socket, its own histograms and its own conversation with the
  kernel, and a turn claims at most once, so the order of the claims is all that an interleaving of smaller
  steps can decide. Beside the state the relation keeps which thread made each claim. A thread in a call that never
  returns has no step; one that throws has none either, since \<open>terminate\<close> has then ended the program.
\<close>

datatype 'addr pool_thread = Running "open_worker \<times> nat option" "'addr world" | Ended open_worker

type_synonym 'addr pool = "schedule \<times> nat list \<times> 'addr pool_thread list"

definition put :: "u64 list \<Rightarrow> open_worker \<Rightarrow> open_worker" where
  "put R ow = ow\<lparr>ow_tickets := R\<rparr>"

primrec after_turn :: "'addr world \<Rightarrow> (open_worker \<times> nat option, open_worker) turn \<Rightarrow> 'addr pool_thread" where
  "after_turn w (Again st) = Running (put [] (fst st), snd st) w"
| "after_turn w (Exit ow) = Ended (put [] ow)"

text \<open>The ticket of a turn is the index the counter would give it now; a turn that leaves it has not claimed.\<close>

primrec left_in :: "(open_worker \<times> nat option, open_worker) turn \<Rightarrow> u64 list" where
  "left_in (Again st) = ow_tickets (fst st)"
| "left_in (Exit ow) = ow_tickets ow"

inductive pool_step ::
  "worker_config \<Rightarrow> protocol \<Rightarrow> 'addr list \<Rightarrow> instant \<Rightarrow> instant \<Rightarrow> 'addr pool \<Rightarrow> 'addr pool \<Rightarrow> bool"
  for config protocol addresses record_from deadline where
  claiming: "pool_step config protocol addresses record_from deadline (schedule, claims, pool)
      (snd (claim schedule), claims @ [i], pool[i := after_turn w' t])"
    if "i < length pool" and "pool ! i = Running (ow, socket) w"
      and "open_turn config protocol addresses schedule record_from deadline (put [sch_next schedule] ow, socket) w =
        (Inr t, w')"
      and "left_in t = []"
| passing: "pool_step config protocol addresses record_from deadline (schedule, claims, pool)
      (schedule, claims, pool[i := after_turn w' t])"
    if "i < length pool" and "pool ! i = Running (ow, socket) w"
      and "open_turn config protocol addresses schedule record_from deadline (put [sch_next schedule] ow, socket) w =
        (Inr t, w')"
      and "left_in t \<noteq> []"

definition pool_start :: "rate \<Rightarrow> instant \<Rightarrow> 'addr world list \<Rightarrow> 'addr pool" where
  "pool_start q record_from threads =
     (new_schedule q record_from, [], map (Running (new_open_worker [], None)) threads)"

subsection \<open>What a turn does with its tickets\<close>

primrec retick :: "u64 list \<Rightarrow> (open_worker \<times> nat option, open_worker) turn
    \<Rightarrow> (open_worker \<times> nat option, open_worker) turn" where
  "retick R (Again st) = Again (put R (fst st), snd st)"
| "retick R (Exit ow) = Exit (put R ow)"

definition retick_op :: "u64 list \<Rightarrow> (open_worker \<times> nat option, open_worker) turn result \<times> 'addr world
    \<Rightarrow> (open_worker \<times> nat option, open_worker) turn result \<times> 'addr world" where
  "retick_op R z = (case z of (Inl e, w) \<Rightarrow> (Inl e, w) | (Inr t, w) \<Rightarrow> (Inr (retick R t), w))"

lemma put_simps [simp]: "put R (put S ow) = put R ow" "ow_tickets (put R ow) = R" "put [] (new_open_worker R) = new_open_worker []"
  "put R (new_open_worker S) = new_open_worker R"
  by (simp_all add: put_def new_open_worker_def)

lemma put_same: "put (ow_tickets ow) ow = ow"
  by (simp add: put_def)

lemma retick_simps [simp]: "retick R (retick S t) = retick R t" "left_in (retick R t) = R"
  "after_turn w (retick R t) = after_turn w t"
  by (cases t; simp)+

text \<open>Either a turn makes no claim, and the tickets of the worker pass through it, or it makes one: then without a
  ticket it is stuck, and the tickets after the first pass through.\<close>

definition blind :: "(open_worker \<Rightarrow> ('addr, (open_worker \<times> nat option, open_worker) turn) op) \<Rightarrow> bool" where
  "blind f \<longleftrightarrow> (\<forall>ow w. \<exists>z. \<forall>R. f (put R ow) w = retick_op R z)"

definition one_claim :: "(open_worker \<Rightarrow> ('addr, (open_worker \<times> nat option, open_worker) turn) op) \<Rightarrow> bool" where
  "one_claim f \<longleftrightarrow> (\<forall>ow w.
     (\<exists>z. \<forall>R. f (put R ow) w = retick_op R z) \<or>
     (\<exists>e v. f (put [] ow) w = (Inl e, v)) \<and> (\<forall>c. \<exists>z. \<forall>R. f (put (c # R) ow) w = retick_op R z))"

named_theorems ticketing \<open>how operations treat the tickets of a worker\<close>

lemma blind_one_claim: "blind f \<Longrightarrow> one_claim f"
  by (simp add: blind_def one_claim_def)

lemma blind_return [ticketing]:
  "blind (\<lambda>ow. return_op (Again (ow, s)))" "blind (\<lambda>ow. return_op (Exit ow))"
  unfolding blind_def
  by (intro allI exI [of _ "(Inr (Again (ow, s)), w)" for ow w] exI [of _ "(Inr (Exit ow), w)" for ow w],
      simp add: retick_op_def return_op_def)+

lemma blind_then [ticketing]: "(\<And>x. blind (f x)) \<Longrightarrow> blind (\<lambda>ow. op_then m (\<lambda>x. f x ow))"
  unfolding blind_def
proof (intro allI)
  fix ow w assume f: "\<And>x. \<forall>ow w. \<exists>z. \<forall>R. f x (put R ow) w = retick_op R z"
  show "\<exists>z. \<forall>R. op_then m (\<lambda>x. f x (put R ow)) w = retick_op R z"
  proof (cases "m w")
    case (Pair a v)
    show ?thesis
    proof (cases a)
      case (Inl e)
      then show ?thesis using Pair
        by (intro exI [of _ "(Inl e, v)"]) (simp add: op_then_def retick_op_def)
    next
      case (Inr x)
      then show ?thesis using Pair f [of x] by (simp add: op_then_def)
    qed
  qed
qed

lemma blind_if [ticketing]: "blind f \<Longrightarrow> blind g \<Longrightarrow> blind (\<lambda>ow. if c then f ow else g ow)"
  by (cases c) simp_all

lemma one_claim_then [ticketing]: "(\<And>x. one_claim (f x)) \<Longrightarrow> one_claim (\<lambda>ow. op_then m (\<lambda>x. f x ow))"
  unfolding one_claim_def
proof (intro allI)
  fix ow w
  assume f: "\<And>x. \<forall>ow w. (\<exists>z. \<forall>R. f x (put R ow) w = retick_op R z) \<or>
    (\<exists>e v. f x (put [] ow) w = (Inl e, v)) \<and> (\<forall>c. \<exists>z. \<forall>R. f x (put (c # R) ow) w = retick_op R z)"
  show "(\<exists>z. \<forall>R. op_then m (\<lambda>x. f x (put R ow)) w = retick_op R z) \<or>
    (\<exists>e v. op_then m (\<lambda>x. f x (put [] ow)) w = (Inl e, v)) \<and>
    (\<forall>c. \<exists>z. \<forall>R. op_then m (\<lambda>x. f x (put (c # R) ow)) w = retick_op R z)"
  proof (cases "m w")
    case (Pair a v)
    show ?thesis
    proof (cases a)
      case (Inl e)
      then have "\<forall>R. op_then m (\<lambda>x. f x (put R ow)) w = retick_op R (Inl e, v)"
        using Pair by (simp add: op_then_def retick_op_def)
      then show ?thesis by blast
    next
      case (Inr x)
      then show ?thesis using Pair f [of x] by (simp add: op_then_def)
    qed
  qed
qed

text \<open>Functions of the worker that leave the tickets alone.\<close>

lemma and_then_cases: "and_then r f = (case r of Inl e \<Rightarrow> Inl e | Inr x \<Rightarrow> f x)"
  by (cases r) simp_all

lemma blind_after:
  assumes "blind f" and "\<And>R ow. g (put R ow) = (case g ow of Inl e \<Rightarrow> Inl e | Inr ow' \<Rightarrow> Inr (put R ow'))"
  shows "blind (\<lambda>ow. op_then (lift (g ow)) f)"
  unfolding blind_def
proof (intro allI)
  fix ow w
  show "\<exists>z. \<forall>R. op_then (lift (g (put R ow))) f w = retick_op R z"
  proof (cases "g ow")
    case (Inl e)
    then show ?thesis
      by (intro exI [of _ "(Inl e, w)"]) (simp add: op_then_def lift_def assms(2) retick_op_def)
  next
    case (Inr ow')
    with assms(1) show ?thesis by (simp add: op_then_def lift_def assms(2) blind_def)
  qed
qed

lemma one_claim_update:
  assumes "one_claim f" and "\<And>R ow. g (put R ow) = put R (g ow)"
  shows "one_claim (\<lambda>ow. f (g ow))"
  using assms(1) unfolding one_claim_def by (simp add: assms(2))

lemma count_from_due_put:
  "count_from_due (put R ow) out d = (case count_from_due ow out d of Inl e \<Rightarrow> Inl e | Inr ow' \<Rightarrow> Inr (put R ow'))"
  by (cases out; cases "hist_record (ow_histogram ow) d")
    (simp_all add: count_from_due_def put_def Let_def)

lemma account_slot_put:
  "account_slot (put R ow) due free_at sending x =
    (case account_slot ow due free_at sending x of Inl e \<Rightarrow> Inl e | Inr ow' \<Rightarrow> Inr (put R ow'))"
proof -
  have "put R ow\<lparr>ow_attempted := n, ow_lag := l, ow_connection_wait := c, ow_rig_lag := r\<rparr> =
      put R (ow\<lparr>ow_attempted := n, ow_lag := l, ow_connection_wait := c, ow_rig_lag := r\<rparr>)" for n l c r
    by (simp add: put_def)
  moreover have "ow_lag (put R ow) = ow_lag ow" "ow_attempted (put R ow) = ow_attempted ow"
    "ow_connection_wait (put R ow) = ow_connection_wait ow" "ow_rig_lag (put R ow) = ow_rig_lag ow"
    by (simp_all add: put_def)
  ultimately show ?thesis
    by (cases "between due sending"; cases "between due free_at";
        simp add: account_slot_def Let_def count_from_due_put and_then_cases split: sum.split)
qed

lemma blind_send [ticketing]:
  "blind (\<lambda>ow. send_slot config protocol record_from ow due free_at fd)"
proof -
  have "blind (\<lambda>ow. op_then (lift (if m then account_slot ow due free_at sending x else Inr ow)) (\<lambda>ow.
      if x_usable x then return_op (Again (ow, Some fd))
      else op_then (log_action (Closed fd)) (\<lambda>_. return_op (Again (ow, None)))))" for m sending x
    by (rule blind_after) (simp_all add: account_slot_put ticketing split: sum.split)
  then show ?thesis unfolding send_slot_def split_beta by (intro ticketing)
qed

lemma one_claim_carry [ticketing]:
  "one_claim (\<lambda>ow. carry_slot config protocol schedule record_from deadline ow fd)"
proof -
  let ?g = "\<lambda>free_at slot ow. if deadline \<le> slot_due slot then op_then (drop_socket (Some fd)) (\<lambda>_. return_op (Exit ow))
        else send_slot config protocol record_from ow (slot_due slot) free_at fd"
  have g: "blind (?g free_at slot)" for free_at slot
    by (intro ticketing)
  have "one_claim (\<lambda>ow. op_then (claim_slot schedule ow) (\<lambda>(slot, ow). ?g free_at slot ow))" for free_at
    unfolding one_claim_def
  proof (intro allI disjI2 conjI)
    fix ow w c
    show "\<exists>e v. op_then (claim_slot schedule (put [] ow)) (\<lambda>(slot, ow). ?g free_at slot ow) w = (Inl e, v)"
      by (simp add: claim_slot_def op_then_def throw_def)
    show "\<exists>z. \<forall>R. op_then (claim_slot schedule (put (c # R) ow)) (\<lambda>(slot, ow). ?g free_at slot ow) w = retick_op R z"
    proof (cases "slot_at schedule c")
      case (Inl e)
      then show ?thesis
        by (intro exI [of _ "(Inl e, w)"]) (simp add: claim_slot_def op_then_def lift_def retick_op_def)
    next
      case (Inr slot)
      from g obtain z where "\<forall>R. ?g free_at slot (put R ow) w = retick_op R z"
        unfolding blind_def by blast
      moreover have "op_then (claim_slot schedule (put (c # R) ow)) (\<lambda>(slot, ow). ?g free_at slot ow) w =
          ?g free_at slot (put R ow) w" for R
        using Inr by (simp add: claim_slot_def op_then_def lift_def return_op_def put_def)
      ultimately show ?thesis by (intro exI [of _ z]) simp
    qed
  qed
  then show ?thesis unfolding carry_slot_def by (intro ticketing)
qed

lemma blind_connect_failed [ticketing]:
  "blind (\<lambda>ow. open_connect_failed config record_from ow socket)"
proof -
  have f: "blind (\<lambda>ow. return_op (Again (if m then ow\<lparr>ow_attempted := ow_attempted ow + 1,
      ow_errors := (ow_errors ow)\<lparr>e_connect := e_connect (ow_errors ow) + 1\<rparr>\<rparr> else ow, socket)))" for m
    unfolding blind_def
  proof (intro allI)
    fix ow :: open_worker and w
    let ?u = "\<lambda>ow. if m then ow\<lparr>ow_attempted := ow_attempted ow + 1,
      ow_errors := (ow_errors ow)\<lparr>e_connect := e_connect (ow_errors ow) + 1\<rparr>\<rparr> else ow"
    show "\<exists>z. \<forall>R. return_op (Again (?u (put R ow), socket)) w = retick_op R z"
      by (intro exI [of _ "(Inr (Again (?u ow, socket)), w)"]) (simp add: return_op_def retick_op_def put_def)
  qed
  show ?thesis unfolding open_connect_failed_def by (intro ticketing f)
qed

lemma one_claim_connect [ticketing]:
  "one_claim (\<lambda>ow. open_connect_first config protocol addresses schedule record_from deadline ow)"
proof -
  have carry: "one_claim (\<lambda>ow. carry_slot config protocol schedule record_from deadline
      (ow\<lparr>ow_opened := ow_opened ow + 1\<rparr>) fd)" for fd
    by (rule one_claim_update [OF one_claim_carry]) (simp add: put_def)
  have "one_claim (\<lambda>ow. case s of Inl e \<Rightarrow> open_connect_failed config record_from ow (Some fd)
      | Inr u \<Rightarrow> carry_slot config protocol schedule record_from deadline
          (ow\<lparr>ow_opened := ow_opened ow + 1\<rparr>) fd)" for s :: "error + 'b" and fd
    by (cases s) (simp_all add: carry blind_one_claim blind_connect_failed)
  note that = this
  have "one_claim (\<lambda>ow. case c of Inl e \<Rightarrow> open_connect_failed config record_from ow None
      | Inr fd \<Rightarrow> op_then (attempt_io (set_timeouts (wc_read_timeout config) (wc_write_timeout config)))
          (\<lambda>s. case s of Inl e \<Rightarrow> open_connect_failed config record_from ow (Some fd)
             | Inr _ \<Rightarrow> carry_slot config protocol schedule record_from deadline
                 (ow\<lparr>ow_opened := ow_opened ow + 1\<rparr>) fd))" for c :: "error + nat"
    by (cases c) (simp_all add: blind_one_claim blind_connect_failed one_claim_then [OF that])
  then show ?thesis unfolding open_connect_first_def by (intro ticketing)
qed

lemma one_claim_turn:
  "one_claim (\<lambda>ow. open_turn config protocol addresses schedule record_from deadline (ow, socket))"
proof -
  have "one_claim (\<lambda>ow. if deadline \<le> t then op_then (drop_socket socket) (\<lambda>_. return_op (Exit ow))
      else case socket of
          Some fd \<Rightarrow> carry_slot config protocol schedule record_from deadline ow fd
        | None \<Rightarrow> open_connect_first config protocol addresses schedule record_from deadline ow)" for t
    by (cases "deadline \<le> t"; cases socket)
      (simp_all add: blind_one_claim blind_then blind_return one_claim_carry one_claim_connect)
  then show ?thesis unfolding open_turn_def prod.case by (intro ticketing)
qed

lemma turn_cases:
  obtains (passes) z where "\<And>R. open_turn config protocol addresses schedule record_from deadline (put R ow, socket) w =
      retick_op R z"
  | (claims) e v where
      "open_turn config protocol addresses schedule record_from deadline (put [] ow, socket) w = (Inl e, v)"
      "\<And>c. \<exists>z. \<forall>R. open_turn config protocol addresses schedule record_from deadline (put (c # R) ow, socket) w =
        retick_op R z"
  using one_claim_turn [of config protocol addresses schedule record_from deadline socket]
  unfolding one_claim_def by metis

lemma retick_op_Inr: "retick_op R z = (Inr t, w) \<longleftrightarrow> (\<exists>t'. z = (Inr t', w) \<and> t = retick R t')"
  by (auto simp: retick_op_def split: prod.splits sum.splits)

text \<open>The turn only asks the schedule for the due times, so it may be made against the schedule at any time of the run.\<close>

lemma turn_next: "open_turn config protocol addresses (s\<lparr>sch_next := n\<rparr>) record_from deadline =
    open_turn config protocol addresses s record_from deadline"
proof -
  have "claim_slot (s\<lparr>sch_next := n\<rparr>) = claim_slot s" 
    by (intro ext) (simp add: claim_slot_def split: list.split)
  then show ?thesis unfolding open_turn_def open_connect_first_def carry_slot_def by (rule ssubst) (rule refl)
qed

lemma pool_turn:
  assumes "open_turn config protocol addresses schedule record_from deadline (put [c] ow, socket) w = (Inr t, w')"
  shows "left_in t = [] \<Longrightarrow>
      open_turn config protocol addresses schedule record_from deadline (put (c # R) ow, socket) w = (Inr (retick R t), w')"
    and "left_in t \<noteq> [] \<Longrightarrow>
      open_turn config protocol addresses schedule record_from deadline (put R ow, socket) w = (Inr (retick R t), w')"
proof -
  let ?turn = "\<lambda>R. open_turn config protocol addresses schedule record_from deadline (put R ow, socket) w"
  have "(left_in t = [] \<longrightarrow> ?turn (c # R) = (Inr (retick R t), w')) \<and>
      (left_in t \<noteq> [] \<longrightarrow> ?turn R = (Inr (retick R t), w'))"
  proof (cases rule: turn_cases [of config protocol addresses schedule record_from deadline ow socket w])
    case (passes z)
    from passes [of "[c]"] assms obtain t' where "z = (Inr t', w')" "t = retick [c] t'" by (metis retick_op_Inr)
    with passes [of R] show ?thesis by (simp add: retick_op_def)
  next
    case (claims e v)
    from claims(2) [of c] obtain z where z: "\<And>R. ?turn (c # R) = retick_op R z" by blast
    from z [of "[]"] assms obtain t' where "z = (Inr t', w')" "t = retick [] t'" by (metis retick_op_Inr)
    with z [of R] show ?thesis by (simp add: retick_op_def)
  qed
  then show "left_in t = [] \<Longrightarrow> ?turn (c # R) = (Inr (retick R t), w')"
    and "left_in t \<noteq> [] \<Longrightarrow> ?turn R = (Inr (retick R t), w')" by blast+
qed

subsection \<open>Every interleaving is a run one after the other\<close>

lemma tickets_snoc: "tickets (claims @ [i]) j = tickets claims j @ (if i = j then [of_nat (length claims)] else [])"
proof -
  have "filter (\<lambda>n. (claims @ [i]) ! n = j) [0..<length claims] = filter (\<lambda>n. claims ! n = j) [0..<length claims]"
    by (rule filter_cong) (simp_all add: nth_append)
  then show ?thesis by (simp add: tickets_def)
qed

text \<open>A thread that has been given the tickets \<open>T\<close> is where its own run, given these and more, gets to.\<close>

definition stands ::
  "worker_config \<Rightarrow> protocol \<Rightarrow> 'addr list \<Rightarrow> schedule \<Rightarrow> instant \<Rightarrow> instant \<Rightarrow> u64 list \<Rightarrow> 'addr world
    \<Rightarrow> 'addr pool_thread \<Rightarrow> bool" where
  "stands config protocol addresses schedule record_from deadline T start th \<longleftrightarrow>
     (case th of
        Running (ow, socket) w \<Rightarrow>
          (\<forall>R. open_worker_run config protocol addresses schedule record_from deadline (new_open_worker (T @ R)) start =
             iterate (open_turn config protocol addresses schedule record_from deadline) (put R ow, socket) w)
      | Ended ow \<Rightarrow> ow_tickets ow = [] \<and>
          (\<forall>R. fst (open_worker_run config protocol addresses schedule record_from deadline
             (new_open_worker (T @ R)) start) = Inr (put R ow)))"

lemma stands_start: "stands config protocol addresses schedule record_from deadline [] w (Running (new_open_worker [], None) w)"
  by (simp add: stands_def open_worker_run_def)

lemma stands_turn:
  assumes "stands config protocol addresses schedule record_from deadline T start (Running (ow, socket) w)"
    and "\<And>R. open_turn config protocol addresses schedule record_from deadline (put (U @ R) ow, socket) w =
      (Inr (retick R t), w')"
  shows "stands config protocol addresses schedule record_from deadline (T @ U) start (after_turn w' t)"
proof -
  let ?turn = "open_turn config protocol addresses schedule record_from deadline"
  have "open_worker_run config protocol addresses schedule record_from deadline (new_open_worker ((T @ U) @ R)) start =
      (case t of Again st \<Rightarrow> iterate ?turn (put R (fst st), snd st) w' | Exit x \<Rightarrow> (Inr (put R x), w'))" for R
    using assms(1) [unfolded stands_def] assms(2) [of R]
      iterate_unfold [OF consumes_open, of config protocol addresses schedule record_from deadline "(put (U @ R) ow, socket)" w]
    by (simp add: op_then_def return_op_def split: turn.split)
  then show ?thesis by (cases t) (simp_all add: stands_def)
qed

definition pool_at ::
  "worker_config \<Rightarrow> protocol \<Rightarrow> 'addr list \<Rightarrow> rate \<Rightarrow> instant \<Rightarrow> instant \<Rightarrow> 'addr world list \<Rightarrow> 'addr pool \<Rightarrow> bool" where
  "pool_at config protocol addresses q record_from deadline threads st \<longleftrightarrow>
     (case st of (schedule, claims, pool) \<Rightarrow>
        schedule = (new_schedule q record_from)\<lparr>sch_next := of_nat (length claims)\<rparr> \<and>
        length pool = length threads \<and> (\<forall>i \<in> set claims. i < length threads) \<and>
        (\<forall>j < length threads. stands config protocol addresses (new_schedule q record_from) record_from deadline
           (tickets claims j) (threads ! j) (pool ! j)))"

lemma pool_at_step:
  assumes "pool_step config protocol addresses record_from deadline st st'"
    and "pool_at config protocol addresses q record_from deadline threads st"
  shows "pool_at config protocol addresses q record_from deadline threads st'"
  using assms
proof (cases rule: pool_step.cases)
  case (claiming i pool ow socket w schedule t w' claims)
  from claiming(1) assms(2) have at: "schedule = (new_schedule q record_from)\<lparr>sch_next := of_nat (length claims)\<rparr>"
    "length pool = length threads" "\<And>i. i \<in> set claims \<Longrightarrow> i < length threads"
    "\<And>j. j < length threads \<Longrightarrow> stands config protocol addresses (new_schedule q record_from) record_from deadline
       (tickets claims j) (threads ! j) (pool ! j)" by (auto simp: pool_at_def)
  from claiming(3) at(2) have i: "i < length threads" by simp
  have "stands config protocol addresses (new_schedule q record_from) record_from deadline
      (tickets claims i @ [of_nat (length claims)]) (threads ! i) (after_turn w' t)"
    using at(4) [OF i] claiming(4) at(1) pool_turn(1) [OF claiming(5,6)]
    by (intro stands_turn [where ow = ow and socket = socket and w = w]) (simp_all add: turn_next)
  with at i show ?thesis
    by (auto simp: claiming(2) pool_at_def claim_def tickets_snoc nth_list_update ac_simps)
next
  case (passing i pool ow socket w schedule t w' claims)
  from passing(1) assms(2) have at: "schedule = (new_schedule q record_from)\<lparr>sch_next := of_nat (length claims)\<rparr>"
    "length pool = length threads" "\<And>i. i \<in> set claims \<Longrightarrow> i < length threads"
    "\<And>j. j < length threads \<Longrightarrow> stands config protocol addresses (new_schedule q record_from) record_from deadline
       (tickets claims j) (threads ! j) (pool ! j)" by (auto simp: pool_at_def)
  from passing(3) at(2) have i: "i < length threads" by simp
  have "stands config protocol addresses (new_schedule q record_from) record_from deadline
      (tickets claims i @ []) (threads ! i) (after_turn w' t)"
    using at(4) [OF i] passing(4) at(1) pool_turn(2) [OF passing(5,6)]
    by (intro stands_turn [where ow = ow and socket = socket and w = w]) (simp_all add: turn_next)
  with at i show ?thesis
    by (auto simp: passing(2) pool_at_def nth_list_update)
qed

subsection \<open>Every run one after the other is an interleaving\<close>

definition tickets_after :: "nat list \<Rightarrow> nat \<Rightarrow> nat \<Rightarrow> u64 list" where
  "tickets_after claims m j = map of_nat (filter (\<lambda>n. claims ! n = j) [m..<length claims])"

lemma tickets_after_0: "tickets_after claims 0 j = tickets claims j"
  by (simp add: tickets_after_def tickets_def)

lemma tickets_after_next: "m < length claims \<Longrightarrow>
    tickets_after claims m j = (if claims ! m = j then [of_nat m] else []) @ tickets_after claims (Suc m) j"
  by (simp add: tickets_after_def upt_conv_Cons)

lemma tickets_after_end: "tickets_after claims (length claims) j = []"
  by (simp add: tickets_after_def)

text \<open>What is left to do of a run that is known to end with the worker \<open>final\<close>.\<close>

definition will_end ::
  "worker_config \<Rightarrow> protocol \<Rightarrow> 'addr list \<Rightarrow> schedule \<Rightarrow> instant \<Rightarrow> instant \<Rightarrow> u64 list \<Rightarrow> open_worker
    \<Rightarrow> 'addr pool_thread \<Rightarrow> bool" where
  "will_end config protocol addresses schedule record_from deadline T final th \<longleftrightarrow>
     (case th of
        Running (ow, socket) w \<Rightarrow>
          fst (iterate (open_turn config protocol addresses schedule record_from deadline) (put T ow, socket) w) = Inr final
      | Ended ow \<Rightarrow> ow_tickets ow = [] \<and> put T ow = final)"

primrec thread_work :: "'addr pool_thread \<Rightarrow> nat" where
  "thread_work (Running st w) = Suc (length (w_kernel w))"
| "thread_work (Ended ow) = 0"

lemma turn_works:
  assumes "open_turn config protocol addresses schedule record_from deadline (put T ow, socket) w = (Inr (retick R t), w')"
  shows "thread_work (after_turn w' t) < thread_work (Running (ow, socket) w)"
  using assms consumes_open [of config protocol addresses schedule record_from deadline]
  unfolding consumes_def by (cases t) fastforce+

lemma will_end_turn:
  assumes "will_end config protocol addresses schedule record_from deadline T final (Running (ow, socket) w)"
  obtains (passing) t w' where
      "open_turn config protocol addresses schedule record_from deadline (put [c] ow, socket) w = (Inr t, w')"
      "left_in t \<noteq> []" "thread_work (after_turn w' t) < thread_work (Running (ow, socket) w)"
      "will_end config protocol addresses schedule record_from deadline T final (after_turn w' t)"
  | (claiming) b T' t w' where "T = b # T'"
      "open_turn config protocol addresses schedule record_from deadline (put [b] ow, socket) w = (Inr t, w')"
      "left_in t = []" "thread_work (after_turn w' t) < thread_work (Running (ow, socket) w)"
      "will_end config protocol addresses schedule record_from deadline T' final (after_turn w' t)"
proof -
  let ?turn = "open_turn config protocol addresses schedule record_from deadline"
  have end_of: "will_end config protocol addresses schedule record_from deadline R final (after_turn w' t)"
    if "?turn (put T ow, socket) w = (Inr (retick R t), w')" for R t w'
    using assms(1) that unfolding will_end_def
    by (cases t) (simp_all add: iterate_unfold [OF consumes_open, of _ _ _ _ _ _ "(put T ow, socket)"] op_then_def return_op_def)
  have ends: "\<exists>x. fst (?turn (put T ow, socket) w) = Inr x"
    using assms(1) unfolding will_end_def
    by (auto simp: iterate_unfold [OF consumes_open, of _ _ _ _ _ _ "(put T ow, socket)"] op_then_def
        split: prod.splits sum.splits)
  show ?thesis
  proof (cases rule: turn_cases [of config protocol addresses schedule record_from deadline ow socket w])
    case (passes z)
    from ends passes [of T] obtain t w' where z: "z = (Inr t, w')"
      by (cases z; cases "fst z") (auto simp: retick_op_def)
    then have "?turn (put [c] ow, socket) w = (Inr (retick [c] t), w')" "?turn (put T ow, socket) w = (Inr (retick T t), w')"
      using passes [of T] passes [of "[c]"] by (simp_all add: retick_op_def)
    with turn_works [OF this(2)] end_of [OF this(2)] passing [of "retick [c] t" w'] show ?thesis by simp
  next
    case (claims e v)
    from ends claims(1) obtain b T' where T: "T = b # T'" by (cases T) auto
    from claims(2) [of b] obtain z where z: "\<And>R. ?turn (put (b # R) ow, socket) w = retick_op R z" by blast
    from ends z [of T'] T obtain t w' where z': "z = (Inr t, w')"
      by (cases z; cases "fst z") (auto simp: retick_op_def)
    then have "?turn (put [b] ow, socket) w = (Inr (retick [] t), w')" "?turn (put T ow, socket) w = (Inr (retick T' t), w')"
      using z [of T'] z [of "[]"] T by (simp_all add: retick_op_def)
    with turn_works [OF this(2)] end_of [OF this(2)] T claiming [of b T' "retick [] t" w'] show ?thesis by simp
  qed
qed

definition pool_remains ::
  "worker_config \<Rightarrow> protocol \<Rightarrow> 'addr list \<Rightarrow> schedule \<Rightarrow> instant \<Rightarrow> instant \<Rightarrow> nat list \<Rightarrow> nat
    \<Rightarrow> open_worker list \<Rightarrow> 'addr pool_thread list \<Rightarrow> bool" where
  "pool_remains config protocol addresses schedule record_from deadline claims m workers pool \<longleftrightarrow>
     m \<le> length claims \<and> length pool = length workers \<and>
     (\<forall>j < length workers. will_end config protocol addresses schedule record_from deadline
        (tickets_after claims m j) (workers ! j) (pool ! j))"

text \<open>Who may take the next step: the thread that is to make the next claim, if there is one.\<close>

lemma next_thread:
  assumes "pool_remains config protocol addresses schedule record_from deadline claims m workers pool"
    and "\<forall>i \<in> set claims. i < length workers" and "\<forall>ow \<in> set workers. ow_tickets ow = []"
  obtains (ended) "m = length claims" "pool = map Ended workers"
  | (running) i ow socket w where "i < length pool" "pool ! i = Running (ow, socket) w" "m < length claims \<Longrightarrow> claims ! m = i"
proof -
  have l: "length pool = length workers" "m \<le> length claims"
    and e: "\<And>j. j < length workers \<Longrightarrow> will_end config protocol addresses schedule record_from deadline
       (tickets_after claims m j) (workers ! j) (pool ! j)"
    using assms(1) by (auto simp: pool_remains_def)
  have ended: "pool ! j = Ended (workers ! j) \<and> tickets_after claims m j = []"
    if "pool ! j = Ended ow" "j < length workers" for j ow
  proof -
    have w: "ow_tickets ow = []" "put (tickets_after claims m j) ow = workers ! j"
      using e [OF that(2)] that(1) by (simp_all add: will_end_def)
    moreover have "ow_tickets (workers ! j) = []" using assms(3) that(2) by simp
    ultimately have "tickets_after claims m j = []" by (metis put_simps(2))
    with w that(1) put_same [of ow] show ?thesis by simp
  qed
  show ?thesis
  proof (cases "m < length claims")
    case True
    with assms(2) have i: "claims ! m < length workers" by simp
    with True ended have "pool ! (claims ! m) \<noteq> Ended ow" for ow
      using tickets_after_next [OF True, of "claims ! m"] by auto
    then obtain ow socket w where "pool ! (claims ! m) = Running (ow, socket) w"
      by (cases "pool ! (claims ! m)") auto
    with running i l(1) show ?thesis by auto
  next
    case False
    then have m: "m = length claims" using l(2) by simp
    show ?thesis
    proof (cases "\<forall>j < length pool. \<exists>ow. pool ! j = Ended ow")
      case True
      then have "pool = map Ended workers" using ended l(1) by (intro nth_equalityI) auto
      with m that(1) show ?thesis by blast
    next
      case False
      then obtain j where "j < length pool" "\<forall>ow. pool ! j \<noteq> Ended ow" by blast
      with m running show ?thesis by (cases "pool ! j") auto
    qed
  qed
qed

lemma work_decreases:
  assumes "i < length pool" and "thread_work th < thread_work (pool ! i)"
  shows "sum_list (map thread_work (pool[i := th])) < sum_list (map thread_work pool)"
  using assms elem_le_sum_list [of i "map thread_work pool"] by (simp add: map_update sum_list_update)

lemma pool_completes:
  assumes "pool_remains config protocol addresses s record_from deadline claims m workers pool"
    and "\<forall>i \<in> set claims. i < length workers" and "\<forall>ow \<in> set workers. ow_tickets ow = []"
  shows "(pool_step config protocol addresses record_from deadline)\<^sup>*\<^sup>*
    (s\<lparr>sch_next := of_nat m\<rparr>, take m claims, pool)
    (s\<lparr>sch_next := of_nat (length claims)\<rparr>, claims, map Ended workers)"
  using assms(1)
proof (induction "sum_list (map thread_work pool)" arbitrary: m pool rule: less_induct)
  case less
  have r: "m \<le> length claims" "length pool = length workers"
    and e: "\<And>j. j < length workers \<Longrightarrow> will_end config protocol addresses s record_from deadline
       (tickets_after claims m j) (workers ! j) (pool ! j)"
    using less.prems by (auto simp: pool_remains_def)
  from less.prems assms(2,3) show ?case
  proof (cases rule: next_thread)
    case ended
    then show ?thesis by simp
  next
    case (running i ow socket w)
    from running(1) r(2) have i: "i < length workers" by simp
    let ?s = "s\<lparr>sch_next := of_nat m\<rparr>"
    from e [OF i] have "will_end config protocol addresses s record_from deadline
        (tickets_after claims m i) (workers ! i) (Running (ow, socket) w)" by (simp add: running(2))
    then show ?thesis
    proof (cases rule: will_end_turn [where c = "of_nat m"])
      case (passing t w')
      have "pool_step config protocol addresses record_from deadline (?s, take m claims, pool)
          (?s, take m claims, pool[i := after_turn w' t])"
        using running(1,2) passing(1,2) by (intro pool_step.passing) (simp_all add: turn_next)
      moreover have "pool_remains config protocol addresses s record_from deadline claims m workers
          (pool[i := after_turn w' t])"
        using r e i passing(4) by (simp add: pool_remains_def nth_list_update)
      moreover have "sum_list (map thread_work (pool[i := after_turn w' t])) < sum_list (map thread_work pool)"
        using running(1,2) passing(3) by (intro work_decreases) simp_all
      ultimately show ?thesis using less.hyps by (meson converse_rtranclp_into_rtranclp)
    next
      case (claiming b T' t w')
      have m: "m < length claims"
        using claiming(1) r(1) tickets_after_end [of claims] by (cases "m = length claims") auto
      with running(3) have c: "claims ! m = i" by blast
      with claiming(1) tickets_after_next [OF m] have b: "b = of_nat m" and T': "T' = tickets_after claims (Suc m) i"
        by simp_all
      have "pool_step config protocol addresses record_from deadline (?s, take m claims, pool)
          (snd (claim ?s), take m claims @ [i], pool[i := after_turn w' t])"
        using running(1,2) claiming(2,3) b by (intro pool_step.claiming) (simp_all add: turn_next)
      moreover have "snd (claim ?s) = s\<lparr>sch_next := of_nat (Suc m)\<rparr>" by (simp add: claim_def ac_simps)
      moreover have "take m claims @ [i] = take (Suc m) claims" using m c by (simp add: take_Suc_conv_app_nth)
      ultimately have "pool_step config protocol addresses record_from deadline (?s, take m claims, pool)
          (s\<lparr>sch_next := of_nat (Suc m)\<rparr>, take (Suc m) claims, pool[i := after_turn w' t])" by simp
      moreover have "pool_remains config protocol addresses s record_from deadline claims (Suc m) workers
          (pool[i := after_turn w' t])"
      proof -
        have "tickets_after claims (Suc m) j = tickets_after claims m j" if "j \<noteq> i" for j
          using that c tickets_after_next [OF m] by simp
        with r e i claiming(5) T' m show ?thesis by (simp add: pool_remains_def nth_list_update)
      qed
      moreover have "sum_list (map thread_work (pool[i := after_turn w' t])) < sum_list (map thread_work pool)"
        using running(1,2) claiming(4) by (intro work_decreases) simp_all
      ultimately show ?thesis using less.hyps by (meson converse_rtranclp_into_rtranclp)
    qed
  qed
qed

subsection \<open>Interleavings are the lists of claims\<close>

lemma pool_reaches:
  assumes "(pool_step config protocol addresses record_from deadline)\<^sup>*\<^sup>* (pool_start q record_from threads) st"
  shows "pool_at config protocol addresses q record_from deadline threads st"
  using assms
proof induction
  case base
  have "tickets [] j = []" for j by (simp add: tickets_def)
  then show ?case by (simp add: pool_at_def pool_start_def new_schedule_def stands_start)
next
  case (step st st')
  show ?case by (rule pool_at_step [OF step(2,3)])
qed

lemma open_drive_Inr:
  "open_drive config protocol addresses schedule record_from deadline claims threads = Inr workers \<longleftrightarrow>
    length workers = length threads \<and> (\<forall>j < length threads.
      fst (open_worker_run config protocol addresses schedule record_from deadline
        (new_open_worker (tickets claims j)) (threads ! j)) = Inr (workers ! j))"
  unfolding open_drive_def join_all_Inr list_eq_iff_nth_eq [of _ "map Inr workers"]
  by (auto simp: nth_enumerate_eq split_beta)

lemma claim_all_new:
  "snd (claim_all (new_schedule q start) claims) = (new_schedule q start)\<lparr>sch_next := of_nat (length claims)\<rparr>"
  by (simp add: claim_all_eq new_schedule_def)

lemma pool_ended:
  assumes "pool_at config protocol addresses q record_from deadline threads (schedule, claims, map Ended workers)"
  shows "open_drive config protocol addresses (new_schedule q record_from) record_from deadline claims threads = Inr workers \<and>
    list_all (\<lambda>i. i < length threads) claims \<and> list_all (\<lambda>ow. ow_tickets ow = []) workers \<and>
    schedule = snd (claim_all (new_schedule q record_from) claims)"
proof (intro conjI)
  let ?s = "new_schedule q record_from"
  from assms have at: "schedule = ?s\<lparr>sch_next := of_nat (length claims)\<rparr>"
    "length workers = length threads" "\<forall>i \<in> set claims. i < length threads"
    and e: "\<And>j. j < length threads \<Longrightarrow>
      stands config protocol addresses ?s record_from deadline (tickets claims j) (threads ! j) (Ended (workers ! j))"
    by (auto simp: pool_at_def)
  from at show "schedule = snd (claim_all ?s claims)" "list_all (\<lambda>i. i < length threads) claims"
    by (simp_all add: list_all_iff claim_all_new)
  from e at(2) show "list_all (\<lambda>ow. ow_tickets ow = []) workers"
    by (auto simp: list_all_length stands_def)
  have "fst (open_worker_run config protocol addresses ?s record_from deadline
      (new_open_worker (tickets claims j)) (threads ! j)) = Inr (workers ! j)" if "j < length threads" for j
  proof -
    from e [OF that] have s: "ow_tickets (workers ! j) = [] \<and> (\<forall>R.
        fst (open_worker_run config protocol addresses ?s record_from deadline
          (new_open_worker (tickets claims j @ R)) (threads ! j)) = Inr (put R (workers ! j)))"
      unfolding stands_def pool_thread.case .
    from s have "put [] (workers ! j) = workers ! j" using put_same [of "workers ! j"] by simp
    with s [THEN conjunct2, THEN spec, of "[]"] show ?thesis by simp
  qed
  with at(2) show "open_drive config protocol addresses ?s record_from deadline claims threads = Inr workers"
    by (simp add: open_drive_Inr)
qed

text \<open>C2: The threads of an open-loop run may be taken one after the other. An interleaving of their turns, each
  claiming from the one counter all share, ends with these workers, this schedule and this order of claims exactly
  when every worker run by itself, given the indices of its own claims, ends as it did, with all of
  them used, and the counter is where that many claims leave it. The loop of \<open>run_open_loop\<close>
  over \<open>os_claims\<close> leaves out no interleaving and adds none.\<close>

theorem interleavings_are_claims:
  "(pool_step config protocol addresses record_from deadline)\<^sup>*\<^sup>* (pool_start q record_from threads)
      (schedule, claims, map Ended workers) \<longleftrightarrow>
    open_drive config protocol addresses (new_schedule q record_from) record_from deadline claims threads = Inr workers \<and>
    list_all (\<lambda>i. i < length threads) claims \<and> list_all (\<lambda>ow. ow_tickets ow = []) workers \<and>
    schedule = snd (claim_all (new_schedule q record_from) claims)"
    (is "_ \<longleftrightarrow> ?drive \<and> _ \<and> _ \<and> ?counter")
proof
  assume "(pool_step config protocol addresses record_from deadline)\<^sup>*\<^sup>* (pool_start q record_from threads)
    (schedule, claims, map Ended workers)"
  then show "?drive \<and> list_all (\<lambda>i. i < length threads) claims \<and> list_all (\<lambda>ow. ow_tickets ow = []) workers \<and> ?counter"
    by (rule pool_ended [OF pool_reaches])
next
  let ?s = "new_schedule q record_from"
  assume "?drive \<and> list_all (\<lambda>i. i < length threads) claims \<and> list_all (\<lambda>ow. ow_tickets ow = []) workers \<and> ?counter"
  then have *: ?drive "\<forall>i \<in> set claims. i < length threads" "\<forall>ow \<in> set workers. ow_tickets ow = []" ?counter
    by (simp_all add: list_all_iff)
  from *(1) have l: "length workers = length threads" by (simp add: open_drive_Inr)
  have "?s\<lparr>sch_next := of_nat 0\<rparr> = ?s" by (simp add: new_schedule_def)
  moreover have "pool_remains config protocol addresses ?s record_from deadline claims 0 workers
      (map (Running (new_open_worker [], None)) threads)"
    using *(1) by (simp add: pool_remains_def open_drive_Inr will_end_def tickets_after_0 open_worker_run_def)
  ultimately show "(pool_step config protocol addresses record_from deadline)\<^sup>*\<^sup>* (pool_start q record_from threads)
      (schedule, claims, map Ended workers)"
    using pool_completes [of config protocol addresses ?s record_from deadline claims 0 workers] * l
    by (simp add: pool_start_def claim_all_new)
qed

theorem interleavings_are_claims_witness:
  "(pool_step default_worker_config (raw_echo ''ab'') [''::1''] 0 1000000)\<^sup>*\<^sup>*
     (pool_start \<lparr>rps = Fin 7\<rparr> 0 [brisk_world echo_script]) (seven\<lparr>sch_next := 1\<rparr>, [0], map Ended [echo_open_worker])"
  unfolding interleavings_are_claims
  using echo_open_drive [of "''::1''"] by (simp add: seven_def claim_def echo_open_worker_def new_schedule_def)

end
