(* ===== verification/Knob_Threads.thy ===== *)
theory Knob_Threads
  imports Knobs
begin

text \<open>
  The setters of \<open>src/fault/knobs.cpp\<close> called from several threads at once, such as the acceptor of a control
  socket and the code of the service. The state is the knobs and, for every thread, its register and the atomic
  actions its call has still to perform; a step is the start of a call or one action of one thread, so the
  reachable states are those of every interleaving. Invariants are proved by induction on the steps.
\<close>

text \<open>The actions of an accepted call.\<close>

fun set_steps :: "setter \<Rightarrow> step list result" where
  "set_steps (Latency mean jitter) =
     (if mean < 0 \<or> jitter < 0
      then Inl (UsageError ''injected latency and jitter must not be negative'')
      else if mean < jitter then Inl (UsageError ''injected jitter must not exceed the mean'')
      else and_then (nanos_of_millis mean) (\<lambda>m. and_then (nanos_of_millis jitter) (\<lambda>j.
        Inr ([Store_Latency m, Store_Jitter j] @ refresh_gate))))"
| "set_steps (Drop p) =
     (if \<not> (d_le (Fin 0) p \<and> d_le p (Fin 1))
      then Inl (UsageError ''drop probability must be between 0 and 1'')
      else and_then (ppm_of p) (\<lambda>ppm. Inr (Store_Drop ppm # refresh_gate)))"
| "set_steps (Hang b) = Inr (Store_Hanging b # refresh_gate)"
| "set_steps (Identity name) = Inr [Store_Identity name]"
| "set_steps (Partition a b) =
     (if a = [] \<or> b = [] then Inl (UsageError ''a partition needs two node names'')
      else if a = b then Inl (UsageError ''cannot partition a node from itself'')
      else Inr (Insert_Cut (ordered a b) # refresh_gate))"
| "set_steps (Heal a b) = Inr (Erase_Cut (ordered a b) # refresh_gate)"
| "set_steps Clear = Inr clear_steps"

lemma code_set_steps:
  "code_set x k = (case set_steps x of Inl e \<Rightarrow> (Inl e, k) | Inr steps \<Rightarrow> perform steps k)"
proof (cases x)
  case (Latency mean jitter)
  then show ?thesis
    by (cases "nanos_of_millis mean"; cases "nanos_of_millis jitter")
      (simp_all add: set_latency_def k_then_def k_lift_def k_throw_def)
next
  case (Drop p)
  then show ?thesis
    by (cases "ppm_of p") (simp_all add: set_drop_probability_def k_then_def k_lift_def k_throw_def)
qed (simp_all add: set_hang_forever_def set_identity_def partition_nodes_def heal_def clear_def k_throw_def)

type_synonym caller = "bool \<times> step list"

abbreviation returned :: caller where
  "returned \<equiv> (False, [])"

inductive knob_step :: "(setter \<Rightarrow> bool) \<Rightarrow> knobs \<times> caller list \<Rightarrow> knobs \<times> caller list \<Rightarrow> bool" for allowed where
  calls: "knob_step allowed (k, ts) (k, ts[i := (False, steps)])"
    if "i < length ts" and "snd (ts ! i) = []" and "allowed x" and "set_steps x = Inr steps"
| acts: "knob_step allowed (k, ts) (fst (exec (k, r) s), ts[i := (snd (exec (k, r) s), rest)])"
    if "i < length ts" and "ts ! i = (r, s # rest)"

abbreviation anything :: "setter \<Rightarrow> bool" where
  "anything \<equiv> (\<lambda>_. True)"

definition all_returned :: "caller list \<Rightarrow> bool" where
  "all_returned ts \<longleftrightarrow> list_all (\<lambda>t. snd t = []) ts"

text \<open>A call that nothing interrupts is the setter of \<open>Knobs\<close>.\<close>

lemma acts_prefix:
  assumes "i < length ts" and "ts ! i = (r, steps @ rest)"
  shows "(knob_step allowed)\<^sup>*\<^sup>* (k, ts)
    (fst (foldl exec (k, r) steps), ts[i := (snd (foldl exec (k, r) steps), rest)])"
  using assms
proof (induction steps arbitrary: k r ts)
  case Nil
  then show ?case by (metis append_Nil foldl_Nil fst_conv list_update_id rtranclp.rtrancl_refl snd_conv)
next
  case (Cons s steps)
  obtain k' r' where e: "exec (k, r) s = (k', r')" by fastforce
  have "knob_step allowed (k, ts) (k', ts[i := (r', steps @ rest)])"
    using knob_step.acts [of i ts r s "steps @ rest" allowed k] Cons.prems by (simp add: e)
  moreover have "(knob_step allowed)\<^sup>*\<^sup>* (k', ts[i := (r', steps @ rest)])
      (fst (foldl exec (k', r') steps), ts[i := (snd (foldl exec (k', r') steps), rest)])"
    using Cons.IH [of "ts[i := (r', steps @ rest)]" r' k'] Cons.prems(1) by simp
  ultimately show ?case by (simp add: e converse_rtranclp_into_rtranclp)
qed

lemmas acts_all = acts_prefix [where rest = "[]", simplified]

lemma call_alone:
  assumes "i < length ts" and "snd (ts ! i) = []" and "allowed x" and "code_set x k = (Inr u, k')"
  shows "\<exists>r. (knob_step allowed)\<^sup>*\<^sup>* (k, ts) (k', ts[i := (r, [])])"
proof -
  from assms(4) obtain steps where s: "set_steps x = Inr steps" "k' = fst (foldl exec (k, False) steps)"
    by (auto simp: code_set_steps perform_def split: sum.splits)
  from knob_step.calls [of i ts allowed x steps k, OF assms(1-3) s(1)] acts_all [of i "ts[i := (False, steps)]" False steps allowed k] assms(1)
  have "(knob_step allowed)\<^sup>*\<^sup>* (k, ts) (k', ts[i := (snd (foldl exec (k, False) steps), [])])"
    by (simp add: s(2) converse_rtranclp_into_rtranclp)
  then show ?thesis by blast
qed

subsection \<open>What no interleaving breaks\<close>

fun in_range :: "step \<Rightarrow> bool" where
  "in_range (Store_Latency v) = (0 \<le> v \<and> v < 2 ^ 63)"
| "in_range (Store_Jitter v) = (0 \<le> v \<and> v < 2 ^ 63)"
| "in_range (Store_Drop v) = (0 \<le> v \<and> v \<le> 1000000)"
| "in_range (Insert_Cut (a, b)) = string_less a b"
| "in_range _ = True"

definition ranges :: "knobs \<Rightarrow> bool" where
  "ranges k \<longleftrightarrow>
     0 \<le> g_latency_ns k \<and> g_latency_ns k < 2 ^ 63 \<and> 0 \<le> g_jitter_ns k \<and> g_jitter_ns k < 2 ^ 63 \<and>
     0 \<le> g_drop_ppm k \<and> g_drop_ppm k \<le> 1000000 \<and>
     g_any_partition k = (g_partitions k \<noteq> {}) \<and> (\<forall>(a, b) \<in> g_partitions k. string_less a b)"

lemma ranges_exec: "ranges k \<Longrightarrow> in_range s \<Longrightarrow> ranges (fst (exec (k, r) s))"
  by (cases s) (auto simp: ranges_def Let_def)

lemma ranges_ok: "knobs_ok k \<Longrightarrow> ranges k"
  by (auto simp: knobs_ok_def ranges_def)

lemma set_steps_range: "set_steps x = Inr steps \<Longrightarrow> \<forall>s \<in> set steps. in_range s"
proof (cases x)
  case (Drop p)
  assume *: "set_steps x = Inr steps"
  with Drop obtain q where q: "p = Fin q" "0 \<le> q" "q \<le> 1" by (cases p) (auto split: if_splits)
  from ppm_of_bounds [OF q(2,3)] * show ?thesis
    by (auto simp: Drop q refresh_gate_def and_then_Inr_iff)
next
  case (Partition a b)
  assume *: "set_steps x = Inr steps"
  obtain u v where "ordered a b = (u, v)" by fastforce
  with * show ?thesis using ordered_less [of a b u v] by (auto simp: Partition refresh_gate_def split: if_splits)
qed (auto simp: refresh_gate_def clear_steps_def nanos_of_millis_def and_then_Inr_iff int64_ok_def split: if_splits)

definition all_in_range :: "knobs \<times> caller list \<Rightarrow> bool" where
  "all_in_range st \<longleftrightarrow> ranges (fst st) \<and> (\<forall>t \<in> set (snd st). \<forall>s \<in> set (snd t). in_range s)"

lemma in_range_step: "knob_step allowed st st' \<Longrightarrow> all_in_range st \<Longrightarrow> all_in_range st'"
proof (induction rule: knob_step.induct)
  case (calls i ts x steps k)
  with set_steps_range [OF calls(4)] show ?case
    by (auto simp: all_in_range_def dest!: set_update_subset_insert [THEN subsetD])
next
  case (acts i ts r s rest k)
  then have "(r, s # rest) \<in> set ts" by (metis nth_mem)
  with acts.prems have "in_range s" "\<forall>s \<in> set rest. in_range s" by (auto simp: all_in_range_def)
  with acts.prems show ?case
    by (auto simp: all_in_range_def ranges_exec dest!: set_update_subset_insert [THEN subsetD])
qed

lemma in_range_reachable:
  assumes "(knob_step allowed)\<^sup>*\<^sup>* (k0, replicate n returned) st" and "knobs_ok k0"
  shows "all_in_range st"
  using assms(1)
proof induction
  case base
  from ranges_ok [OF assms(2)] show ?case by (simp add: all_in_range_def)
next
  case (step st st')
  show ?case by (rule in_range_step [OF step(2,3)])
qed

lemma ranges_cut: "ranges k \<Longrightarrow> blocked k peer \<Longrightarrow> spec_blocked (faults_of k) peer"
  using cut_iff [of "g_partitions k" "g_identity k" peer]
  by (auto simp: ranges_def blocked_def spec_blocked_def faults_of_def split: if_splits)

lemma waits_positive: "injected_wait k draw = Inr waits \<Longrightarrow> list_all (\<lambda>d. 0 < d) waits"
  by (auto simp: injected_wait_def Let_def split: if_splits)

lemma set_steps_refresh:
  "set_steps x = Inr steps \<Longrightarrow> \<forall>name. x \<noteq> Identity name \<Longrightarrow> \<exists>stores. steps = stores @ refresh_gate"
  by (cases x) (auto simp: and_then_Inr_iff clear_steps_def split: if_splits
      intro: exI [of _ "[s]" for s] exI [of _ "[s, t]" for s t])

lemma refresh_rights:
  assumes "ranges k"
  shows "g_any (fst (foldl exec (k, r) refresh_gate)) = spec_active (faults_of (fst (foldl exec (k, r) refresh_gate)))"
  using assms by (auto simp: refresh_gate_def spec_active_def faults_of_def ranges_def)

lemma ranges_steps: "ranges k \<Longrightarrow> \<forall>s \<in> set steps. in_range s \<Longrightarrow> ranges (fst (foldl exec (k, r) steps))"
proof (induction steps arbitrary: k r)
  case (Cons s steps)
  then show ?case using Cons.IH [of "fst (exec (k, r) s)" "snd (exec (k, r) s)"] ranges_exec by simp
qed simp

lemma call_rights_gate:
  assumes "ranges k" and "code_set x k = (Inr u, k')" and "\<forall>name. x \<noteq> Identity name"
  shows "g_any k' = spec_active (faults_of k')"
proof -
  from assms(2) obtain steps where s: "set_steps x = Inr steps" and k': "k' = fst (foldl exec (k, False) steps)"
    by (auto simp: code_set_steps perform_def split: sum.splits)
  from set_steps_refresh [OF s assms(3)] obtain stores where st: "steps = stores @ refresh_gate" by blast
  let ?m = "foldl exec (k, False) stores"
  have "ranges (fst ?m)"
    using set_steps_range [OF s] assms(1) by (intro ranges_steps) (simp_all add: st)
  from refresh_rights [OF this, of "snd ?m"] show ?thesis by (simp add: k' st)
qed

text \<open>C17: No interleaving of setters invents a fault. At every moment of any number of threads calling any setters,
  what the knobs hold is in range, the cuts are ordered pairs of different names and their flag is exact; a
  target is told that a peer is blocked only if that cut is set, to drop only below the stored rate, and it
  is never made to sleep for a time that is not positive. What overlapping calls can break is the gate and the pairing of
  mean and jitter; and the next accepted setter of a fault that runs alone makes the gate right again.\<close>

theorem setters_at_once:
  assumes "(knob_step anything)\<^sup>*\<^sup>* (k0, replicate n returned) (k, ts)" and "knobs_ok k0"
  shows "ranges k \<and> (blocked k peer \<longrightarrow> spec_blocked (faults_of k) peer) \<and>
    (should_drop k draw \<longrightarrow> draw < f_ppm (faults_of k)) \<and>
    (injected_wait k draw = Inr waits \<longrightarrow> list_all (\<lambda>d. 0 < d) waits) \<and>
    (code_set x k = (Inr (), k') \<and> (\<forall>name. x \<noteq> Identity name) \<longrightarrow> g_any k' = spec_active (faults_of k'))"
proof -
  from in_range_reachable [OF assms] have "ranges k" by (simp add: all_in_range_def)
  moreover have "should_drop k draw \<longrightarrow> draw < f_ppm (faults_of k)"
    by (simp add: should_drop_def faults_of_def)
  ultimately show ?thesis using ranges_cut waits_positive call_rights_gate by blast
qed

theorem setters_at_once_witness:
  "ranges (initial_knobs\<lparr>g_latency_ns := 5000000\<rparr>) \<and>
    g_any (snd (code_set (Hang False) (initial_knobs\<lparr>g_latency_ns := 5000000\<rparr>)))"
proof -
  let ?k = "initial_knobs\<lparr>g_latency_ns := 5000000\<rparr>" and ?steps = "[Store_Latency 5000000, Store_Jitter 0] @ refresh_gate"
  have "set_steps (Latency 5 0) = Inr ?steps" by (simp add: nanos_of_millis_def int64_ok_def)
  then have "(knob_step anything)\<^sup>*\<^sup>* (initial_knobs, replicate 1 returned)
      (initial_knobs, [(False, Store_Latency 5000000 # Store_Jitter 0 # refresh_gate)])"
    using knob_step.calls [of 0 "[returned]" anything "Latency 5 0" ?steps initial_knobs] by auto
  also have "knob_step anything (initial_knobs, [(False, Store_Latency 5000000 # Store_Jitter 0 # refresh_gate)])
      (?k, [(False, Store_Jitter 0 # refresh_gate)])"
    using knob_step.acts [of 0 "[(False, Store_Latency 5000000 # Store_Jitter 0 # refresh_gate)]" False
      "Store_Latency 5000000" "Store_Jitter 0 # refresh_gate" anything initial_knobs] by simp
  finally have run: "(knob_step anything)\<^sup>*\<^sup>* (initial_knobs, replicate 1 returned)
      (?k, [(False, Store_Jitter 0 # refresh_gate)])" .
  have "code_set (Hang False) ?k = (Inr (), snd (code_set (Hang False) ?k))"
    by (simp add: set_hang_forever_def perform_def)
  moreover have "spec_active (faults_of (snd (code_set (Hang False) ?k)))"
    by (simp add: set_hang_forever_def perform_def refresh_gate_def spec_active_def faults_of_def)
  ultimately show ?thesis
    using setters_at_once [OF run knobs_ok_initial, of "[]" 0 "[]" "Hang False" "snd (code_set (Hang False) ?k)"]
    by simp
qed

subsection \<open>What overlapping calls can break\<close>

lemma overlapped:
  assumes "set_steps x = Inr (before @ rest)" and "set_steps y = Inr steps"
    and "foldl exec (k, False) before = (k1, r1)" and "foldl exec (k1, False) steps = (k2, r2)"
    and "foldl exec (k2, r1) rest = (k3, r3)"
  shows "(knob_step anything)\<^sup>*\<^sup>* (k, [returned, returned]) (k3, [(r3, []), (r2, [])])"
proof -
  have "knob_step anything (k, [returned, returned]) (k, [(False, before @ rest), returned])"
    using knob_step.calls [of 0 "[returned, returned]" anything x "before @ rest" k] assms(1) by simp
  also have "(knob_step anything)\<^sup>*\<^sup>* (k, [(False, before @ rest), returned]) (k1, [(r1, rest), returned])"
    using acts_prefix [of 0 "[(False, before @ rest), returned]" False before rest anything k] assms(3) by simp
  also have "knob_step anything (k1, [(r1, rest), returned]) (k1, [(r1, rest), (False, steps)])"
    using knob_step.calls [of 1 "[(r1, rest), returned]" anything y steps k1] assms(2) by simp
  also have "(knob_step anything)\<^sup>*\<^sup>* (k1, [(r1, rest), (False, steps)]) (k2, [(r1, rest), (r2, [])])"
    using acts_all [of 1 "[(r1, rest), (False, steps)]" False steps anything k1] assms(4) by simp
  also have "(knob_step anything)\<^sup>*\<^sup>* (k2, [(r1, rest), (r2, [])]) (k3, [(r3, []), (r2, [])])"
    using acts_all [of 0 "[(r1, rest), (r2, [])]" r1 rest anything k2] assms(5) by simp
  finally show ?thesis by simp
qed

text \<open>C40: Two setters at once can lose a fault or mix two. The stores are atomic, but \<open>refresh_gate\<close> is a computation over
  four loads followed by a store: when \<open>set_hang_forever(true)\<close> runs between the loads and the
  store of a concurrent \<open>clear()\<close>, both calls return and the hang is set, but the gate is off, so
  \<open>before_response\<close> never hangs and \<open>status\<close> reports no faults. And \<open>set_latency\<close> stores the mean
  and the jitter one after the other: of two accepted calls the mean of one and the jitter of the other can stay,
  a jitter above the mean, which each call by itself refuses.\<close>

theorem overlapping_setters:
  "(\<exists>k ts. (knob_step anything)\<^sup>*\<^sup>* (initial_knobs, [returned, returned]) (k, ts) \<and> all_returned ts \<and>
     g_hanging k \<and> \<not> any_enabled k \<and> (\<forall>draw loads. before_response k draw loads = Inr [])) \<and>
   (\<exists>k ts. (knob_step anything)\<^sup>*\<^sup>* (initial_knobs, [returned, returned]) (k, ts) \<and> all_returned ts \<and>
     g_latency_ns k = 1000000 \<and> g_jitter_ns k = 10000000)"
proof (intro conjI)
  have "(knob_step anything)\<^sup>*\<^sup>* (initial_knobs, [returned, returned])
      (initial_knobs\<lparr>g_hanging := True\<rparr>, [(False, []), (True, [])])"
    by (rule overlapped [of Clear "butlast clear_steps" "[Store_Gate]" "Hang True" "Store_Hanging True # refresh_gate" initial_knobs
        initial_knobs False "initial_knobs\<lparr>g_hanging := True, g_any := True\<rparr>" True])
      (simp_all add: clear_steps_def refresh_gate_def initial_knobs_def)
  then show "\<exists>k ts. (knob_step anything)\<^sup>*\<^sup>* (initial_knobs, [returned, returned]) (k, ts) \<and> all_returned ts \<and>
     g_hanging k \<and> \<not> any_enabled k \<and> (\<forall>draw loads. before_response k draw loads = Inr [])"
    by (intro exI conjI) (auto simp: all_returned_def any_enabled_def before_response_def initial_knobs_def)
  have "(knob_step anything)\<^sup>*\<^sup>* (initial_knobs, [returned, returned])
      (initial_knobs\<lparr>g_latency_ns := 1000000, g_jitter_ns := 10000000, g_any := True\<rparr>, [(True, []), (True, [])])"
    by (rule overlapped [of "Latency 10 10" "[Store_Latency 10000000]" "Store_Jitter 10000000 # refresh_gate" "Latency 1 0"
        "[Store_Latency 1000000, Store_Jitter 0] @ refresh_gate" initial_knobs "initial_knobs\<lparr>g_latency_ns := 10000000\<rparr>" False
        "initial_knobs\<lparr>g_latency_ns := 1000000, g_any := True\<rparr>" True])
      (simp_all add: nanos_of_millis_def int64_ok_def refresh_gate_def initial_knobs_def)
  then show "\<exists>k ts. (knob_step anything)\<^sup>*\<^sup>* (initial_knobs, [returned, returned]) (k, ts) \<and> all_returned ts \<and>
     g_latency_ns k = 1000000 \<and> g_jitter_ns k = 10000000"
    by (intro exI conjI) (auto simp: all_returned_def)
qed

subsection \<open>What is only switched on stays on\<close>

fun raises :: "setter \<Rightarrow> bool" where
  "raises (Latency mean jitter) = (mean \<noteq> 0)"
| "raises (Drop p) = (ppm_of p \<noteq> Inr 0)"
| "raises (Hang b) = b"
| "raises (Identity name) = True"
| "raises (Partition a b) = True"
| "raises _ = False"

fun raising :: "step \<Rightarrow> bool" where
  "raising (Store_Latency v) = (v \<noteq> 0)"
| "raising (Store_Drop v) = (v \<noteq> 0)"
| "raising (Store_Hanging b) = b"
| "raising (Erase_Cut p) = False"
| "raising Clear_Cuts = False"
| "raising _ = True"

definition on :: "knobs \<Rightarrow> bool" where
  "on k \<longleftrightarrow> g_latency_ns k \<noteq> 0 \<or> g_drop_ppm k \<noteq> 0 \<or> g_hanging k \<or> g_any_partition k"

definition risen :: "knobs \<Rightarrow> knobs \<Rightarrow> bool" where
  "risen k k' \<longleftrightarrow> (g_latency_ns k \<noteq> 0 \<longrightarrow> g_latency_ns k' \<noteq> 0) \<and> (g_drop_ppm k \<noteq> 0 \<longrightarrow> g_drop_ppm k' \<noteq> 0) \<and>
     (g_hanging k \<longrightarrow> g_hanging k') \<and> (g_any_partition k \<longrightarrow> g_any_partition k')"

lemma risen_exec: "raising s \<Longrightarrow> risen k (fst (exec (k, r) s))"
  by (cases s) (simp_all add: risen_def)

lemma on_risen: "risen k k' \<Longrightarrow> on k \<Longrightarrow> on k'"
  by (auto simp: risen_def on_def)

lemma exec_risen:
  assumes "raising s" and "risen k k'" and "r \<longrightarrow> r'"
  shows "risen (fst (exec (k, r) s)) (fst (exec (k', r') s)) \<and> (snd (exec (k, r) s) \<longrightarrow> snd (exec (k', r') s))"
  using assms by (cases s) (auto simp: risen_def)

lemma register_risen:
  assumes "\<forall>s \<in> set steps. raising s" and "risen k k'" and "r \<longrightarrow> r'"
  shows "snd (foldl exec (k, r) steps) \<longrightarrow> snd (foldl exec (k', r') steps)"
  using assms
proof (induction steps arbitrary: k k' r r')
  case (Cons s steps)
  obtain l q l' q' where e: "exec (k, r) s = (l, q)" "exec (k', r') s = (l', q')" by (meson surj_pair)
  from exec_risen [of s k k' r r'] Cons.prems e have "risen l l' \<and> (q \<longrightarrow> q')" by simp
  with Cons.IH [of l l' q q'] Cons.prems(1) show ?case by (simp add: e)
qed simp

text \<open>A call in progress: it will end by storing a gate that is on, whatever others do; or it cannot touch the gate.\<close>

definition will_raise :: "knobs \<Rightarrow> caller \<Rightarrow> bool" where
  "will_raise k t \<longleftrightarrow> (\<forall>s \<in> set (snd t). raising s) \<and> (fst t \<longrightarrow> on k) \<and>
     (Store_Gate \<in> set (snd t) \<longrightarrow> (\<exists>stores. snd t = stores @ [Store_Gate] \<and> Store_Gate \<notin> set stores) \<and>
        snd (foldl exec (k, fst t) (snd t))) \<and>
     (Store_Gate \<notin> set (snd t) \<longrightarrow> (\<forall>s \<in> set (snd t). \<exists>name. s = Store_Identity name))"

lemma set_steps_raise: "raises x \<Longrightarrow> set_steps x = Inr steps \<Longrightarrow> will_raise k (False, steps)"
  by (cases x) (auto simp: will_raise_def and_then_Inr_iff refresh_gate_def nanos_of_millis_def split: if_splits
      intro!: exI [of _ "butlast steps"])

lemma will_raise_risen: "will_raise k t \<Longrightarrow> risen k k' \<Longrightarrow> will_raise k' t"
  using register_risen [of "snd t" k k' "fst t" "fst t"] on_risen [of k k'] by (auto simp: will_raise_def)

lemma exec_on: "raising s \<Longrightarrow> r \<longrightarrow> on k \<Longrightarrow> snd (exec (k, r) s) \<longrightarrow> on (fst (exec (k, r) s))"
  by (cases s) (auto simp: on_def)

lemma exec_gate: "s \<noteq> Store_Gate \<Longrightarrow> g_any (fst (exec (k, r) s)) = g_any k"
  by (cases s) (simp_all add: Let_def)

lemma will_raise_gate:
  "will_raise k (r, steps) \<Longrightarrow> Store_Gate \<in> set steps \<Longrightarrow>
    \<exists>stores. steps = stores @ [Store_Gate] \<and> Store_Gate \<notin> set stores \<and> snd (foldl exec (k, r) steps)"
  by (auto simp only: will_raise_def fst_conv snd_conv)

lemma will_raise_act:
  assumes "will_raise k (r, s # rest)"
  shows "will_raise (fst (exec (k, r) s)) (snd (exec (k, r) s), rest)"
proof -
  have s: "raising s" "\<forall>s \<in> set rest. raising s" "r \<longrightarrow> on k" using assms by (simp_all add: will_raise_def)
  show ?thesis
  proof (cases "Store_Gate \<in> set (s # rest)")
    case True
    from will_raise_gate [OF assms True] obtain stores where
      st: "s # rest = stores @ [Store_Gate]" "Store_Gate \<notin> set stores" and v: "snd (foldl exec (k, r) (s # rest))" by blast
    show ?thesis
    proof (cases stores)
      case Nil
      with st exec_on [OF s(1,3)] show ?thesis by (simp add: will_raise_def)
    next
      case (Cons t stores')
      with st have "rest = stores' @ [Store_Gate]" "Store_Gate \<notin> set stores'" by simp_all
      with s(2) v exec_on [OF s(1,3)] show ?thesis by (auto simp: will_raise_def)
    qed
  next
    case False
    with assms exec_on [OF s(1,3)] show ?thesis by (auto simp: will_raise_def)
  qed
qed

definition rising :: "knobs \<times> caller list \<Rightarrow> bool" where
  "rising st \<longleftrightarrow> (\<forall>t \<in> set (snd st). will_raise (fst st) t) \<and> (g_any (fst st) \<longrightarrow> on (fst st)) \<and>
     (on (fst st) \<longrightarrow> g_any (fst st) \<or> (\<exists>j < length (snd st). Store_Gate \<in> set (snd (snd st ! j))))"

lemma rising_step: "knob_step raises st st' \<Longrightarrow> rising st \<Longrightarrow> rising st'"
proof (induction rule: knob_step.induct)
  case (calls i ts x steps k)
  have "\<forall>t \<in> set (ts[i := (False, steps)]). will_raise k t"
    using calls.prems set_steps_raise [OF calls(3,4), of k]
    by (auto simp: rising_def dest!: set_update_subset_insert [THEN subsetD])
  moreover have "\<exists>j < length ts. Store_Gate \<in> set (snd (ts[i := (False, steps)] ! j))"
    if "j < length ts" "Store_Gate \<in> set (snd (ts ! j))" for j
    using that calls(2) by (intro exI [of _ j]) (cases "j = i"; auto)
  ultimately show ?case using calls.prems by (auto simp: rising_def)
next
  case (acts i ts r s rest k)
  let ?k = "fst (exec (k, r) s)" and ?ts = "ts[i := (snd (exec (k, r) s), rest)]"
  from acts(1,2) have "(r, s # rest) \<in> set ts" by (metis nth_mem)
  with acts.prems have t: "will_raise k (r, s # rest)" by (simp add: rising_def)
  then have s: "raising s" "r \<longrightarrow> on k" by (simp_all add: will_raise_def)
  have up: "risen k ?k" by (rule risen_exec [OF s(1)])
  have "\<forall>t \<in> set ?ts. will_raise ?k t"
    using acts.prems will_raise_act [OF t] will_raise_risen [OF _ up]
    by (auto simp: rising_def dest!: set_update_subset_insert [THEN subsetD])
  moreover have "g_any ?k \<longrightarrow> on ?k"
  proof (cases "s = Store_Gate")
    case True
    with s(2) show ?thesis by (simp add: on_def)
  next
    case False
    with acts.prems on_risen [OF up] show ?thesis by (simp add: exec_gate rising_def)
  qed
  moreover have "on ?k \<longrightarrow> g_any ?k \<or> (\<exists>j < length ?ts. Store_Gate \<in> set (snd (?ts ! j)))"
  proof (cases "s = Store_Gate")
    case True
    then have "Store_Gate \<in> set (s # rest)" by simp
    from will_raise_gate [OF t this] obtain stores where "s # rest = stores @ [Store_Gate]" "Store_Gate \<notin> set stores"
      and "snd (foldl exec (k, r) (s # rest))" by blast
    with True have "r" by (cases stores) auto
    with True show ?thesis by simp
  next
    case gate: False
    show ?thesis
    proof (cases "Store_Gate \<in> set rest")
      case True
      with acts(1) show ?thesis by (intro impI disjI2 exI [of _ i]) simp
    next
      case False
      with t gate obtain name where n: "s = Store_Identity name" by (auto simp: will_raise_def)
      have "Store_Gate \<in> set (snd (?ts ! j))" if "j < length ts" "Store_Gate \<in> set (snd (ts ! j))" for j
        using that acts(2) False gate by (cases "j = i") auto
      with acts.prems n show ?thesis by (auto simp: rising_def on_def)
    qed
  qed
  ultimately show ?case by (simp add: rising_def)
qed

lemma rising_reachable:
  assumes "(knob_step raises)\<^sup>*\<^sup>* (k0, replicate n returned) st" and "knobs_ok k0"
  shows "rising st"
  using assms(1)
proof induction
  case base
  from assms(2) show ?case by (simp add: rising_def will_raise_def knobs_ok_def on_def)
next
  case (step st st')
  show ?case by (rule rising_step [OF step(2,3)])
qed

lemma on_active: "ranges k \<Longrightarrow> on k = spec_active (faults_of k)"
  by (simp add: on_def ranges_def spec_active_def faults_of_def)

lemma raises_anything: "(knob_step raises)\<^sup>*\<^sup>* st st' \<Longrightarrow> (knob_step anything)\<^sup>*\<^sup>* st st'"
  by (rule rtranclp_mono [THEN predicate2D]) (auto intro: knob_step.intros elim!: knob_step.cases)

text \<open>A run with its history: the calls made, in the order of their starts, and the actions, in the order in which they
  were performed.\<close>

inductive knob_run :: "(setter \<Rightarrow> bool) \<Rightarrow> knobs \<times> caller list \<Rightarrow> setter list \<Rightarrow> step list \<Rightarrow> knobs \<times> caller list \<Rightarrow> bool"
  for allowed st0 where
  run_starts: "knob_run allowed st0 [] [] st0"
| run_calls: "knob_run allowed st0 (xs @ [x]) acts (k, ts[i := (False, steps)])"
    if "knob_run allowed st0 xs acts (k, ts)" and "i < length ts" and "snd (ts ! i) = []" and "allowed x"
      and "set_steps x = Inr steps"
| run_acts: "knob_run allowed st0 xs (acts @ [s]) (fst (exec (k, r) s), ts[i := (snd (exec (k, r) s), rest)])"
    if "knob_run allowed st0 xs acts (k, ts)" and "i < length ts" and "ts ! i = (r, s # rest)"

lemma run_steps: "knob_run allowed st0 xs acts st \<Longrightarrow> (knob_step allowed)\<^sup>*\<^sup>* st0 st"
  by (induction rule: knob_run.induct) (auto intro: knob_step.intros rtranclp.rtrancl_into_rtrancl)

lemma steps_run: "(knob_step allowed)\<^sup>*\<^sup>* st0 st \<Longrightarrow> \<exists>xs acts. knob_run allowed st0 xs acts st"
proof (induction rule: rtranclp_induct)
  case base
  show ?case by (blast intro: run_starts)
next
  case (step st st')
  from step(3) obtain xs acts where r: "knob_run allowed st0 xs acts st" by blast
  from step(2) show ?case
  proof (cases rule: knob_step.cases)
    case (calls i ts x steps k)
    with r show ?thesis by (blast intro: run_calls)
  next
    case (acts i ts r' s rest k)
    with r show ?thesis by (blast intro: run_acts)
  qed
qed

text \<open>Every action of a call has been performed or is still to come.\<close>

definition actions_of :: "setter list \<Rightarrow> step set" where
  "actions_of xs = {s. \<exists>x \<in> set xs. \<exists>steps. set_steps x = Inr steps \<and> s \<in> set steps}"

definition pending :: "caller list \<Rightarrow> step set" where
  "pending ts = (\<Union>j < length ts. set (snd (ts ! j)))"

lemma pending_at: "i < length ts \<Longrightarrow> pending ts = set (snd (ts ! i)) \<union> pending (ts[i := returned])"
proof (intro equalityI subsetI)
  fix a assume i: "i < length ts" and "a \<in> pending ts"
  then obtain j where "j < length ts" "a \<in> set (snd (ts ! j))" by (auto simp: pending_def)
  with i show "a \<in> set (snd (ts ! i)) \<union> pending (ts[i := returned])"
    by (cases "j = i") (auto simp: pending_def intro!: bexI [of _ j])
qed (auto simp: pending_def nth_list_update split: if_splits)

lemma pending_update: "i < length ts \<Longrightarrow> pending (ts[i := t]) = set (snd t) \<union> pending (ts[i := returned])"
  using pending_at [of i "ts[i := t]"] by simp

lemma run_actions:
  assumes "knob_run allowed (k0, replicate n returned) xs acts st"
  shows "set acts \<union> pending (snd st) = actions_of xs"
  using assms
proof induction
  case run_starts
  show ?case by (simp add: pending_def actions_of_def)
next
  case (run_calls xs acts k ts i x steps)
  have "actions_of (xs @ [x]) = actions_of xs \<union> set steps"
    using run_calls.hyps by (auto simp: actions_of_def)
  with run_calls.IH pending_at [OF run_calls.hyps(2)] pending_update [OF run_calls.hyps(2), of "(False, steps)"]
    run_calls.hyps(3) show ?case by auto
next
  case (run_acts xs acts k ts i r s rest)
  from run_acts.IH pending_at [OF run_acts.hyps(2)] pending_update [OF run_acts.hyps(2), of "(snd (exec (k, r) s), rest)"]
    run_acts.hyps(3) show ?case by auto
qed

text \<open>An atomic variable holds what was last stored in it.\<close>

fun last_stored :: "(step \<Rightarrow> 'v option) \<Rightarrow> 'v \<Rightarrow> step list \<Rightarrow> 'v" where
  "last_stored sel v [] = v"
| "last_stored sel v (s # acts) = last_stored sel (case sel s of None \<Rightarrow> v | Some w \<Rightarrow> w) acts"

definition one_of :: "'v \<Rightarrow> 'v set \<Rightarrow> 'v \<Rightarrow> bool" where
  "one_of v0 V v \<longleftrightarrow> (if V = {} then v = v0 else v \<in> V)"

lemma last_stored_append [simp]: "last_stored sel v (acts @ acts') = last_stored sel (last_stored sel v acts) acts'"
  by (induction acts arbitrary: v) simp_all

lemma last_stored_one_of: "one_of v {w. \<exists>s \<in> set acts. sel s = Some w} (last_stored sel v acts)"
proof (induction acts rule: rev_induct)
  case Nil
  show ?case by (simp add: one_of_def)
next
  case (snoc s acts)
  then show ?case by (cases "sel s") (auto simp: one_of_def split: if_splits)
qed

fun stored_latency :: "step \<Rightarrow> int option" where
  "stored_latency (Store_Latency v) = Some v" | "stored_latency _ = None"

fun stored_jitter :: "step \<Rightarrow> int option" where
  "stored_jitter (Store_Jitter v) = Some v" | "stored_jitter _ = None"

fun stored_drop :: "step \<Rightarrow> int option" where
  "stored_drop (Store_Drop v) = Some v" | "stored_drop _ = None"

fun stored_hanging :: "step \<Rightarrow> bool option" where
  "stored_hanging (Store_Hanging b) = Some b" | "stored_hanging _ = None"

fun stored_identity :: "step \<Rightarrow> string option" where
  "stored_identity (Store_Identity name) = Some name" | "stored_identity _ = None"

lemma run_stored:
  assumes "knob_run allowed st0 xs acts st"
  shows "g_latency_ns (fst st) = last_stored stored_latency (g_latency_ns (fst st0)) acts \<and>
    g_jitter_ns (fst st) = last_stored stored_jitter (g_jitter_ns (fst st0)) acts \<and>
    g_drop_ppm (fst st) = last_stored stored_drop (g_drop_ppm (fst st0)) acts \<and>
    g_hanging (fst st) = last_stored stored_hanging (g_hanging (fst st0)) acts \<and>
    g_identity (fst st) = last_stored stored_identity (g_identity (fst st0)) acts"
  using assms
proof induction
  case (run_acts xs acts k ts i r s rest)
  then show ?case by (cases s) (simp_all add: Let_def)
qed simp_all

lemma run_cuts:
  assumes "knob_run allowed st0 xs acts st" and "\<forall>s \<in> set acts. raising s"
  shows "g_partitions (fst st) = g_partitions (fst st0) \<union> {p. Insert_Cut p \<in> set acts}"
  using assms
proof induction
  case (run_acts xs acts k ts i r s rest)
  then show ?case by (cases s) auto
qed simp_all

lemma run_allowed: "knob_run allowed st0 xs acts st \<Longrightarrow> \<forall>x \<in> set xs. allowed x \<and> (\<exists>steps. set_steps x = Inr steps)"
  by (induction rule: knob_run.induct) auto

lemma raise_actions:
  assumes "set_steps x = Inr steps" and "raises x"
  shows "Store_Latency v \<in> set steps \<longleftrightarrow> (\<exists>mean jitter. x = Latency mean jitter \<and> v = mean * 1000000)"
    and "Store_Jitter v \<in> set steps \<longleftrightarrow> (\<exists>mean jitter. x = Latency mean jitter \<and> v = jitter * 1000000)"
    and "Store_Drop v \<in> set steps \<longleftrightarrow> (\<exists>p. x = Drop p \<and> ppm_of p = Inr v)"
    and "Store_Hanging b \<in> set steps \<longleftrightarrow> x = Hang b"
    and "Store_Identity name \<in> set steps \<longleftrightarrow> x = Identity name"
    and "Insert_Cut c \<in> set steps \<longleftrightarrow> (\<exists>a b. x = Partition a b \<and> c = ordered a b)"
  using assms
  by (cases x; auto simp: refresh_gate_def nanos_of_millis_def and_then_Inr_iff split: if_splits)+

text \<open>The faults that a run of raising calls leaves: what was set stays set, and of the numbers and the name, of which
  there can be one only, it is one that was asked for.\<close>

definition asked_for :: "faults \<Rightarrow> setter list \<Rightarrow> faults \<Rightarrow> bool" where
  "asked_for f0 xs f \<longleftrightarrow>
     (f_hanging f \<longleftrightarrow> f_hanging f0 \<or> Hang True \<in> set xs) \<and>
     f_cuts f = f_cuts f0 \<union> {{a, b} | a b. Partition a b \<in> set xs} \<and>
     one_of (f_mean f0) {mean * 1000000 | mean jitter. Latency mean jitter \<in> set xs} (f_mean f) \<and>
     one_of (f_jitter f0) {jitter * 1000000 | mean jitter. Latency mean jitter \<in> set xs} (f_jitter f) \<and>
     one_of (f_ppm f0) {ppm. \<exists>p. Drop p \<in> set xs \<and> ppm_of p = Inr ppm} (f_ppm f) \<and>
     one_of (f_identity f0) {name. Identity name \<in> set xs} (f_identity f)"

lemma run_asked_for:
  assumes run: "knob_run raises (k0, replicate n returned) xs acts (k, ts)" and "all_returned ts"
  shows "asked_for (faults_of k0) xs (faults_of k)"
proof -
  have "pending ts = {}" using assms(2) by (auto simp: pending_def all_returned_def list_all_length)
  with run_actions [OF run] have acts: "set acts = actions_of xs" by simp
  have ok: "\<forall>x \<in> set xs. raises x \<and> (\<exists>steps. set_steps x = Inr steps)" by (rule run_allowed [OF run])
  have act: "s \<in> actions_of xs \<longleftrightarrow> (\<exists>x \<in> set xs. P x)"
    if "\<And>x steps. set_steps x = Inr steps \<Longrightarrow> raises x \<Longrightarrow> s \<in> set steps \<longleftrightarrow> P x" for s P
    using ok that unfolding actions_of_def mem_Collect_eq by blast
  have actions: "Store_Latency v \<in> actions_of xs \<longleftrightarrow> (\<exists>x \<in> set xs. \<exists>mean jitter. x = Latency mean jitter \<and> v = mean * 1000000)"
    "Store_Jitter v \<in> actions_of xs \<longleftrightarrow> (\<exists>x \<in> set xs. \<exists>mean jitter. x = Latency mean jitter \<and> v = jitter * 1000000)"
    "Store_Drop v \<in> actions_of xs \<longleftrightarrow> (\<exists>x \<in> set xs. \<exists>p. x = Drop p \<and> ppm_of p = Inr v)"
    "Store_Hanging b \<in> actions_of xs \<longleftrightarrow> (\<exists>x \<in> set xs. x = Hang b)"
    "Store_Identity name \<in> actions_of xs \<longleftrightarrow> (\<exists>x \<in> set xs. x = Identity name)"
    "Insert_Cut c \<in> actions_of xs \<longleftrightarrow> (\<exists>x \<in> set xs. \<exists>a b. x = Partition a b \<and> c = ordered a b)" for v b name c
    by (rule act, erule (1) raise_actions)+
  have stores: "{w. \<exists>s \<in> set acts. stored_latency s = Some w} = {v. Store_Latency v \<in> actions_of xs}"
    "{w. \<exists>s \<in> set acts. stored_jitter s = Some w} = {v. Store_Jitter v \<in> actions_of xs}"
    "{w. \<exists>s \<in> set acts. stored_drop s = Some w} = {v. Store_Drop v \<in> actions_of xs}"
    "{w. \<exists>s \<in> set acts. stored_hanging s = Some w} = {v. Store_Hanging v \<in> actions_of xs}"
    "{w. \<exists>s \<in> set acts. stored_identity s = Some w} = {v. Store_Identity v \<in> actions_of xs}"
    unfolding acts
    by (auto elim!: stored_latency.elims stored_jitter.elims stored_drop.elims stored_hanging.elims stored_identity.elims
        intro!: bexI)
  have calls: "{v. Store_Latency v \<in> actions_of xs} = {mean * 1000000 | mean jitter. Latency mean jitter \<in> set xs}"
    "{v. Store_Jitter v \<in> actions_of xs} = {jitter * 1000000 | mean jitter. Latency mean jitter \<in> set xs}"
    "{v. Store_Drop v \<in> actions_of xs} = {ppm. \<exists>p. Drop p \<in> set xs \<and> ppm_of p = Inr ppm}"
    "{v. Store_Hanging v \<in> actions_of xs} = {b. Hang b \<in> set xs}"
    "{v. Store_Identity v \<in> actions_of xs} = {name. Identity name \<in> set xs}"
    unfolding actions by auto
  note cells = last_stored_one_of [where sel = stored_latency and acts = acts, unfolded stores calls]
    last_stored_one_of [where sel = stored_jitter and acts = acts, unfolded stores calls]
    last_stored_one_of [where sel = stored_drop and acts = acts, unfolded stores calls]
    last_stored_one_of [where sel = stored_hanging and acts = acts, unfolded stores calls]
    last_stored_one_of [where sel = stored_identity and acts = acts, unfolded stores calls]
  have "Hang False \<notin> set xs" using ok by auto
  then have "{b. Hang b \<in> set xs} = (if Hang True \<in> set xs then {True} else {})"
    by (auto intro: ccontr) (metis (full_types))
  then have "g_hanging k \<longleftrightarrow> g_hanging k0 \<or> Hang True \<in> set xs"
    using run_stored [OF run] cells(4) [of "g_hanging k0"] by (cases "Hang True \<in> set xs") (simp_all add: one_of_def)
  moreover have up: "\<forall>s \<in> set acts. raising s"
  proof
    fix s assume "s \<in> set acts"
    then obtain x steps where "x \<in> set xs" "set_steps x = Inr steps" "s \<in> set steps"
      by (auto simp: acts actions_of_def)
    moreover from this ok have "will_raise k (False, steps)" by (intro set_steps_raise) auto
    ultimately show "raising s" by (simp add: will_raise_def)
  qed
  have "f_cuts (faults_of k) = f_cuts (faults_of k0) \<union> {{a, b} | a b. Partition a b \<in> set xs}"
  proof -
    have "{p. Insert_Cut p \<in> set acts} = {ordered a b | a b. Partition a b \<in> set xs}"
      unfolding acts actions by auto
    moreover have "(\<lambda>(a, b). {a, b}) ` {ordered a b | a b. Partition a b \<in> set xs} = {{a, b} | a b. Partition a b \<in> set xs}"
    proof (intro set_eqI)
      fix c
      have "c \<in> (\<lambda>(a, b). {a, b}) ` {ordered a b | a b. Partition a b \<in> set xs} \<longleftrightarrow>
          (\<exists>a b. Partition a b \<in> set xs \<and> c = (\<lambda>(x, y). {x, y}) (ordered a b))" by blast
      then show "c \<in> (\<lambda>(a, b). {a, b}) ` {ordered a b | a b. Partition a b \<in> set xs} \<longleftrightarrow>
          c \<in> {{a, b} | a b. Partition a b \<in> set xs}" by (simp only: ordered_set) blast
    qed
    ultimately show ?thesis using run_cuts [OF run up] by (simp add: faults_of_def image_Un)
  qed
  ultimately show ?thesis
    using run_stored [OF run] cells by (simp add: asked_for_def faults_of_def)
qed

lemma jitter_needs_latency:
  assumes "asked_for (faults_of k0) xs (faults_of k)" and "\<forall>x \<in> set xs. raises x \<and> (\<exists>steps. set_steps x = Inr steps)"
    and "knobs_ok k0"
  shows "g_jitter_ns k \<noteq> 0 \<longrightarrow> g_latency_ns k \<noteq> 0"
proof (cases "\<exists>mean jitter. Latency mean jitter \<in> set xs")
  case True
  with assms(1) obtain mean jitter where "g_latency_ns k = mean * 1000000" "Latency mean jitter \<in> set xs"
    by (auto simp: asked_for_def one_of_def faults_of_def split: if_splits)
  with assms(2) show ?thesis by auto
next
  case False
  then have "g_jitter_ns k = g_jitter_ns k0" "g_latency_ns k = g_latency_ns k0"
    using assms(1) by (auto simp: asked_for_def one_of_def faults_of_def)
  with assms(3) show ?thesis by (auto simp: knobs_ok_def)
qed

lemma run_all_acts:
  assumes "knob_run allowed st0 xs acts (k, ts)" and "i < length ts" and "ts ! i = (r, steps @ rest)"
  shows "knob_run allowed st0 xs (acts @ steps) (fst (foldl exec (k, r) steps), ts[i := (snd (foldl exec (k, r) steps), rest)])"
  using assms
proof (induction steps arbitrary: k r ts acts)
  case Nil
  then show ?case by (metis append_Nil append_Nil2 foldl_Nil fst_conv list_update_id snd_conv)
next
  case (Cons s steps)
  obtain k' r' where e: "exec (k, r) s = (k', r')" by fastforce
  have "knob_run allowed st0 xs (acts @ [s]) (k', ts[i := (r', steps @ rest)])"
    using run_acts [OF Cons.prems(1,2), of r s "steps @ rest"] Cons.prems(3) by (simp add: e)
  from Cons.IH [OF this, of r'] Cons.prems(2) show ?case by (simp add: e)
qed

text \<open>C16: Faults that are only switched on are never lost. If the threads call setters that raise a fault or name the
  node, in any number and interleaving, then whenever all calls have returned the faults set are those that were asked
  for: the hang and every cut that some call set or that was there before, and of the delay, the jitter, the drop rate
  and the name one that a call gave, or the old one when none did. The gate says exactly whether a fault is set,
  and every check answers as the specification: the peers blocked, the responses dropped, and the sleeps
  before a response, of the delay and of the hang. So a lost fault needs a concurrent call that switches one off.\<close>

theorem raised_faults_stay:
  assumes "knob_run raises (k0, replicate n returned) xs acts (k, ts)" and "knobs_ok k0" and "all_returned ts"
  shows "asked_for (faults_of k0) xs (faults_of k) \<and>
    any_enabled k = spec_active (faults_of k) \<and> blocked k peer = spec_blocked (faults_of k) peer \<and>
    (0 \<le> draw \<longrightarrow> should_drop k draw = (draw < f_ppm (faults_of k))) \<and>
    before_response k draw loads =
      (if spec_active (faults_of k)
       then and_then (spec_wait (faults_of k) draw) (\<lambda>waits.
         and_then (hang_loop loads) (\<lambda>sleeps. Inr (waits @ sleeps)))
       else Inr [])"
proof -
  have asked: "asked_for (faults_of k0) xs (faults_of k)" by (rule run_asked_for [OF assms(1,3)])
  have steps: "(knob_step raises)\<^sup>*\<^sup>* (k0, replicate n returned) (k, ts)" by (rule run_steps [OF assms(1)])
  have "all_in_range (k, ts)" by (rule in_range_reachable [OF raises_anything [OF steps] assms(2)])
  then have k: "ranges k" by (simp add: all_in_range_def)
  have "\<not> (\<exists>j < length ts. Store_Gate \<in> set (snd (ts ! j)))"
    using assms(3) by (simp add: all_returned_def list_all_length)
  with rising_reachable [OF steps assms(2)] have g: "g_any k = on k" by (auto simp: rising_def)
  have "blocked k peer = spec_blocked (faults_of k) peer"
    using k g cut_iff [of "g_partitions k" "g_identity k" peer]
    by (auto simp: blocked_def spec_blocked_def faults_of_def ranges_def on_def)
  moreover have "should_drop k draw = (draw < f_ppm (faults_of k))" if "0 \<le> draw"
    using k g that by (auto simp: should_drop_def faults_of_def ranges_def on_def)
  moreover have "injected_wait k draw = spec_wait (faults_of k) draw"
    using k jitter_needs_latency [OF asked run_allowed [OF assms(1)] assms(2)]
    by (auto simp: injected_wait_def spec_wait_def spec_delay_def faults_of_def ranges_def int64_ok_def Let_def)
  ultimately show ?thesis using asked g on_active [OF k] by (simp add: any_enabled_def before_response_def)
qed

theorem raised_faults_stay_witness:
  "\<exists>k. any_enabled k \<and> g_hanging k \<and> before_response k 0 [] = Inl Blocked"
proof -
  obtain k where k: "code_set (Hang True) initial_knobs = (Inr (), k)"
    by (simp add: set_hang_forever_def perform_def refresh_gate_def)
  let ?s = "Store_Hanging True # refresh_gate"
  have "knob_run raises (initial_knobs, replicate 2 returned) ([] @ [Hang True]) []
      (initial_knobs, (replicate 2 returned)[0 := (False, ?s)])"
    by (rule run_calls [OF run_starts]) simp_all
  from run_all_acts [OF this, of 0 False ?s "[]"] obtain acts r where
    run: "knob_run raises (initial_knobs, replicate 2 returned) [Hang True] acts
      (k, (replicate 2 returned)[0 := (r, [])])"
    using k by (auto simp: set_hang_forever_def perform_def)
  have "all_returned ((replicate 2 returned)[0 := (r, [])])"
    by (simp add: all_returned_def numeral_2_eq_2)
  from raised_faults_stay [OF run knobs_ok_initial this, of "''b''" 0 "[]"] show ?thesis
    by (auto simp: asked_for_def one_of_def spec_active_def faults_of_def initial_knobs_def spec_wait_def spec_delay_def int64_ok_def)
qed

end
