(* ===== verification/Spec2Isabelle.thy ===== *)
theory Spec2Isabelle
  imports Rig_Errors Loopback Verifier Cost Operator Interleaving Knob_Threads
begin

text \<open>
  A model of dariyanaap, a load generator for TCP services, with the three small programs that come with it
  and the library that injects faults into a service under test. This theory imports all others.

  \<^bold>\<open>The program.\<close> \<open>dariyanaap\<close> (\<open>apps/dariyanaap.cpp\<close>) opens a number of connections to a target, one thread each,
  sends requests of one of two protocols, and reports how long the replies took. In a closed loop
  (\<open>src/load/closed_loop.cpp\<close>) a connection sends its next request when the last one is answered; in an open
  loop (\<open>open_loop.cpp\<close>) requests are due at the instants of a shared schedule, and a latency counts from the due instant.
  A worker (\<open>worker.cpp\<close>, or the class in \<open>open_loop.cpp\<close>) connects (\<open>src/core/socket.cpp\<close>), performs exchanges
  (\<open>exchange.cpp\<close>), records into its own histogram (\<open>src/stats\<close>), and counts what failed; the
  main thread joins the workers, merges, summarises and writes the CSV files.
  \<open>dariyanaap-null\<close> (\<open>apps/dariyanaap_null.cpp\<close>) is a target that echoes; it listens (\<open>src/core/listener.cpp\<close>) and asks the
  fault knobs (\<open>src/fault/knobs.cpp\<close>) before each reply. The knobs are set from the environment or over a control
  connection (\<open>src/fault/control.cpp\<close>). \<open>hist_verify\<close> compares the histogram with sorted samples,
  \<open>fault_cost\<close> times the checks of the fault library when they are off.

  \<^bold>\<open>The theories\<close>, in the order in which they build on each other:

  \<^item> \<open>Prelude\<close>, \<open>Errors\<close>, \<open>Strings\<close>, \<open>Streams\<close>, \<open>IEEE_Double\<close>, \<open>Decimal\<close>: the integer types, the exceptions (\<open>errors.cpp\<close>) and
    results, the operations of \<open>std::string\<close> and of \<open>istringstream\<close> that the code uses, binary64
    arithmetic over the rationals, each operation rounded once, and the text that streams and \<open>printf\<close> make of a double.
  \<^item> \<open>Buckets\<close>, \<open>Histogram\<close>, \<open>Summary\<close>, \<open>Time_Series\<close>, \<open>Csv\<close>, \<open>Verifier\<close>: \<open>src/stats\<close> and \<open>hist_verify.cpp\<close>. The
    specification of a histogram is the multiset of its samples (\<open>hist_of\<close>); that of a CSV file is
    what an RFC 4180 reader finds in it.
  \<^item> \<open>Units\<close>, \<open>Clock\<close>, \<open>Schedule\<close>, \<open>Endpoint\<close>, \<open>Flags\<close>: rates, the monotonic clock, the schedule of the open loop, the
    textual forms of an endpoint, the command line.
  \<^item> \<open>Effects\<close>, \<open>Socket\<close>, \<open>Listener\<close>: operations on the environment (below), and every function of \<open>socket.cpp\<close>,
    \<open>address.cpp\<close> and \<open>listener.cpp\<close> on top of them, one definition per function and one per loop body.
  \<^item> \<open>Http\<close>, \<open>Protocol\<close>, \<open>Exchange\<close>: building and framing, the protocol interface as the record of its virtual
    methods, \<open>perform_request\<close>. The framing contract is the locale \<open>framing\<close>, which \<open>RawEcho\<close> and \<open>Http11Get\<close>
    interpret; \<open>patient\<close> in \<open>Loopback\<close> extends it.
  \<^item> \<open>Run_Result\<close>, \<open>Threads\<close>, \<open>Worker\<close>, \<open>Closed_Loop\<close>, \<open>Open_Loop\<close>: the counters, starting and joining threads,
    the two kinds of worker and of run. \<open>Threads\<close> also has the rules (\<open>triple\<close>) by which the worker proofs go
    through the operations.
  \<^item> \<open>Simulation\<close>, \<open>Knobs\<close>, \<open>Control\<close>: the fault library. \<open>simulation\<close> is the locale of a functional refinement, which \<open>Knobs\<close>
    interprets between the atomics of the code and the set of faults asked for, and \<open>Operator\<close> between the replies of a
    control connection and the meaning of its lines.
  \<^item> \<open>Interleaving\<close>, \<open>Knob_Threads\<close>: the threads of an open-loop run, and threads that set knobs at once, as step
    relations (\<open>pool_step\<close>, \<open>knob_step\<close>) whose reachable states are those of all interleavings.
  \<^item> \<open>Null_Target\<close>, \<open>Report\<close>, \<open>Rig\<close>, \<open>Rig_Errors\<close>, \<open>Cost\<close>, \<open>Loopback\<close>: the programs from the command line to the exit code, what
    the rig prints, how it fails, and an exchange of the rig with a connection of the null target.

  \<^bold>\<open>Conventions.\<close> An operation that may throw returns \<open>error + 'a\<close>. Signed integers are \<open>int\<close> with a range test where the
  code could overflow, which is then \<open>Undefined\<close>; unsigned ones are words and wrap; a failed \<open>assert\<close> is
  \<open>Assertion\<close>. A theorem that an operation returns \<open>Inr\<close> therefore says that none of these happens.

  An operation on the environment is a function on a \<open>world\<close>: the readings of the clock, the script of the kernel's
  answers to this thread's system calls, and the log of what the thread did. A script is any list
  of answers: partial reads and writes, signals (\<open>EINTR\<close>), expired timeouts (\<open>EAGAIN\<close>), failures with any other
  \<open>errno\<close>, the end of a stream. Theorems quantify over all scripts. A loop around system calls is \<open>iterate\<close>, whose
  bound is the length of the script plus one; every turn that goes round again consumes an answer, so the bound is never
  what ends a loop (\<open>iterate_unfold\<close> is the equation of the unbounded loop), and a thread whose script has ended is
  \<open>Blocked\<close> in its call, as a real one waits in the kernel. The loops of \<open>Control\<close> are recursive functions with the
  same measure. The texts of \<open>strerror\<close> and how an address prints, which the messages of exceptions show, are part of the world.

  The programs' own surroundings, the files and the two output streams, are a \<open>shell\<close>; a \<open>job\<close> is a step that may print,
  write and fail.

  Threads share little, and what they share is explicit: the claims on the schedule's counter are a sequence of
  atomic steps by any threads in any order (\<open>Interleaving\<close> proves that this is what the interleaved turns of the
  threads come to), the calls on the time series an arbitrary interleaving of the workers' own
  sequences, the setters of the knobs lists of atomic actions, which \<open>Knob_Threads\<close> interleaves. Each thread otherwise has its own world.

  Parameters, as they are not the program's code: \<open>getaddrinfo\<close>, \<open>getnameinfo\<close>, the layout of
  \<open>sockaddr\<close>, the environment variables, the random draws, which threads the system can start, which files can be opened.

  \<^bold>\<open>What the theorems show.\<close> For the statistics: a percentile never lies below the sample of its rank nor more than 1/128
  above it, merging loses nothing, the series adds up to the run. For the measurement: an exchange reports
  success only for a complete response, whatever the kernel and the peer do, and does report every complete one; every
  request a worker attempted is in its histogram or in one counter; the accounting of a run balances; an open-loop latency
  hides no waiting, every measured slot that was claimed has its one sample, and its verdict blames the rig for the rig's lag only. For the sockets: no descriptor leaks,
  no byte is lost, repeated or reordered. For the fault library: after any sequence of
  setters the checks answer as the faults asked for say; a command is carried out whole or not at
  all; the chunks in which commands arrive do not matter, and the operator of a control connection gets the faults
  asked for; setters that overlap never invent a fault, and what only raising setters asked for is what the checks then answer. For the programs: the summary file of a sweep is one table, the null
  target echoes what the rig's exchange waits for, whatever the payload and the buffers, the exit codes mean what they say, and an open-loop
  run that completes is reported to its end, with no percentile missing, and a usage error touches nothing. Parsing and printing
  are characterised exactly or as round trips. A few theorems show where the code does not do what it means to, such
  as the race of two setters, the destructor of the control server that waits for ever, or the exception that ends the
  null target without its error message; where the documentation of a command and the code differ, the specification is the
  documentation's and the difference is named (\<open>taken_as\<close> in \<open>Operator\<close>).

  \<^bold>\<open>Not modelled.\<close> The tests. The memory model is sequentially consistent: relaxed loads see the
  current value. Exhausted memory and exceptions of the standard library other than the empty \<open>optional\<close> do not
  occur. The lock of the time series and that of the cuts are taken as making their critical sections atomic.
  In \<open>Control\<close> the control connection is the only one that changes the knobs while it is served; \<open>Knob_Threads\<close> has
  the setters of several threads, against the moments at which a target asks.
\<close>

end
